theory Spec2Isabelle
  imports Main
begin

section \<open>Grid geometry shared by ff.c and ffv3.c\<close>

text \<open>
  A cell is the pair of its C coordinates \<open>(x, y)\<close> (ffv3.c: \<open>Point\<close>). The C arrays
  \<open>distances[16][16]\<close>, \<open>walls[16][16][4]\<close> and \<open>visited[16][16]\<close> are functions from
  cells; only the entries of cells inside the grid belong to the arrays.
\<close>

type_synonym cell = "int \<times> int"

datatype Direction = NORTH | EAST | SOUTH | WEST

datatype RunMode = SEARCH_MODE | RETURN_MODE | SPEED_MODE

abbreviation MAZE_WIDTH :: int where "MAZE_WIDTH \<equiv> 16"
abbreviation MAZE_HEIGHT :: int where "MAZE_HEIGHT \<equiv> 16"
abbreviation MAX_CELLS :: nat where "MAX_CELLS \<equiv> 256"
abbreviation INVALID_DISTANCE :: int where "INVALID_DISTANCE \<equiv> 256"
abbreviation GOAL_X1 :: int where "GOAL_X1 \<equiv> 7"
abbreviation GOAL_Y1 :: int where "GOAL_Y1 \<equiv> 7"
abbreviation GOAL_X2 :: int where "GOAL_X2 \<equiv> 8"
abbreviation GOAL_Y2 :: int where "GOAL_Y2 \<equiv> 8"

text \<open>The enum values 0..3 of a direction and the arithmetic \<open>(dir + k) % 4\<close> on them.\<close>

fun dir_index :: "Direction \<Rightarrow> nat" where
  "dir_index NORTH = 0"
| "dir_index EAST = 1"
| "dir_index SOUTH = 2"
| "dir_index WEST = 3"

definition index_dir :: "nat \<Rightarrow> Direction" where
  "index_dir n = (if n = 0 then NORTH else if n = 1 then EAST else if n = 2 then SOUTH else WEST)"

definition dir_plus :: "Direction \<Rightarrow> nat \<Rightarrow> Direction" where
  "dir_plus dir k = index_dir ((dir_index dir + k) mod 4)"

definition get_opposite_direction :: "Direction \<Rightarrow> Direction" where
  "get_opposite_direction dir = dir_plus dir 2"

abbreviation all_dirs :: "Direction list" where
  "all_dirs \<equiv> [NORTH, EAST, SOUTH, WEST]"

fun dx :: "Direction \<Rightarrow> int" where
  "dx NORTH = 0"
| "dx EAST = 1"
| "dx SOUTH = 0"
| "dx WEST = - 1"

fun dy :: "Direction \<Rightarrow> int" where
  "dy NORTH = 1"
| "dy EAST = 0"
| "dy SOUTH = - 1"
| "dy WEST = 0"

definition neighbor :: "cell \<Rightarrow> Direction \<Rightarrow> cell" where
  "neighbor p dir = (fst p + dx dir, snd p + dy dir)"

definition is_within_bounds :: "cell \<Rightarrow> bool" where
  "is_within_bounds p = (fst p \<ge> 0 \<and> fst p < MAZE_WIDTH \<and> snd p \<ge> 0 \<and> snd p < MAZE_HEIGHT)"

definition is_at_goal :: "cell \<Rightarrow> bool" where
  "is_at_goal p = ((fst p = GOAL_X1 \<or> fst p = GOAL_X2) \<and> (snd p = GOAL_Y1 \<or> snd p = GOAL_Y2))"

definition is_at_start :: "cell \<Rightarrow> bool" where
  "is_at_start p = (fst p = 0 \<and> snd p = 0)"

text \<open>The cells in the order of the loops \<open>for x: for y:\<close> over the whole grid.\<close>

definition all_cells :: "cell list" where
  "all_cells = concat (map (\<lambda>x. map (\<lambda>y. (x, y)) [0..MAZE_HEIGHT - 1]) [0..MAZE_WIDTH - 1])"

text \<open>\<open>for x: for y: a[x][y] = v\<close>\<close>

definition set_all :: "'a \<Rightarrow> (cell \<Rightarrow> 'a) \<Rightarrow> (cell \<Rightarrow> 'a)" where
  "set_all v a = fold (\<lambda>c a'. a'(c := v)) all_cells a"

section \<open>The maze state\<close>

text \<open>
  ffv3.c keeps the three arrays in \<open>struct Maze\<close>; ff.c has the same three arrays as
  globals. Both are modelled by this record.
\<close>

type_synonym wallmap = "cell \<Rightarrow> Direction \<Rightarrow> bool"

record Maze =
  distances :: "cell \<Rightarrow> int"
  walls :: wallmap
  visited :: "cell \<Rightarrow> bool"

text \<open>Writing one entry \<open>walls[x][y][dir] = b\<close>.\<close>

definition wall_write :: "wallmap \<Rightarrow> cell \<Rightarrow> Direction \<Rightarrow> bool \<Rightarrow> wallmap" where
  "wall_write w p dir b = w(p := (w p)(dir := b))"

subsection \<open>ffv3.c: set_wall, has_wall, init_maze, update_walls_current_cell\<close>

definition set_wall :: "Maze \<Rightarrow> cell \<Rightarrow> Direction \<Rightarrow> Maze" where
  "set_wall m p dir =
     (if \<not> is_within_bounds p then m
      else
        let m1 = m\<lparr>walls := wall_write (walls m) p dir True\<rparr>;
            neighbor_pos = (fst p + dx dir, snd p + dy dir)
        in if is_within_bounds neighbor_pos
           then m1\<lparr>walls := wall_write (walls m1) neighbor_pos (get_opposite_direction dir) True\<rparr>
           else m1)"

definition has_wall :: "Maze \<Rightarrow> cell \<Rightarrow> Direction \<Rightarrow> bool" where
  "has_wall m p dir = (if \<not> is_within_bounds p then True else walls m p dir)"

definition init_maze :: "Maze \<Rightarrow> Maze" where
  "init_maze m =
     (let m1 = m\<lparr>distances := set_all INVALID_DISTANCE (distances m),
                 visited := set_all False (visited m),
                 walls := set_all (\<lambda>dir. False) (walls m)\<rparr>;
          m2 = fold (\<lambda>i m'. set_wall (set_wall m' (i, 0) SOUTH) (i, MAZE_HEIGHT - 1) NORTH)
                 [0..MAZE_WIDTH - 1] m1
      in fold (\<lambda>i m'. set_wall (set_wall m' (0, i) WEST) (MAZE_WIDTH - 1, i) EAST)
           [0..MAZE_HEIGHT - 1] m2)"

text \<open>The three sensor readings \<open>API_wallFront()\<close>, \<open>API_wallRight()\<close>, \<open>API_wallLeft()\<close>
  of one tick are inputs of the model.\<close>

record sensors =
  wallFront :: bool
  wallRight :: bool
  wallLeft :: bool

record MouseState =
  pos :: cell
  orientation :: Direction
  mode :: RunMode
  goal_found :: bool
  shortest_path :: "nat \<Rightarrow> cell"
  path_length :: nat

definition update_walls_current_cell :: "sensors \<Rightarrow> MouseState \<Rightarrow> Maze \<Rightarrow> Maze" where
  "update_walls_current_cell sn ms m =
     (let current_pos = pos ms;
          current_orient = orientation ms;
          front_dir = current_orient;
          right_dir = dir_plus current_orient 1;
          left_dir = dir_plus current_orient 3;
          m1 = (if wallFront sn then set_wall m current_pos front_dir else m);
          m2 = (if wallRight sn then set_wall m1 current_pos right_dir else m1)
      in if wallLeft sn then set_wall m2 current_pos left_dir else m2)"

subsection \<open>ff.c: the globals, updateWalls, and the wall part of initializeMaze\<close>

record Globals =
  posX :: int
  posY :: int
  direction :: Direction
  currentMode :: RunMode
  goalFound :: bool
  explorePhaseComplete :: bool
  maze :: Maze
  fastestPath :: "nat \<Rightarrow> cell"
  pathLength :: nat

text \<open>
  The block that ff.c repeats for every sensed or bumped edge:
  \<open>walls[posX][posY][dir] = b; nx = posX + dx[dir]; ny = posY + dy[dir];
  if (nx >= 0 && nx < MAZE_WIDTH && ny >= 0 && ny < MAZE_HEIGHT) walls[nx][ny][(dir + 2) % 4] = b;\<close>
\<close>

definition write_edge :: "wallmap \<Rightarrow> cell \<Rightarrow> Direction \<Rightarrow> bool \<Rightarrow> wallmap" where
  "write_edge w p dir b =
     (let w1 = wall_write w p dir b;
          nx = fst p + dx dir;
          ny = snd p + dy dir
      in if nx \<ge> 0 \<and> nx < MAZE_WIDTH \<and> ny \<ge> 0 \<and> ny < MAZE_HEIGHT
         then wall_write w1 (nx, ny) (dir_plus dir 2) b
         else w1)"

definition updateWalls :: "sensors \<Rightarrow> Globals \<Rightarrow> Globals" where
  "updateWalls sn g =
     (let p = (posX g, posY g);
          w = walls (maze g);
          w1 = (if wallFront sn then write_edge w p (direction g) True
                else write_edge w p (direction g) False);
          w2 = (if wallRight sn then write_edge w1 p (dir_plus (direction g) 1) True
                else write_edge w1 p (dir_plus (direction g) 1) False);
          w3 = (if wallLeft sn then write_edge w2 p (dir_plus (direction g) 3) True
                else write_edge w2 p (dir_plus (direction g) 3) False)
      in g\<lparr>maze := (maze g)\<lparr>walls := w3\<rparr>\<rparr>)"

text \<open>initializeMaze up to (not including) its final call of floodFillToGoal.\<close>

definition initializeMaze_arrays :: "Maze \<Rightarrow> Maze" where
  "initializeMaze_arrays m =
     (let m1 = m\<lparr>distances := set_all (MAZE_WIDTH * MAZE_HEIGHT) (distances m),
                 visited := set_all False (visited m),
                 walls := set_all (\<lambda>dir. False) (walls m)\<rparr>;
          w2 = fold (\<lambda>x w. wall_write (wall_write w (x, 0) SOUTH True) (x, MAZE_HEIGHT - 1) NORTH True)
                 [0..MAZE_WIDTH - 1] (walls m1);
          w3 = fold (\<lambda>y w. wall_write (wall_write w (0, y) WEST True) (MAZE_WIDTH - 1, y) EAST True)
                 [0..MAZE_HEIGHT - 1] w2
      in m1\<lparr>walls := w3, visited := (visited m1)((0, 0) := True)\<rparr>)"

section \<open>Flood fill\<close>

text \<open>
  The BFS queue is a local array \<open>queue[MAZE_WIDTH * MAZE_HEIGHT]\<close> with the two
  indices \<open>qFront\<close>, \<open>qBack\<close> (ffv3.c: \<open>q_head\<close>, \<open>q_tail\<close>). A write
  \<open>queue[qBack]\<close> with \<open>qBack \<ge> 256\<close> is outside the array (undefined behaviour in C);
  the model returns \<open>QueueOverflow\<close> there. Likewise \<open>PathOverflow\<close> for a write behind
  the end of the path array. The entries of the queue that were never written are never read;
  they start as \<open>(0, 0)\<close>.
\<close>

datatype error = QueueOverflow | PathOverflow

record bfs_state =
  dist :: "cell \<Rightarrow> int"
  queue :: "nat \<Rightarrow> cell"
  qFront :: nat
  qBack :: nat

text \<open>\<open>queue[qBack] = c; qBack++\<close>\<close>

definition enqueue :: "cell \<Rightarrow> bfs_state \<Rightarrow> error + bfs_state" where
  "enqueue c s =
     (if qBack s < MAX_CELLS
      then Inr (s\<lparr>queue := (queue s)(qBack s := c), qBack := qBack s + 1\<rparr>)
      else Inl QueueOverflow)"

text \<open>A \<open>for (dir = 0; dir < 4; dir++)\<close> loop whose body can fail.\<close>

fun for_dirs :: "(Direction \<Rightarrow> 's \<Rightarrow> error + 's) \<Rightarrow> Direction list \<Rightarrow> 's \<Rightarrow> error + 's" where
  "for_dirs f [] s = Inr s"
| "for_dirs f (dir # dirs) s = (case f dir s of Inl e \<Rightarrow> Inl e | Inr s' \<Rightarrow> for_dirs f dirs s')"

subsection \<open>ff.c: floodFill, floodFillToGoal, floodFillToStart\<close>

text \<open>The body of the direction loop of floodFill, for the dequeued cell \<open>(x, y)\<close> with
  \<open>d = distances[x][y]\<close>.\<close>

definition relax :: "wallmap \<Rightarrow> cell \<Rightarrow> int \<Rightarrow> Direction \<Rightarrow> bfs_state \<Rightarrow> error + bfs_state" where
  "relax w c d dir s =
     (if w c dir then Inr s
      else
        let nx = fst c + dx dir; ny = snd c + dy dir
        in if nx < 0 \<or> nx \<ge> MAZE_WIDTH \<or> ny < 0 \<or> ny \<ge> MAZE_HEIGHT then Inr s
           else if dist s (nx, ny) > d + 1
                then enqueue (nx, ny) (s\<lparr>dist := (dist s)((nx, ny) := d + 1)\<rparr>)
                else Inr s)"

lemma enqueue_indices:
  "enqueue c s = Inr s' \<Longrightarrow> qFront s' = qFront s \<and> qBack s' = qBack s + 1 \<and> qBack s < MAX_CELLS"
  by (auto simp: enqueue_def split: if_splits)

lemma relax_indices:
  "relax w c d dir s = Inr s' \<Longrightarrow>
     qFront s' = qFront s \<and> qBack s \<le> qBack s' \<and> (qBack s < qBack s' \<longrightarrow> qBack s' \<le> MAX_CELLS)"
  by (auto simp: relax_def Let_def split: if_splits dest!: enqueue_indices)

lemma for_dirs_indices:
  assumes "\<And>dir s s'. f dir s = Inr s' \<Longrightarrow>
     qFront s' = qFront s \<and> qBack s \<le> qBack s' \<and> (qBack s < qBack s' \<longrightarrow> qBack s' \<le> MAX_CELLS)"
  shows "for_dirs f dirs s = Inr s' \<Longrightarrow>
     qFront s' = qFront s \<and> qBack s \<le> qBack s' \<and> (qBack s < qBack s' \<longrightarrow> qBack s' \<le> MAX_CELLS)"
proof (induction dirs arbitrary: s)
  case Nil
  then show ?case by simp
next
  case (Cons dir dirs)
  then obtain s1 where 1: "f dir s = Inr s1" and 2: "for_dirs f dirs s1 = Inr s'"
    by (auto split: sum.splits)
  from assms [OF 1] Cons.IH [OF 2] show ?case by auto
qed

function floodFill_loop :: "wallmap \<Rightarrow> bfs_state \<Rightarrow> error + bfs_state" where
  "floodFill_loop w s =
     (if qFront s < qBack s
      then
        let current = queue s (qFront s);
            s1 = s\<lparr>qFront := qFront s + 1\<rparr>;
            d = dist s1 current
        in case for_dirs (relax w current d) all_dirs s1 of
             Inl e \<Rightarrow> Inl e
           | Inr s2 \<Rightarrow> floodFill_loop w s2
      else Inr s)"
  by pat_completeness auto
termination
proof (relation "measures [\<lambda>(w, s). MAX_CELLS - qBack s, \<lambda>(w, s). qBack s - qFront s]", goal_cases)
  case 1
  show ?case by simp
next
  case (2 w s current s1 d s2)
  have "qFront s2 = qFront s1 \<and> qBack s1 \<le> qBack s2 \<and> (qBack s1 < qBack s2 \<longrightarrow> qBack s2 \<le> MAX_CELLS)"
    using 2(5) by (rule for_dirs_indices [rotated]) (erule relax_indices)
  with 2(1-3) show ?case by auto
qed

declare floodFill_loop.simps [simp del]

definition floodFill :: "Maze \<Rightarrow> int \<Rightarrow> int \<Rightarrow> error + Maze" where
  "floodFill m targetX targetY =
     (let d0 = set_all (MAZE_WIDTH * MAZE_HEIGHT) (distances m);
          s = \<lparr>dist = d0((targetX, targetY) := 0),
               queue = (\<lambda>i. (0, 0))(0 := (targetX, targetY)),
               qFront = 0, qBack = 1\<rparr>
      in case floodFill_loop (walls m) s of
           Inl e \<Rightarrow> Inl e
         | Inr s' \<Rightarrow> Inr (m\<lparr>distances := dist s'\<rparr>))"

text \<open>The goal cell that floodFillToGoal selects: the first of the four with the least
  Manhattan distance from the current position.\<close>

definition goal_target :: "int \<Rightarrow> int \<Rightarrow> cell" where
  "goal_target px py =
     (let goalDistances = [abs (px - GOAL_X1) + abs (py - GOAL_Y1),
                           abs (px - GOAL_X1) + abs (py - GOAL_Y2),
                           abs (px - GOAL_X2) + abs (py - GOAL_Y1),
                           abs (px - GOAL_X2) + abs (py - GOAL_Y2)];
          (minDist, minIdx) =
             fold (\<lambda>i (minDist, minIdx).
                     if goalDistances ! i < minDist then (goalDistances ! i, i) else (minDist, minIdx))
               [1, 2, 3] (goalDistances ! 0, 0 :: nat)
      in if minIdx = 0 then (GOAL_X1, GOAL_Y1)
         else if minIdx = 1 then (GOAL_X1, GOAL_Y2)
         else if minIdx = 2 then (GOAL_X2, GOAL_Y1)
         else (GOAL_X2, GOAL_Y2))"

definition floodFillToGoal :: "int \<Rightarrow> int \<Rightarrow> Maze \<Rightarrow> error + Maze" where
  "floodFillToGoal px py m = (case goal_target px py of (targetX, targetY) \<Rightarrow> floodFill m targetX targetY)"

definition floodFillToStart :: "Maze \<Rightarrow> error + Maze" where
  "floodFillToStart m = floodFill m 0 0"

subsection \<open>ff.c: floodFillToStartWithExploration\<close>

text \<open>\<open>minGoalDist\<close> after the loop over the four goal cells.\<close>

definition min_goal_dist :: "cell \<Rightarrow> int" where
  "min_goal_dist n =
     fold (\<lambda>dist minGoalDist. if dist < minGoalDist then dist else minGoalDist)
       [abs (fst n - GOAL_X1) + abs (snd n - GOAL_Y1),
        abs (fst n - GOAL_X1) + abs (snd n - GOAL_Y2),
        abs (fst n - GOAL_X2) + abs (snd n - GOAL_Y1),
        abs (fst n - GOAL_X2) + abs (snd n - GOAL_Y2)]
       (MAZE_WIDTH + MAZE_HEIGHT)"

text \<open>
  The body of the direction loop. \<open>MAZE_WIDTH + MAZE_HEIGHT - minGoalDist\<close> is never
  negative, so the C division by 2 is \<open>div\<close>.
\<close>

definition relax_explore :: "Maze \<Rightarrow> cell \<Rightarrow> int \<Rightarrow> Direction \<Rightarrow> bfs_state \<Rightarrow> error + bfs_state" where
  "relax_explore m c d dir s =
     (if walls m c dir then Inr s
      else
        let nx = fst c + dx dir; ny = snd c + dy dir
        in if nx < 0 \<or> nx \<ge> MAZE_WIDTH \<or> ny < 0 \<or> ny \<ge> MAZE_HEIGHT then Inr s
           else
             let explorationWeight = (if \<not> visited m (nx, ny) then 2 else 0);
                 goalProximity = (if \<not> visited m (nx, ny)
                                  then (MAZE_WIDTH + MAZE_HEIGHT - min_goal_dist (nx, ny)) div 2
                                  else 0);
                 effectiveDistance = d + 1 - explorationWeight - goalProximity
             in if dist s (nx, ny) > effectiveDistance
                then enqueue (nx, ny) (s\<lparr>dist := (dist s)((nx, ny) := effectiveDistance)\<rparr>)
                else Inr s)"

lemma relax_explore_indices:
  "relax_explore m c d dir s = Inr s' \<Longrightarrow>
     qFront s' = qFront s \<and> qBack s \<le> qBack s' \<and> (qBack s < qBack s' \<longrightarrow> qBack s' \<le> MAX_CELLS)"
  by (auto simp: relax_explore_def Let_def split: if_splits dest!: enqueue_indices)

function explore_loop :: "Maze \<Rightarrow> bfs_state \<Rightarrow> error + bfs_state" where
  "explore_loop m s =
     (if qFront s < qBack s
      then
        let current = queue s (qFront s);
            s1 = s\<lparr>qFront := qFront s + 1\<rparr>;
            d = dist s1 current
        in case for_dirs (relax_explore m current d) all_dirs s1 of
             Inl e \<Rightarrow> Inl e
           | Inr s2 \<Rightarrow> explore_loop m s2
      else Inr s)"
  by pat_completeness auto
termination
proof (relation "measures [\<lambda>(m, s). MAX_CELLS - qBack s, \<lambda>(m, s). qBack s - qFront s]", goal_cases)
  case 1
  show ?case by simp
next
  case (2 m s current s1 d s2)
  have "qFront s2 = qFront s1 \<and> qBack s1 \<le> qBack s2 \<and> (qBack s1 < qBack s2 \<longrightarrow> qBack s2 \<le> MAX_CELLS)"
    using 2(5) by (rule for_dirs_indices [rotated]) (erule relax_explore_indices)
  with 2(1-3) show ?case by auto
qed

declare explore_loop.simps [simp del]

definition floodFillToStartWithExploration :: "Maze \<Rightarrow> error + Maze" where
  "floodFillToStartWithExploration m =
     (let d0 = set_all (MAZE_WIDTH * MAZE_HEIGHT) (distances m);
          s = \<lparr>dist = d0((0, 0) := 0), queue = (\<lambda>i. (0, 0))(0 := (0, 0)), qFront = 0, qBack = 1\<rparr>
      in case explore_loop m s of
           Inl e \<Rightarrow> Inl e
         | Inr s' \<Rightarrow>
             let minDist = fold (\<lambda>c minDist. if dist s' c < minDist then dist s' c else minDist)
                             all_cells 0
             in Inr (m\<lparr>distances :=
                        (if minDist < 0
                         then fold (\<lambda>c ds. ds(c := ds c - minDist)) all_cells (dist s')
                         else dist s')\<rparr>))"

subsection \<open>ffv3.c: flood_fill, flood_fill_goal, flood_fill_start\<close>

definition relax_v3 :: "Maze \<Rightarrow> cell \<Rightarrow> int \<Rightarrow> Direction \<Rightarrow> bfs_state \<Rightarrow> error + bfs_state" where
  "relax_v3 m current current_dist dir s =
     (if has_wall m current dir then Inr s
      else
        let neighbor = (fst current + dx dir, snd current + dy dir)
        in if is_within_bounds neighbor \<and> dist s neighbor > current_dist + 1
           then enqueue neighbor (s\<lparr>dist := (dist s)(neighbor := current_dist + 1)\<rparr>)
           else Inr s)"

lemma relax_v3_indices:
  "relax_v3 m c d dir s = Inr s' \<Longrightarrow>
     qFront s' = qFront s \<and> qBack s \<le> qBack s' \<and> (qBack s < qBack s' \<longrightarrow> qBack s' \<le> MAX_CELLS)"
  by (auto simp: relax_v3_def Let_def split: if_splits dest!: enqueue_indices)

text \<open>The loop \<open>while (q_head < q_tail)\<close>, the same in flood_fill and flood_fill_goal.\<close>

function flood_fill_loop :: "Maze \<Rightarrow> bfs_state \<Rightarrow> error + bfs_state" where
  "flood_fill_loop m s =
     (if qFront s < qBack s
      then
        let current = queue s (qFront s);
            s1 = s\<lparr>qFront := qFront s + 1\<rparr>;
            current_dist = dist s1 current
        in case for_dirs (relax_v3 m current current_dist) all_dirs s1 of
             Inl e \<Rightarrow> Inl e
           | Inr s2 \<Rightarrow> flood_fill_loop m s2
      else Inr s)"
  by pat_completeness auto
termination
proof (relation "measures [\<lambda>(m, s). MAX_CELLS - qBack s, \<lambda>(m, s). qBack s - qFront s]", goal_cases)
  case 1
  show ?case by simp
next
  case (2 m s current s1 d s2)
  have "qFront s2 = qFront s1 \<and> qBack s1 \<le> qBack s2 \<and> (qBack s1 < qBack s2 \<longrightarrow> qBack s2 \<le> MAX_CELLS)"
    using 2(5) by (rule for_dirs_indices [rotated]) (erule relax_v3_indices)
  with 2(1-3) show ?case by auto
qed

declare flood_fill_loop.simps [simp del]

text \<open>flood_fill logs an error and returns when the target is outside the grid.\<close>

definition flood_fill :: "Maze \<Rightarrow> cell \<Rightarrow> error + Maze" where
  "flood_fill m target =
     (let m0 = m\<lparr>distances := set_all INVALID_DISTANCE (distances m)\<rparr>
      in if is_within_bounds target
         then
           let s = \<lparr>dist = (distances m0)(target := 0),
                    queue = (\<lambda>i. (0, 0))(0 := target),
                    qFront = 0, qBack = 1\<rparr>
           in case flood_fill_loop m0 s of
                Inl e \<Rightarrow> Inl e
              | Inr s' \<Rightarrow> Inr (m0\<lparr>distances := dist s'\<rparr>)
         else Inr m0)"

text \<open>The goal cells in the order of the seeding loops \<open>for x: for y:\<close>.\<close>

definition goal_cells :: "cell list" where
  "goal_cells = concat (map (\<lambda>x. map (\<lambda>y. (x, y)) [GOAL_Y1..GOAL_Y2]) [GOAL_X1..GOAL_X2])"

definition seed :: "cell \<Rightarrow> bfs_state \<Rightarrow> bfs_state" where
  "seed goal_cell s =
     (if is_within_bounds goal_cell
      then s\<lparr>dist := (dist s)(goal_cell := 0),
             queue := (queue s)(qBack s := goal_cell),
             qBack := qBack s + 1\<rparr>
      else s)"

definition flood_fill_goal :: "Maze \<Rightarrow> error + Maze" where
  "flood_fill_goal m =
     (let m0 = m\<lparr>distances := set_all INVALID_DISTANCE (distances m)\<rparr>;
          s = fold seed goal_cells
                \<lparr>dist = distances m0, queue = (\<lambda>i. (0, 0)), qFront = 0, qBack = 0\<rparr>
      in if qBack s = 0 then Inr m0
         else case flood_fill_loop m0 s of
                Inl e \<Rightarrow> Inl e
              | Inr s' \<Rightarrow> Inr (m0\<lparr>distances := dist s'\<rparr>))"

definition flood_fill_start :: "Maze \<Rightarrow> error + Maze" where
  "flood_fill_start m = flood_fill m (0, 0)"

subsection \<open>Open-edge paths\<close>

text \<open>
  \<open>hops w k a b\<close>: the cell \<open>b\<close> is reached from the cell \<open>a\<close> over \<open>k\<close> edges, each
  between two cells of the grid and without a wall recorded on the side it is left from.
\<close>

inductive hops :: "wallmap \<Rightarrow> nat \<Rightarrow> cell \<Rightarrow> cell \<Rightarrow> bool" for w :: wallmap where
  hops_0: "is_within_bounds a \<Longrightarrow> hops w 0 a a"
| hops_Suc: "hops w k a b \<Longrightarrow> \<not> w b dir \<Longrightarrow> is_within_bounds (neighbor b dir) \<Longrightarrow>
             hops w (Suc k) a (neighbor b dir)"

section \<open>Navigation\<close>

text \<open>
  The calls a navigation function makes to the robot interface, in order, together with the
  messages it logs with a literal string (messages formatted with \<open>sprintf\<close> are not
  recorded). The result of \<open>API_moveForward()\<close> is an input of the model.
\<close>

datatype api_call = API_turnRight | API_turnLeft | API_moveForward | Log string

subsection \<open>ffv3.c: choose_next_direction, turn_to_direction, move_forward_update_state\<close>

text \<open>The body of the direction loop of choose_next_direction on
  \<open>(min_dist, best_dir, found_move)\<close>.\<close>

definition choose_step :: "MouseState \<Rightarrow> Maze \<Rightarrow> Direction \<Rightarrow> int \<times> Direction \<times> bool \<Rightarrow> int \<times> Direction \<times> bool" where
  "choose_step ms m dir acc =
     (case acc of (min_dist, best_dir, found_move) \<Rightarrow>
        if has_wall m (pos ms) dir then acc
        else
          let nb = (fst (pos ms) + dx dir, snd (pos ms) + dy dir)
          in if \<not> is_within_bounds nb then acc
             else
               let neighbor_dist = distances m nb;
                   adjusted_dist = (if mode ms = SEARCH_MODE \<and> \<not> visited m nb
                                    then neighbor_dist - 1 else neighbor_dist)
               in if adjusted_dist < min_dist then (adjusted_dist, dir, True) else acc)"

definition choose_next_direction :: "MouseState \<Rightarrow> Maze \<Rightarrow> Direction \<times> api_call list" where
  "choose_next_direction ms m =
     (case fold (choose_step ms m) all_dirs (INVALID_DISTANCE + 10, NORTH, False) of
        (min_dist, best_dir, found_move) \<Rightarrow>
          if \<not> found_move
          then (get_opposite_direction (orientation ms), [Log ''ERROR: No valid move found! Stuck?''])
          else (best_dir, []))"

definition turn_to_direction :: "MouseState \<Rightarrow> Direction \<Rightarrow> MouseState \<times> api_call list" where
  "turn_to_direction ms target_dir =
     (if orientation ms = target_dir then (ms, [])
      else
        let diff = (dir_index target_dir + 4 - dir_index (orientation ms)) mod 4
        in if diff = 1
           then (ms\<lparr>orientation := dir_plus (orientation ms) 1\<rparr>,
                 [Log ''Turning right'', API_turnRight])
           else if diff = 3
           then (ms\<lparr>orientation := dir_plus (orientation ms) 3\<rparr>,
                 [Log ''Turning left'', API_turnLeft])
           else (ms\<lparr>orientation := dir_plus (dir_plus (orientation ms) 1) 1\<rparr>,
                 [Log ''Turning around (two rights)'', API_turnRight, API_turnRight]))"

definition move_forward_update_state ::
    "bool \<Rightarrow> MouseState \<Rightarrow> Maze \<Rightarrow> error + (MouseState \<times> Maze \<times> api_call list)" where
  "move_forward_update_state moved ms m =
     (case choose_next_direction ms m of (next_dir, tr1) \<Rightarrow>
      case turn_to_direction ms next_dir of (ms1, tr2) \<Rightarrow>
        let tr = tr1 @ tr2 @ [Log ''Moving forward'', API_moveForward]
        in if moved
           then Inr (ms1\<lparr>pos := (fst (pos ms1) + dx (orientation ms1),
                                 snd (pos ms1) + dy (orientation ms1))\<rparr>, m, tr)
           else
             let tr' = tr @ [Log ''WARN: Move failed - unexpected wall detected!''];
                 m1 = set_wall m (pos ms1) (orientation ms1)
             in if mode ms1 = SEARCH_MODE
                then (case flood_fill_goal m1 of
                        Inl e \<Rightarrow> Inl e
                      | Inr m2 \<Rightarrow>
                          Inr (ms1, m2, tr' @ [Log ''Recalculating distances to goal due to new wall.'']))
                else if mode ms1 = RETURN_MODE
                then (case flood_fill_start m1 of
                        Inl e \<Rightarrow> Inl e
                      | Inr m2 \<Rightarrow>
                          Inr (ms1, m2, tr' @ [Log ''Recalculating distances to start due to new wall.'']))
                else Inr (ms1, m1, tr'))"

subsection \<open>ff.c: moveToNextCell\<close>

text \<open>\<open>bonus[dir]\<close> after the first loop of moveToNextCell.\<close>

definition bonus :: "Globals \<Rightarrow> Direction \<Rightarrow> int" where
  "bonus g dir =
     (if currentMode g = SEARCH_MODE
      then
        if walls (maze g) (posX g, posY g) dir then 0
        else
          let nx = posX g + dx dir; ny = posY g + dy dir
          in if nx < 0 \<or> nx \<ge> MAZE_WIDTH \<or> ny < 0 \<or> ny \<ge> MAZE_HEIGHT then 0
             else if \<not> visited (maze g) (nx, ny) then 1 else 0
      else 0)"

text \<open>The body of the second loop on \<open>(minDist, minDir)\<close>; \<open>minDir = -1\<close> is \<open>None\<close>.\<close>

definition select_step :: "Globals \<Rightarrow> Direction \<Rightarrow> int \<times> Direction option \<Rightarrow> int \<times> Direction option" where
  "select_step g dir acc =
     (case acc of (minDist, minDir) \<Rightarrow>
        if walls (maze g) (posX g, posY g) dir then acc
        else
          let nx = posX g + dx dir; ny = posY g + dy dir
          in if nx < 0 \<or> nx \<ge> MAZE_WIDTH \<or> ny < 0 \<or> ny \<ge> MAZE_HEIGHT then acc
             else
               let adjustedDist = distances (maze g) (nx, ny) - bonus g dir
               in if adjustedDist < minDist then (adjustedDist, Some dir) else acc)"

text \<open>The loop \<open>while (direction != minDir)\<close>.\<close>

function turn_loop :: "Direction \<Rightarrow> Direction \<Rightarrow> Direction \<times> api_call list" where
  "turn_loop dir minDir =
     (if dir \<noteq> minDir
      then
        let diff = (dir_index minDir + 4 - dir_index dir) mod 4
        in if diff = 1
           then (case turn_loop (dir_plus dir 1) minDir of (d, tr) \<Rightarrow> (d, API_turnRight # tr))
           else if diff = 3
           then (case turn_loop (dir_plus dir 3) minDir of (d, tr) \<Rightarrow> (d, API_turnLeft # tr))
           else (case turn_loop (dir_plus (dir_plus dir 1) 1) minDir of
                   (d, tr) \<Rightarrow> (d, API_turnRight # API_turnRight # tr))
      else (dir, []))"
  by pat_completeness auto
termination
proof (relation "measure (\<lambda>(dir, minDir). (dir_index minDir + 4 - dir_index dir) mod 4)", goal_cases)
  case 1
  show ?case by simp
next
  case (2 dir minDir diff)
  then show ?case by (cases dir; cases minDir; simp add: dir_plus_def index_dir_def)
next
  case (3 dir minDir diff)
  then show ?case by (cases dir; cases minDir; simp add: dir_plus_def index_dir_def)
next
  case (4 dir minDir diff)
  then show ?case by (cases dir; cases minDir; simp add: dir_plus_def index_dir_def)
qed

declare turn_loop.simps [simp del]

definition moveToNextCell :: "bool \<Rightarrow> Globals \<Rightarrow> error + (Globals \<times> api_call list)" where
  "moveToNextCell moved g =
     (case fold (select_step g) all_dirs (MAZE_WIDTH * MAZE_HEIGHT, None) of (minDist, minDir) \<Rightarrow>
      case minDir of
        None \<Rightarrow> Inr (g, [Log ''=== ERROR: no valid direction found! ===''])
      | Some md \<Rightarrow>
          (case turn_loop (direction g) md of (d, tr) \<Rightarrow>
             let g1 = g\<lparr>direction := d\<rparr>
             in if moved
                then Inr (g1\<lparr>posX := posX g1 + dx (direction g1),
                             posY := posY g1 + dy (direction g1)\<rparr>, tr @ [API_moveForward])
                else
                  let g2 = g1\<lparr>maze := (maze g1)\<lparr>walls :=
                             write_edge (walls (maze g1)) (posX g1, posY g1) (direction g1) True\<rparr>\<rparr>
                  in if currentMode g2 = SEARCH_MODE
                     then (case floodFillToGoal (posX g2) (posY g2) (maze g2) of
                             Inl e \<Rightarrow> Inl e
                           | Inr m' \<Rightarrow> Inr (g2\<lparr>maze := m'\<rparr>, tr @ [API_moveForward]))
                     else if currentMode g2 = RETURN_MODE
                     then (case floodFillToStart (maze g2) of
                             Inl e \<Rightarrow> Inl e
                           | Inr m' \<Rightarrow> Inr (g2\<lparr>maze := m'\<rparr>, tr @ [API_moveForward]))
                     else Inr (g2, tr @ [API_moveForward])))"

section \<open>Path planning\<close>

text \<open>The first direction, in the order of the enum, that leads from \<open>a\<close> to \<open>b\<close>
  (the loops that search \<open>moveDir\<close> and break at the first hit).\<close>

definition find_dir :: "cell \<Rightarrow> cell \<Rightarrow> Direction option" where
  "find_dir a b = find (\<lambda>dir. fst a + dx dir = fst b \<and> snd a + dy dir = snd b) all_dirs"

subsection \<open>ffv3.c: compute_shortest_path, verify_path_exploration\<close>

text \<open>The body of the direction loop of compute_shortest_path on
  \<open>(min_dist, best_dir, found_next)\<close>.\<close>

definition path_step_v3 :: "Maze \<Rightarrow> cell \<Rightarrow> Direction \<Rightarrow> int \<times> Direction \<times> bool \<Rightarrow> int \<times> Direction \<times> bool" where
  "path_step_v3 m current_pos dir acc =
     (case acc of (min_dist, best_dir, found_next) \<Rightarrow>
        if has_wall m current_pos dir then acc
        else
          let nb = (fst current_pos + dx dir, snd current_pos + dy dir)
          in if is_within_bounds nb \<and> distances m nb < min_dist
             then (distances m nb, dir, True) else acc)"

text \<open>The loop \<open>while (!is_at_goal(current_pos))\<close>; the result is the path array, the
  path length and the literal messages logged.\<close>

function trace_path :: "Maze \<Rightarrow> cell \<Rightarrow> (nat \<Rightarrow> cell) \<Rightarrow> nat \<Rightarrow> (nat \<Rightarrow> cell) \<times> nat \<times> api_call list" where
  "trace_path m current_pos sp len =
     (if \<not> is_at_goal current_pos
      then
        (case fold (path_step_v3 m current_pos) all_dirs (distances m current_pos, NORTH, False) of
           (min_dist, best_dir, found_next) \<Rightarrow>
             if \<not> found_next
             then (sp, 0, [Log ''ERROR: Could not find next step while computing shortest path! Path broken?''])
             else
               let next_pos = (fst current_pos + dx best_dir, snd current_pos + dy best_dir)
               in if len < MAX_CELLS
                  then trace_path m next_pos (sp(len := next_pos)) (len + 1)
                  else (sp, 0, [Log ''ERROR: Shortest path exceeds maximum length!'']))
      else (sp, len, []))"
  by pat_completeness auto
termination
  by (relation "measure (\<lambda>(m, c, sp, len). MAX_CELLS - len)") auto

declare trace_path.simps [simp del]

definition compute_shortest_path :: "MouseState \<Rightarrow> Maze \<Rightarrow> error + (MouseState \<times> Maze \<times> api_call list)" where
  "compute_shortest_path ms m =
     (case flood_fill_goal m of
        Inl e \<Rightarrow> Inl e
      | Inr m1 \<Rightarrow>
          if distances m1 (0, 0) = INVALID_DISTANCE
          then Inr (ms\<lparr>path_length := 0\<rparr>, m1,
                    [Log ''Computing shortest path from start to goal...'',
                     Log ''ERROR: Start cell is unreachable from goal!''])
          else
            (case trace_path m1 (0, 0) ((shortest_path ms)(0 := (0, 0))) 1 of
               (sp, len, lg) \<Rightarrow>
                 Inr (ms\<lparr>shortest_path := sp, path_length := len\<rparr>, m1,
                      Log ''Computing shortest path from start to goal...'' # lg)))"

text \<open>The cells of the computed path, \<open>shortest_path[0 .. path_length - 1]\<close>.\<close>

definition path_cells :: "MouseState \<Rightarrow> cell list" where
  "path_cells ms = map (shortest_path ms) [0..<path_length ms]"

text \<open>The loop of verify_path_exploration over the indices \<open>i\<close>; \<open>False\<close> is an early
  \<open>return false\<close>.\<close>

fun verify_cells :: "MouseState \<Rightarrow> Maze \<Rightarrow> nat list \<Rightarrow> bool" where
  "verify_cells ms m [] = True"
| "verify_cells ms m (i # is) =
     (let p = shortest_path ms i
      in if \<not> is_within_bounds p then False
         else if \<not> visited m p then False
         else if i > 0 \<and>
                 (let prev_p = shortest_path ms (i - 1)
                  in case find_dir prev_p p of None \<Rightarrow> True | Some move_dir \<Rightarrow> has_wall m prev_p move_dir)
         then False
         else verify_cells ms m is)"

definition verify_path_exploration :: "MouseState \<Rightarrow> Maze \<Rightarrow> bool \<times> api_call list" where
  "verify_path_exploration ms m =
     (if path_length ms \<le> 1
      then (False, [Log ''Path verification: Path is too short or invalid.''])
      else if verify_cells ms m [0..<path_length ms]
      then (True, [Log ''Verifying path exploration...'',
                   Log ''Path verification PASSED: Path is fully explored.''])
      else (False, [Log ''Verifying path exploration...'']))"

text \<open>
  The branch of \<open>main\<close> for RETURN_MODE with the mouse at the start: the body of
  \<open>if (is_at_start(mouse.pos))\<close>, with the sensor readings of update_walls_current_cell as
  input.
\<close>

definition return_at_start :: "sensors \<Rightarrow> MouseState \<Rightarrow> Maze \<Rightarrow> error + (MouseState \<times> Maze \<times> api_call list)" where
  "return_at_start sn ms m =
     (let lg0 = [Log ''=== Back at start! Preparing for speed run ===''];
          m1 = update_walls_current_cell sn ms m
      in case compute_shortest_path ms m1 of
           Inl e \<Rightarrow> Inl e
         | Inr (ms2, m2, lg1) \<Rightarrow>
             if path_length ms2 > 0
             then
               (case verify_path_exploration ms2 m2 of (ok, lg2) \<Rightarrow>
                  if ok
                  then Inr (ms2\<lparr>mode := SPEED_MODE\<rparr>, m2,
                            lg0 @ lg1 @ lg2 @ [Log ''=== Path verified! Switching to SPEED_MODE ===''])
                  else
                    let target_unvisited =
                          (case find (\<lambda>p. \<not> visited m2 p) (path_cells ms2) of
                             None \<Rightarrow> pos ms2 | Some p \<Rightarrow> p)
                    in case flood_fill m2 target_unvisited of
                         Inl e \<Rightarrow> Inl e
                       | Inr m3 \<Rightarrow>
                           Inr (ms2\<lparr>mode := SEARCH_MODE\<rparr>, m3,
                                lg0 @ lg1 @ lg2 @
                                [Log ''=== Path requires exploration! Returning to SEARCH_MODE ==='']))
             else
               (case flood_fill_goal m2 of
                  Inl e \<Rightarrow> Inl e
                | Inr m3 \<Rightarrow>
                    Inr (ms2\<lparr>mode := SEARCH_MODE\<rparr>, m3,
                         lg0 @ lg1 @
                         [Log ''ERROR: No path computed after returning to start. Cannot proceed.'',
                          Log ''Attempting to re-initiate search from start.''])))"

subsection \<open>ff.c: computeShortestPath, verifyShortestPath and the return to the start\<close>

text \<open>The body of the direction loop of computeShortestPath on \<open>minDist\<close> and
  \<open>(nextX, nextY)\<close>; \<open>nextX = -1\<close> is \<open>None\<close>.\<close>

definition path_step :: "Maze \<Rightarrow> cell \<Rightarrow> Direction \<Rightarrow> int \<times> cell option \<Rightarrow> int \<times> cell option" where
  "path_step m c dir acc =
     (case acc of (minDist, nxt) \<Rightarrow>
        if walls m c dir then acc
        else
          let nx = fst c + dx dir; ny = snd c + dy dir
          in if nx < 0 \<or> nx \<ge> MAZE_WIDTH \<or> ny < 0 \<or> ny \<ge> MAZE_HEIGHT then acc
             else if distances m (nx, ny) < minDist then (distances m (nx, ny), Some (nx, ny))
             else acc)"

text \<open>The while loop of computeShortestPath. \<open>fastestPath\<close> has \<open>MAZE_WIDTH * MAZE_HEIGHT\<close>
  entries; a write behind them is \<open>PathOverflow\<close>.\<close>

function walk :: "Maze \<Rightarrow> cell \<Rightarrow> (nat \<Rightarrow> cell) \<Rightarrow> nat \<Rightarrow> error + ((nat \<Rightarrow> cell) \<times> nat \<times> api_call list)" where
  "walk m c fp len =
     (if \<not> ((fst c = GOAL_X1 \<or> fst c = GOAL_X2) \<and> (snd c = GOAL_Y1 \<or> snd c = GOAL_Y2))
      then
        (case fold (path_step m c) all_dirs (MAZE_WIDTH * MAZE_HEIGHT, None) of
           (minDist, nxt) \<Rightarrow>
             (case nxt of
                None \<Rightarrow> Inr (fp, len, [Log ''ERROR: Failed to compute shortest path!''])
              | Some n \<Rightarrow>
                  if len < MAX_CELLS then walk m n (fp(len := n)) (len + 1)
                  else Inl PathOverflow))
      else Inr (fp, len, []))"
  by pat_completeness auto
termination
  by (relation "measure (\<lambda>(m, c, fp, len). MAX_CELLS - len)") auto

declare walk.simps [simp del]

definition computeShortestPath :: "Globals \<Rightarrow> error + (Globals \<times> api_call list)" where
  "computeShortestPath g =
     (case floodFillToGoal (posX g) (posY g) (maze g) of
        Inl e \<Rightarrow> Inl e
      | Inr m1 \<Rightarrow>
          (case walk m1 (0, 0) ((fastestPath g)(0 := (0, 0))) 1 of
             Inl e \<Rightarrow> Inl e
           | Inr (fp, len, lg) \<Rightarrow>
               Inr (g\<lparr>maze := m1, fastestPath := fp, pathLength := len\<rparr>,
                    Log ''Computing shortest path from start to goal'' # lg)))"

text \<open>The loop of verifyShortestPath from the cell \<open>(x, y)\<close> over the remaining path cells;
  \<open>False\<close> is an early return after an error message.\<close>

fun verify_steps :: "Maze \<Rightarrow> cell \<Rightarrow> cell list \<Rightarrow> bool" where
  "verify_steps m c [] = True"
| "verify_steps m c (target # targets) =
     (case find_dir c target of
        None \<Rightarrow> False
      | Some moveDir \<Rightarrow> if walls m c moveDir then False else verify_steps m target targets)"

text \<open>verifyShortestPath returns nothing; its effect is the messages it logs.\<close>

definition verifyShortestPath :: "Globals \<Rightarrow> api_call list" where
  "verifyShortestPath g =
     Log ''Verifying shortest path for consistency...'' #
     (if verify_steps (maze g) (0, 0) (map (fastestPath g) [1..<pathLength g])
      then [Log ''Path verification successful. No obstacles detected.''] else [])"

text \<open>criticalPathsExplored: the flood fill toward the goal and the count of unvisited
  candidate cells.\<close>

definition is_candidate :: "Maze \<Rightarrow> int \<Rightarrow> cell \<Rightarrow> bool" where
  "is_candidate m shortestPathLength c =
     (distances m c \<le> shortestPathLength \<and>
      (case find (\<lambda>dir. \<not> walls m c dir \<and>
                        \<not> (fst c + dx dir < 0 \<or> fst c + dx dir \<ge> MAZE_WIDTH \<or>
                           snd c + dy dir < 0 \<or> snd c + dy dir \<ge> MAZE_HEIGHT) \<and>
                        distances m (fst c + dx dir, snd c + dy dir) = distances m c - 1 \<and>
                        \<not> visited m c) all_dirs of
         None \<Rightarrow> False | Some dir \<Rightarrow> True))"

definition criticalPathsExplored :: "Globals \<Rightarrow> error + (bool \<times> Globals)" where
  "criticalPathsExplored g =
     (case floodFillToGoal (posX g) (posY g) (maze g) of
        Inl e \<Rightarrow> Inl e
      | Inr m1 \<Rightarrow>
          let shortestPathLength = distances m1 (0, 0);
              unvisitedInPath = length (filter (is_candidate m1 shortestPathLength) all_cells)
          in Inr (unvisitedInPath = 0, g\<lparr>maze := m1\<rparr>))"

definition recomputePathIfNeeded :: "sensors \<Rightarrow> Globals \<Rightarrow> error + (Globals \<times> api_call list)" where
  "recomputePathIfNeeded sn g =
     (let g1 = updateWalls sn g;
          needsRecompute =
            (pathLength g1 > 1 \<and>
             (case find_dir (posX g1, posY g1) (fastestPath g1 1) of
                None \<Rightarrow> False
              | Some moveDir \<Rightarrow> walls (maze g1) (posX g1, posY g1) moveDir))
      in if needsRecompute
         then
           (case floodFillToGoal (posX g1) (posY g1) (maze g1) of
              Inl e \<Rightarrow> Inl e
            | Inr m2 \<Rightarrow>
                (case computeShortestPath (g1\<lparr>maze := m2\<rparr>) of
                   Inl e \<Rightarrow> Inl e
                 | Inr (g3, lg) \<Rightarrow>
                     Inr (g3, Log ''Path conflicted with detected walls - recomputing path'' # lg @
                              verifyShortestPath g3)))
         else Inr (g1, []))"

text \<open>The loop \<open>while (direction != NORTH)\<close> of prepareForSpeedRun.\<close>

function turn_north :: "Direction \<Rightarrow> Direction \<times> api_call list" where
  "turn_north dir =
     (if dir \<noteq> NORTH
      then (case turn_north (dir_plus dir 1) of (d, tr) \<Rightarrow> (d, API_turnRight # tr))
      else (dir, []))"
  by pat_completeness auto
termination
proof (relation "measure (\<lambda>dir. (4 - dir_index dir) mod 4)", goal_cases)
  case 1
  show ?case by simp
next
  case (2 dir)
  then show ?case by (cases dir) (simp_all add: dir_plus_def index_dir_def)
qed

declare turn_north.simps [simp del]

text \<open>prepareForSpeedRun with the readings of its two sensor sweeps as inputs. The reset
  poll changes no state of the program; the display calls are output only.\<close>

definition prepareForSpeedRun :: "sensors \<Rightarrow> sensors \<Rightarrow> Globals \<Rightarrow> error + (Globals \<times> api_call list)" where
  "prepareForSpeedRun sn1 sn2 g =
     (if posX g \<noteq> 0 \<or> posY g \<noteq> 0
      then Inr (g, [Log ''Preparing for speed run'', Log ''ERROR: Not at start position for speed run!''])
      else
        (case turn_north (direction g) of (d, tr) \<Rightarrow>
           let g1 = updateWalls sn1 (g\<lparr>direction := d\<rparr>)
           in case recomputePathIfNeeded sn2 g1 of
                Inl e \<Rightarrow> Inl e
              | Inr (g2, lg) \<Rightarrow>
                  Inr (g2, Log ''Preparing for speed run'' # tr @ lg @ [Log ''First steps of speed run:''])))"

text \<open>
  The branch of \<open>main\<close> for RETURN_MODE with the mouse at the start: the body of
  \<open>if (isAtStart())\<close>. getMazeCoverage only feeds a formatted message.
\<close>

definition return_at_start_ff :: "sensors \<Rightarrow> sensors \<Rightarrow> Globals \<Rightarrow> error + (Globals \<times> api_call list)" where
  "return_at_start_ff sn1 sn2 g =
     (case computeShortestPath g of
        Inl e \<Rightarrow> Inl e
      | Inr (g1, lg1) \<Rightarrow>
          let lg2 = verifyShortestPath g1
          in case criticalPathsExplored g1 of
               Inl e \<Rightarrow> Inl e
             | Inr (explored, g2) \<Rightarrow>
                 let lg3 = (if \<not> explored
                            then [Log ''WARNING: Some potential shortest paths may not be fully explored'',
                                  Log ''Testing path viability with extra verification...'']
                            else [])
                 in case prepareForSpeedRun sn1 sn2 g2 of
                      Inl e \<Rightarrow> Inl e
                    | Inr (g3, lg4) \<Rightarrow>
                        Inr (g3\<lparr>currentMode := SPEED_MODE\<rparr>,
                             Log ''=== Back at start! Computing shortest path ==='' #
                             lg1 @ lg2 @ lg3 @ lg4))"

subsection \<open>ff.c: moveToNextCellReturn\<close>

text \<open>
  \<open>visitedCount\<close> after the loops of getMazeCoverage. The function returns the float
  \<open>(float)visitedCount / 256\<close>, an exact quotient, so the test \<open>coverage > 0.75\<close> holds
  exactly when \<open>4 * visitedCount > 3 * 256\<close>.
\<close>

definition visitedCount :: "Maze \<Rightarrow> nat" where
  "visitedCount m = length (filter (visited m) all_cells)"

text \<open>The body of the direction loop of moveToNextCellReturn on \<open>(minDist, minDir)\<close>.\<close>

definition return_step :: "Globals \<Rightarrow> Direction \<Rightarrow> int \<times> Direction option \<Rightarrow> int \<times> Direction option" where
  "return_step g dir acc =
     (case acc of (minDist, minDir) \<Rightarrow>
        if walls (maze g) (posX g, posY g) dir then acc
        else
          let nx = posX g + dx dir; ny = posY g + dy dir
          in if nx < 0 \<or> nx \<ge> MAZE_WIDTH \<or> ny < 0 \<or> ny \<ge> MAZE_HEIGHT then acc
             else if distances (maze g) (nx, ny) < minDist
                  then (distances (maze g) (nx, ny), Some dir) else acc)"

text \<open>
  The first part of moveToNextCellReturn, up to the flood fill it chooses. The static flag
  \<open>justReachedGoal\<close> of the function and the sensor readings of its call of updateWalls are
  inputs. \<open>criticalPathsExplored()\<close> runs only when the coverage test fails, and the test of
  the position only when both fail.
\<close>

definition return_flood :: "bool \<Rightarrow> sensors \<Rightarrow> Globals \<Rightarrow> error + (Globals \<times> api_call list)" where
  "return_flood justReachedGoal sn g =
     (let g1 = (if justReachedGoal then updateWalls sn g else g);
          lg1 = (if justReachedGoal
                 then [Log ''First move after reaching goal - updating wall knowledge''] else [])
      in case (if 4 * int (visitedCount (maze g1)) > 3 * (MAZE_WIDTH * MAZE_HEIGHT)
               then Inr (True, g1)
               else case criticalPathsExplored g1 of
                      Inl e \<Rightarrow> Inl e
                    | Inr (explored, g2) \<Rightarrow> Inr (explored \<or> posX g2 = 0 \<and> posY g2 = 0, g2)) of
           Inl e \<Rightarrow> Inl e
         | Inr (direct, g2) \<Rightarrow>
             if direct
             then
               let g3 = (if \<not> explorePhaseComplete g2 then g2\<lparr>explorePhaseComplete := True\<rparr> else g2);
                   lg2 = (if \<not> explorePhaseComplete g2
                          then [Log ''Exploration phase complete, returning directly to start'']
                          else [])
               in case floodFillToStart (maze g3) of
                    Inl e \<Rightarrow> Inl e
                  | Inr m' \<Rightarrow> Inr (g3\<lparr>maze := m'\<rparr>, lg1 @ lg2)
             else
               (case floodFillToStartWithExploration (maze g2) of
                  Inl e \<Rightarrow> Inl e
                | Inr m' \<Rightarrow> Inr (g2\<lparr>maze := m'\<rparr>, lg1)))"

text \<open>The second part: the choice of the direction, the turn and the move; \<open>moved\<close> is the
  result of \<open>API_moveForward()\<close>.\<close>

definition return_move :: "bool \<Rightarrow> Globals \<Rightarrow> error + (Globals \<times> api_call list)" where
  "return_move moved g =
     (case fold (return_step g) all_dirs (MAZE_WIDTH * MAZE_HEIGHT, None) of (minDist, minDir) \<Rightarrow>
      case minDir of
        None \<Rightarrow>
          (case floodFillToStart (maze g) of
             Inl e \<Rightarrow> Inl e
           | Inr m' \<Rightarrow> Inr (g\<lparr>maze := m'\<rparr>, [Log ''=== ERROR: no valid direction found! ==='']))
      | Some md \<Rightarrow>
          (case turn_loop (direction g) md of (d, tr) \<Rightarrow>
             let g1 = g\<lparr>direction := d\<rparr>
             in if moved
                then Inr (g1\<lparr>posX := posX g1 + dx (direction g1),
                             posY := posY g1 + dy (direction g1)\<rparr>, tr @ [API_moveForward])
                else
                  let g2 = g1\<lparr>maze := (maze g1)\<lparr>walls :=
                             write_edge (walls (maze g1)) (posX g1, posY g1) (direction g1) True\<rparr>\<rparr>
                  in case (if explorePhaseComplete g2 then floodFillToStart (maze g2)
                           else floodFillToStartWithExploration (maze g2)) of
                       Inl e \<Rightarrow> Inl e
                     | Inr m' \<Rightarrow> Inr (g2\<lparr>maze := m'\<rparr>, tr @ [API_moveForward])))"

text \<open>moveToNextCellReturn; the first component of the result is \<open>justReachedGoal\<close> after
  the call.\<close>

definition moveToNextCellReturn :: "bool \<Rightarrow> sensors \<Rightarrow> bool \<Rightarrow> Globals \<Rightarrow> error + (bool \<times> Globals \<times> api_call list)" where
  "moveToNextCellReturn justReachedGoal sn moved g =
     (case return_flood justReachedGoal sn g of
        Inl e \<Rightarrow> Inl e
      | Inr (g1, lg) \<Rightarrow>
          (case return_move moved g1 of
             Inl e \<Rightarrow> Inl e
           | Inr (g2, tr) \<Rightarrow> Inr (False, g2, lg @ tr)))"

subsection \<open>ff.c: updateDisplay\<close>

text \<open>
  The effect of updateDisplay on the state of the program. The calls to the display
  (\<open>API_setText\<close>, \<open>API_setColor\<close>, \<open>API_setWall\<close>) are output only; the state changes
  through the flood fills in the branch for unvisited cells. \<open>display_cell\<close> is one
  iteration of the first loop nest.
\<close>

definition display_cell :: "cell \<Rightarrow> Globals \<Rightarrow> error + Globals" where
  "display_cell c g =
     (if fst c = posX g \<and> snd c = posY g then Inr g
      else if (fst c = GOAL_X1 \<or> fst c = GOAL_X2) \<and> (snd c = GOAL_Y1 \<or> snd c = GOAL_Y2) then Inr g
      else if currentMode g = RETURN_MODE \<and> \<not> explorePhaseComplete g
      then
        if visited (maze g) c then Inr g
        else
          (case floodFillToGoal (posX g) (posY g) (maze g) of
             Inl e \<Rightarrow> Inl e
           | Inr m1 \<Rightarrow>
               (case (if explorePhaseComplete g then floodFillToStart m1
                      else floodFillToStartWithExploration m1) of
                  Inl e \<Rightarrow> Inl e
                | Inr m2 \<Rightarrow> Inr (g\<lparr>maze := m2\<rparr>)))
      else Inr g)"

fun for_cells :: "(cell \<Rightarrow> 's \<Rightarrow> error + 's) \<Rightarrow> cell list \<Rightarrow> 's \<Rightarrow> error + 's" where
  "for_cells f [] s = Inr s"
| "for_cells f (c # cs) s = (case f c s of Inl e \<Rightarrow> Inl e | Inr s' \<Rightarrow> for_cells f cs s')"

definition updateDisplay :: "Globals \<Rightarrow> error + Globals" where
  "updateDisplay g = for_cells display_cell all_cells g"

subsection \<open>ffv3.c: update_display\<close>

text \<open>update_display takes both structures through pointers to const and returns nothing:
  its result is the list of display calls.\<close>

datatype display_call =
  API_setText cell string | API_setNumber cell int | API_setColor cell char | API_setWall cell char

definition update_display_cell :: "MouseState \<Rightarrow> Maze \<Rightarrow> cell \<Rightarrow> display_call list" where
  "update_display_cell ms m p =
     (if distances m p = INVALID_DISTANCE then [API_setText p ''-''] else [API_setNumber p (distances m p)]) @
     (if fst p = fst (pos ms) \<and> snd p = snd (pos ms) then [API_setColor p (CHR ''R'')]
      else if is_at_goal p then [API_setColor p (CHR ''G'')]
      else if visited m p then [API_setColor p (CHR ''B'')]
      else [API_setColor p (CHR ''Y'')]) @
     (if mode ms = SPEED_MODE \<and> path_length ms > 0 \<and> p \<in> set (path_cells ms) \<and>
         \<not> (fst p = fst (pos ms) \<and> snd p = snd (pos ms)) \<and> \<not> is_at_goal p
      then [API_setColor p (CHR ''C'')] else []) @
     (if walls m p NORTH then [API_setWall p (CHR ''n'')] else []) @
     (if walls m p EAST then [API_setWall p (CHR ''e'')] else []) @
     (if walls m p SOUTH then [API_setWall p (CHR ''s'')] else []) @
     (if walls m p WEST then [API_setWall p (CHR ''w'')] else [])"

definition update_display :: "MouseState \<Rightarrow> Maze \<Rightarrow> display_call list" where
  "update_display ms m = concat (map (update_display_cell ms m) all_cells)"

subsection \<open>Initialization\<close>

definition initializeMaze :: "int \<Rightarrow> int \<Rightarrow> Maze \<Rightarrow> error + Maze" where
  "initializeMaze px py m = floodFillToGoal px py (initializeMaze_arrays m)"

definition init_mouse :: "MouseState \<Rightarrow> Maze \<Rightarrow> MouseState \<times> Maze" where
  "init_mouse ms m =
     (ms\<lparr>pos := (0, 0), orientation := NORTH, mode := SEARCH_MODE, goal_found := False,
         path_length := 0\<rparr>,
      m\<lparr>visited := (visited m)((0, 0) := True)\<rparr>)"

definition init_simulation :: "MouseState \<Rightarrow> Maze \<Rightarrow> error + (MouseState \<times> Maze)" where
  "init_simulation ms m =
     (case init_mouse ms (init_maze m) of (ms', m') \<Rightarrow>
        case flood_fill_goal m' of Inl e \<Rightarrow> Inl e | Inr m'' \<Rightarrow> Inr (ms', m''))"

text \<open>The zero-initialised globals of both programs before \<open>main\<close> runs.\<close>

definition blank_maze :: Maze where
  "blank_maze = \<lparr>distances = (\<lambda>c. 0), walls = (\<lambda>c dir. False), visited = (\<lambda>c. False)\<rparr>"

definition blank_mouse :: MouseState where
  "blank_mouse = \<lparr>pos = (0, 0), orientation = NORTH, mode = SEARCH_MODE, goal_found = False,
                  shortest_path = (\<lambda>i. (0, 0)), path_length = 0\<rparr>"

definition blank_globals :: Globals where
  "blank_globals = \<lparr>posX = 0, posY = 0, direction = NORTH, currentMode = SEARCH_MODE,
                    goalFound = False, explorePhaseComplete = False, maze = blank_maze,
                    fastestPath = (\<lambda>i. (0, 0)), pathLength = 0\<rparr>"


text \<open>The edge out of the position of ff.c in direction \<open>dir\<close> is selectable.\<close>

definition selectable :: "Globals \<Rightarrow> Direction \<Rightarrow> bool" where
  "selectable g dir \<longleftrightarrow>
     \<not> walls (maze g) (posX g, posY g) dir \<and> is_within_bounds (neighbor (posX g, posY g) dir)"


section \<open>Wall symmetry and boundary walls\<close>

definition wall_symmetric :: "Maze \<Rightarrow> bool" where
  "wall_symmetric m =
     (\<forall>c \<in> set all_cells. \<forall>dir \<in> set all_dirs.
        is_within_bounds (neighbor c dir) \<longrightarrow>
        has_wall m c dir = has_wall m (neighbor c dir) (get_opposite_direction dir))"

text \<open>The edges between a cell of the grid and the outside.\<close>

definition is_boundary_edge :: "cell \<Rightarrow> Direction \<Rightarrow> bool" where
  "is_boundary_edge c dir = (is_within_bounds c \<and> \<not> is_within_bounds (neighbor c dir))"

definition boundary_walled :: "Maze \<Rightarrow> bool" where
  "boundary_walled m =
     (\<forall>c \<in> set all_cells. \<forall>dir \<in> set all_dirs. is_boundary_edge c dir \<longrightarrow> walls m c dir)"

text \<open>The sensors report a wall on every sensed edge that leaves the grid.\<close>

definition sensed_boundary_walls :: "sensors \<Rightarrow> Globals \<Rightarrow> bool" where
  "sensed_boundary_walls sn g =
     ((is_boundary_edge (posX g, posY g) (direction g) \<longrightarrow> wallFront sn) \<and>
      (is_boundary_edge (posX g, posY g) (dir_plus (direction g) 1) \<longrightarrow> wallRight sn) \<and>
      (is_boundary_edge (posX g, posY g) (dir_plus (direction g) 3) \<longrightarrow> wallLeft sn))"


text \<open>The start cell of a fresh maze closed on its two inner sides.\<close>

definition enclosed_maze :: Maze where
  "enclosed_maze = set_wall (set_wall (init_maze blank_maze) (0, 0) NORTH) (0, 0) EAST"


text \<open>
  The maze of ff.c after a first run to the goal in a maze without inner walls: the mouse
  went north along \<open>x = 0\<close> to \<open>(0, 7)\<close> and east along \<open>y = 7\<close> to the goal cell
  \<open>(7, 7)\<close>, where \<open>main\<close> marks the four goal cells visited and enters RETURN mode.
\<close>

definition first_run_visited :: "cell \<Rightarrow> bool" where
  "first_run_visited c =
     ((fst c = 0 \<and> 0 \<le> snd c \<and> snd c \<le> 7) \<or> (snd c = 7 \<and> 0 \<le> fst c \<and> fst c \<le> 7) \<or>
      is_at_goal c)"

definition goal_reached_maze :: Maze where
  "goal_reached_maze = (initializeMaze_arrays blank_maze)\<lparr>visited := first_run_visited\<rparr>"

definition goal_reached_globals :: Globals where
  "goal_reached_globals =
     blank_globals\<lparr>posX := 7, posY := 7, direction := EAST, currentMode := RETURN_MODE,
                   goalFound := True, maze := goal_reached_maze\<rparr>"


text \<open>A maze without inner walls in which every cell has been visited, and the mouse of
  ff.c in it at \<open>(0, 1)\<close> on its way back.\<close>

definition explored_globals :: Globals where
  "explored_globals =
     blank_globals\<lparr>posX := 0, posY := 1, currentMode := RETURN_MODE, goalFound := True,
                   maze := (initializeMaze_arrays blank_maze)\<lparr>visited := (\<lambda>c. True)\<rparr>\<rparr>"


section \<open>The greedy walk over a distance field\<close>

text \<open>
  The walk that the specification describes for path planning: from a cell, step to an open
  neighbour in the grid whose distance is strictly smaller than that of the cell, of least
  distance and first in the order North, East, South, West among equals, until a goal cell
  is reached. \<open>greedy_walk n\<close> takes at most \<open>n\<close> steps and returns the cells passed and how
  the walk ended. \<open>store a i cs\<close> is the array \<open>a\<close> with the cells \<open>cs\<close> written from
  index \<open>i\<close> on.
\<close>

datatype walk_end = AtGoal | NoImprovement | OutOfRoom

definition improving :: "Maze \<Rightarrow> cell \<Rightarrow> Direction \<Rightarrow> bool" where
  "improving m c dir \<longleftrightarrow>
     \<not> has_wall m c dir \<and> is_within_bounds (neighbor c dir) \<and>
     distances m (neighbor c dir) < distances m c"

definition greedy_dir :: "Maze \<Rightarrow> cell \<Rightarrow> Direction option" where
  "greedy_dir m c =
     find (\<lambda>dir. improving m c dir \<and>
                 (\<forall>d' \<in> set all_dirs. improving m c d' \<longrightarrow>
                    distances m (neighbor c dir) \<le> distances m (neighbor c d'))) all_dirs"

fun greedy_walk :: "nat \<Rightarrow> Maze \<Rightarrow> cell \<Rightarrow> cell list \<times> walk_end" where
  "greedy_walk n m c =
     (if is_at_goal c then ([c], AtGoal)
      else case greedy_dir m c of
             None \<Rightarrow> ([c], NoImprovement)
           | Some dir \<Rightarrow>
               (case n of
                  0 \<Rightarrow> ([c], OutOfRoom)
                | Suc k \<Rightarrow> (case greedy_walk k m (neighbor c dir) of (p, e) \<Rightarrow> (c # p, e))))"

declare greedy_walk.simps [simp del]

fun store :: "(nat \<Rightarrow> cell) \<Rightarrow> nat \<Rightarrow> cell list \<Rightarrow> (nat \<Rightarrow> cell)" where
  "store a i [] = a"
| "store a i (c # cs) = store (a(i := c)) (Suc i) cs"

text \<open>The Manhattan distance of two cells.\<close>

definition manhattan :: "cell \<Rightarrow> cell \<Rightarrow> int" where
  "manhattan a b = abs (fst a - fst b) + abs (snd a - snd b)"

text \<open>The only walls of the grid are the boundary walls.\<close>

definition open_grid :: "Maze \<Rightarrow> bool" where
  "open_grid m \<longleftrightarrow>
     (\<forall>c \<in> set all_cells. \<forall>dir \<in> set all_dirs. walls m c dir = is_boundary_edge c dir)"


section \<open>Basic facts\<close>

lemma ball_all_dirs: "(\<forall>dir \<in> set all_dirs. P dir) = (\<forall>dir. P dir)"
proof -
  have "dir \<in> set all_dirs" for dir by (cases dir) simp_all
  then show ?thesis by blast
qed

lemma set_all_cells: "set all_cells = {c. is_within_bounds c}"
  by (force simp: all_cells_def is_within_bounds_def)

lemma fold_upd_const:
  "fold (\<lambda>c a'. a'(c := v)) cs a = (\<lambda>c. if c \<in> set cs then v else a c)"
  by (induction cs arbitrary: a) auto

lemma set_all_apply: "set_all v a c = (if is_within_bounds c then v else a c)"
  by (simp add: set_all_def fold_upd_const set_all_cells)

lemma opposite_simps [simp]:
  "get_opposite_direction NORTH = SOUTH" "get_opposite_direction SOUTH = NORTH"
  "get_opposite_direction EAST = WEST" "get_opposite_direction WEST = EAST"
  by (simp_all add: get_opposite_direction_def dir_plus_def index_dir_def)

lemma dir_plus_2: "dir_plus dir 2 = get_opposite_direction dir"
  by (simp add: get_opposite_direction_def)

lemma opposite_opposite [simp]: "get_opposite_direction (get_opposite_direction dir) = dir"
  by (cases dir) simp_all

lemma opposite_neq [simp]: "get_opposite_direction dir \<noteq> dir" "dir \<noteq> get_opposite_direction dir"
  by (cases dir; simp)+

lemma neighbor_opposite [simp]: "neighbor (neighbor c dir) (get_opposite_direction dir) = c"
  by (cases dir) (simp_all add: neighbor_def)

lemma neighbor_neq [simp]: "neighbor c dir \<noteq> c" "c \<noteq> neighbor c dir"
  by (cases dir; cases c; simp add: neighbor_def)+

lemma neighbor_inj: "neighbor c dir = neighbor c dir' \<Longrightarrow> dir = dir'"
  by (cases dir; cases dir'; cases c; simp add: neighbor_def)

lemma neighbor_back: "neighbor c dir = c' \<Longrightarrow> neighbor c' dir' = c \<Longrightarrow> dir' = get_opposite_direction dir"
  by (cases dir; cases dir'; cases c; cases c'; auto simp add: neighbor_def)

lemma has_wall_in [simp]: "is_within_bounds c \<Longrightarrow> has_wall m c dir = walls m c dir"
  by (simp add: has_wall_def)

lemma wall_symmetric_iff:
  "wall_symmetric m \<longleftrightarrow>
     (\<forall>c dir. is_within_bounds c \<and> is_within_bounds (neighbor c dir) \<longrightarrow>
        walls m c dir = walls m (neighbor c dir) (get_opposite_direction dir))"
  unfolding wall_symmetric_def ball_all_dirs set_all_cells by auto

lemma boundary_walled_iff:
  "boundary_walled m \<longleftrightarrow> (\<forall>c dir. is_boundary_edge c dir \<longrightarrow> walls m c dir)"
  unfolding boundary_walled_def ball_all_dirs set_all_cells by (auto simp: is_boundary_edge_def)

lemma opposite_eq_iff [simp]: "get_opposite_direction d = get_opposite_direction d' \<longleftrightarrow> d = d'"
  by (cases d; cases d'; simp)

lemma opposite_swap: "get_opposite_direction d = d' \<longleftrightarrow> d = get_opposite_direction d'"
  by (cases d; cases d'; simp)

lemma neighbor_eq_iff [simp]: "neighbor c d = neighbor c' d \<longleftrightarrow> c = c'"
  by (cases d; cases c; cases c'; simp add: neighbor_def)

lemma neighbor_swap: "neighbor c d = c' \<longleftrightarrow> c = neighbor c' (get_opposite_direction d)"
  by (cases d; cases c; cases c'; auto simp add: neighbor_def)

lemma walls_set_wall:
  "walls (set_wall m p dir) c d =
     (walls m c d \<or>
      (is_within_bounds p \<and>
        ((c = p \<and> d = dir) \<or>
         (c = neighbor p dir \<and> is_within_bounds (neighbor p dir) \<and> d = get_opposite_direction dir))))"
  by (auto simp: set_wall_def wall_write_def Let_def neighbor_def)

lemma set_wall_others [simp]:
  "distances (set_wall m p dir) = distances m" "visited (set_wall m p dir) = visited m"
  by (simp_all add: set_wall_def Let_def)

lemma write_edge_apply:
  "write_edge w p dir b c d =
     (if (c = p \<and> d = dir) \<or>
         (c = neighbor p dir \<and> is_within_bounds (neighbor p dir) \<and> d = get_opposite_direction dir)
      then b else w c d)"
  by (auto simp: write_edge_def wall_write_def Let_def neighbor_def is_within_bounds_def dir_plus_2)

lemma set_wall_symmetric: "wall_symmetric m \<Longrightarrow> wall_symmetric (set_wall m p dir)"
  unfolding wall_symmetric_iff walls_set_wall
  by (metis neighbor_opposite opposite_opposite)

lemma write_edge_symmetric:
  assumes "wall_symmetric m"
  shows "wall_symmetric (m\<lparr>walls := write_edge (walls m) p dir b\<rparr>)"
  using assms unfolding wall_symmetric_iff
  by (simp add: write_edge_apply) (metis neighbor_opposite opposite_opposite)

lemma fold_preserves:
  assumes "P a" and "\<And>x a'. P a' \<Longrightarrow> P (f x a')"
  shows "P (fold f xs a)"
  using assms(1) by (induction xs arbitrary: a) (simp_all add: assms(2))

lemma walls_fold_set_wall:
  "walls (fold (\<lambda>i m'. set_wall (set_wall m' (f i) d1) (g i) d2) is m) c d =
     (walls m c d \<or> (\<exists>i \<in> set is. walls (set_wall (set_wall m (f i) d1) (g i) d2) c d))"
  by (induction "is" arbitrary: m) (auto simp: walls_set_wall)

lemma fold_set_wall_others [simp]:
  "distances (fold (\<lambda>i m'. set_wall (set_wall m' (f i) d1) (g i) d2) is m) = distances m"
  "visited (fold (\<lambda>i m'. set_wall (set_wall m' (f i) d1) (g i) d2) is m) = visited m"
  by (induction "is" arbitrary: m) simp_all

lemma fold_wall_write:
  "fold (\<lambda>x w. wall_write (wall_write w (f x) d1 True) (g x) d2 True) xs w c d =
     (w c d \<or> (\<exists>x \<in> set xs. (c = f x \<and> d = d1) \<or> (c = g x \<and> d = d2)))"
  by (induction xs arbitrary: w) (auto simp: wall_write_def)

lemma is_boundary_edge_iff:
  "is_boundary_edge c d \<longleftrightarrow>
     is_within_bounds c \<and>
     ((d = SOUTH \<and> snd c = 0) \<or> (d = NORTH \<and> snd c = MAZE_HEIGHT - 1) \<or>
      (d = WEST \<and> fst c = 0) \<or> (d = EAST \<and> fst c = MAZE_WIDTH - 1))"
  by (cases d; cases c) (auto simp: is_boundary_edge_def is_within_bounds_def neighbor_def)

lemma walls_init_maze:
  "walls (init_maze m) c d = (if is_within_bounds c then is_boundary_edge c d else walls m c d)"
  unfolding init_maze_def Let_def walls_fold_set_wall walls_set_wall
  by (cases c; cases d)
     (auto simp: set_all_apply is_boundary_edge_iff is_within_bounds_def neighbor_def)

lemma init_maze_others:
  "distances (init_maze m) c = (if is_within_bounds c then INVALID_DISTANCE else distances m c)"
  "visited (init_maze m) c = (if is_within_bounds c then False else visited m c)"
  by (simp_all add: init_maze_def Let_def set_all_apply)

lemma walls_initializeMaze_arrays:
  "walls (initializeMaze_arrays m) c d =
     (if is_within_bounds c then is_boundary_edge c d else walls m c d)"
  unfolding initializeMaze_arrays_def Let_def
  by (cases c; cases d)
     (auto simp: fold_wall_write set_all_apply is_boundary_edge_iff is_within_bounds_def)

lemma initializeMaze_arrays_others:
  "distances (initializeMaze_arrays m) c = (if is_within_bounds c then 256 else distances m c)"
  "visited (initializeMaze_arrays m) c =
     (if c = (0, 0) then True else if is_within_bounds c then False else visited m c)"
  by (simp_all add: initializeMaze_arrays_def Let_def set_all_apply)

lemma boundary_edges_symmetric:
  assumes "\<And>c d. is_within_bounds c \<Longrightarrow> walls m c d = is_boundary_edge c d"
  shows "wall_symmetric m"
  unfolding wall_symmetric_iff
proof (intro allI impI)
  fix c d
  assume h: "is_within_bounds c \<and> is_within_bounds (neighbor c d)"
  then have "\<not> is_boundary_edge c d" "\<not> is_boundary_edge (neighbor c d) (get_opposite_direction d)"
    by (simp_all add: is_boundary_edge_def)
  with h assms show "walls m c d = walls m (neighbor c d) (get_opposite_direction d)"
    by simp
qed

lemma init_maze_symmetric: "wall_symmetric (init_maze m)"
  by (rule boundary_edges_symmetric) (simp add: walls_init_maze)

lemma initializeMaze_arrays_symmetric: "wall_symmetric (initializeMaze_arrays m)"
  by (rule boundary_edges_symmetric) (simp add: walls_initializeMaze_arrays)

lemma update_walls_current_cell_symmetric:
  "wall_symmetric m \<Longrightarrow> wall_symmetric (update_walls_current_cell sn ms m)"
  by (simp add: update_walls_current_cell_def Let_def set_wall_symmetric)

lemma updateWalls_symmetric:
  assumes "wall_symmetric (maze g)"
  shows "wall_symmetric (maze (updateWalls sn g))"
proof -
  have step: "wall_symmetric (m\<lparr>walls := if b then write_edge (walls m) p dir True
                                           else write_edge (walls m) p dir False\<rparr>)"
    if "wall_symmetric m" for m p dir b
    using write_edge_symmetric [OF that] by simp
  let ?p = "(posX g, posY g)"
  let ?m1 = "(maze g)\<lparr>walls := if wallFront sn then write_edge (walls (maze g)) ?p (direction g) True
                  else write_edge (walls (maze g)) ?p (direction g) False\<rparr>"
  let ?m2 = "?m1\<lparr>walls := if wallRight sn then write_edge (walls ?m1) ?p (dir_plus (direction g) 1) True
                  else write_edge (walls ?m1) ?p (dir_plus (direction g) 1) False\<rparr>"
  let ?m3 = "?m2\<lparr>walls := if wallLeft sn then write_edge (walls ?m2) ?p (dir_plus (direction g) 3) True
                  else write_edge (walls ?m2) ?p (dir_plus (direction g) 3) False\<rparr>"
  have "wall_symmetric ?m3"
    by (intro step assms)
  moreover have "maze (updateWalls sn g) = ?m3"
    by (simp add: updateWalls_def Let_def)
  ultimately show ?thesis by simp
qed

section \<open>Correctness of the plain flood fill\<close>

lemma finite_cells: "finite {c. is_within_bounds c}"
proof -
  have "{c. is_within_bounds c} = {0..15} \<times> {0..15}"
    by (auto simp: is_within_bounds_def)
  then show ?thesis by simp
qed

lemma card_cells: "card {c. is_within_bounds c} = 256"
proof -
  have "{c. is_within_bounds c} = {0..15} \<times> {0..15}"
    by (auto simp: is_within_bounds_def)
  then show ?thesis by (simp add: card_cartesian_product)
qed

lemma queue_room:
  assumes inj: "inj_on q {..<t::nat}" and inb: "\<forall>i<t. is_within_bounds (q i)"
    and n: "is_within_bounds n" "n \<notin> q ` {..<t}"
  shows "t < 256"
proof -
  have "q ` {..<t} \<subseteq> {c. is_within_bounds c} - {n}"
    using inb n by auto
  then have "card (q ` {..<t}) \<le> card ({c. is_within_bounds c} - {n})"
    by (intro card_mono) (simp_all add: finite_cells)
  moreover have "card (q ` {..<t}) = t"
    using inj by (simp add: card_image)
  moreover have "card ({c. is_within_bounds c} - {n}) = 255"
    using n(1) by (simp add: card_Diff_singleton card_cells)
  ultimately show ?thesis by simp
qed

text \<open>The part of the invariant that holds at every point of the sweep.\<close>

definition bfs_common :: "wallmap \<Rightarrow> cell set \<Rightarrow> bfs_state \<Rightarrow> bool" where
  "bfs_common w S s \<longleftrightarrow>
     (\<forall>i<qBack s. is_within_bounds (queue s i)) \<and>
     inj_on (queue s) {..<qBack s} \<and>
     (\<forall>c. is_within_bounds c \<longrightarrow> (dist s c \<noteq> 256 \<longleftrightarrow> c \<in> queue s ` {..<qBack s})) \<and>
     (\<forall>i<qBack s. 0 \<le> dist s (queue s i) \<and> dist s (queue s i) \<le> int i) \<and>
     (\<forall>i j. i \<le> j \<and> j < qBack s \<longrightarrow> dist s (queue s i) \<le> dist s (queue s j)) \<and>
     (\<forall>c. is_within_bounds c \<and> dist s c \<noteq> 256 \<longrightarrow> (\<exists>src \<in> S. hops w (nat (dist s c)) src c)) \<and>
     (\<forall>src \<in> S. is_within_bounds src \<and> dist s src = 0)"

text \<open>All open edges out of the cell at queue index \<open>i\<close> in a direction of \<open>D\<close> are relaxed.\<close>

definition relaxed :: "wallmap \<Rightarrow> bfs_state \<Rightarrow> nat \<Rightarrow> Direction set \<Rightarrow> bool" where
  "relaxed w s i D \<longleftrightarrow>
     (\<forall>dir \<in> D. \<not> w (queue s i) dir \<and> is_within_bounds (neighbor (queue s i) dir) \<longrightarrow>
        dist s (neighbor (queue s i) dir) \<le> dist s (queue s i) + 1 \<and>
        dist s (neighbor (queue s i) dir) \<noteq> 256)"

text \<open>Invariant at the head of the while loop.\<close>

definition bfs_inv :: "wallmap \<Rightarrow> cell set \<Rightarrow> bfs_state \<Rightarrow> bool" where
  "bfs_inv w S s \<longleftrightarrow>
     bfs_common w S s \<and> qFront s \<le> qBack s \<and>
     (\<forall>j. qFront s \<le> j \<and> j < qBack s \<longrightarrow> dist s (queue s j) \<le> dist s (queue s (qFront s)) + 1) \<and>
     (\<forall>i<qFront s. relaxed w s i UNIV)"

text \<open>Invariant inside the direction loop for the cell at queue index \<open>p\<close>, with the
  directions \<open>D\<close> done.\<close>

definition bfs_inner :: "wallmap \<Rightarrow> cell set \<Rightarrow> nat \<Rightarrow> Direction set \<Rightarrow> bfs_state \<Rightarrow> bool" where
  "bfs_inner w S p D s \<longleftrightarrow>
     bfs_common w S s \<and> qFront s = p + 1 \<and> p < qBack s \<and>
     (\<forall>j<qBack s. dist s (queue s j) \<le> dist s (queue s p) + 1) \<and>
     (\<forall>i<p. relaxed w s i UNIV) \<and> relaxed w s p D"

lemma relax_alt:
  "relax w c d dir s =
     (if w c dir \<or> \<not> is_within_bounds (neighbor c dir) \<or> \<not> dist s (neighbor c dir) > d + 1 then Inr s
      else enqueue (neighbor c dir) (s\<lparr>dist := (dist s)(neighbor c dir := d + 1)\<rparr>))"
  by (auto simp: relax_def Let_def neighbor_def is_within_bounds_def)

lemma inner_unchanged:
  assumes "bfs_inner w S p D s"
    and "w (queue s p) dir \<or> \<not> is_within_bounds (neighbor (queue s p) dir) \<or>
          (dist s (neighbor (queue s p) dir) \<le> dist s (queue s p) + 1)"
  shows "bfs_inner w S p (insert dir D) s"
proof -
  let ?n = "neighbor (queue s p) dir"
  have com: "bfs_common w S s" and p: "p < qBack s" using assms(1) by (auto simp: bfs_inner_def)
  have "dist s ?n \<noteq> 256" if opn: "\<not> w (queue s p) dir" "is_within_bounds ?n"
  proof
    assume inf: "dist s ?n = 256"
    have enq: "\<forall>c. is_within_bounds c \<longrightarrow> (dist s c \<noteq> 256 \<longleftrightarrow> c \<in> queue s ` {..<qBack s})"
      and inb: "\<forall>i<qBack s. is_within_bounds (queue s i)"
      and inj: "inj_on (queue s) {..<qBack s}"
      and rng: "\<forall>i<qBack s. 0 \<le> dist s (queue s i) \<and> dist s (queue s i) \<le> int i"
      using com unfolding bfs_common_def by blast+
    from inf have "?n \<notin> queue s ` {..<qBack s}"
      using enq opn(2) by blast
    with inj inb opn(2) have "qBack s < 256"
      by (rule queue_room)
    moreover have "dist s (queue s p) \<le> int p"
      using rng p by simp
    ultimately show False using assms(2) opn inf p by auto
  qed
  then have "relaxed w s p (insert dir D)"
    using assms by (auto simp: relaxed_def bfs_inner_def)
  then show ?thesis using assms(1) by (simp add: bfs_inner_def)
qed

lemma inner_enqueue:
  assumes inv: "bfs_inner w S p D s"
    and opn: "\<not> w (queue s p) dir" "is_within_bounds (neighbor (queue s p) dir)"
    and far: "dist s (neighbor (queue s p) dir) > dist s (queue s p) + 1"
  defines "n \<equiv> neighbor (queue s p) dir"
  defines "s' \<equiv> s\<lparr>dist := (dist s)(n := dist s (queue s p) + 1),
                    queue := (queue s)(qBack s := n), qBack := qBack s + 1\<rparr>"
  shows "enqueue n (s\<lparr>dist := (dist s)(n := dist s (queue s p) + 1)\<rparr>) = Inr s'"
    and "bfs_inner w S p (insert dir D) s'"
    and "queue s' p = queue s p" and "dist s' (queue s p) = dist s (queue s p)"
proof -
  let ?t = "qBack s" and ?dc = "dist s (queue s p)"
  have com: "bfs_common w S s" and p: "p < ?t" and qf: "qFront s = p + 1"
    and near: "\<forall>j<?t. dist s (queue s j) \<le> ?dc + 1"
    and rel: "\<forall>i<p. relaxed w s i UNIV" "relaxed w s p D"
    using inv by (auto simp: bfs_inner_def)
  have inb: "\<forall>i<?t. is_within_bounds (queue s i)"
    and inj: "inj_on (queue s) {..<?t}"
    and enq: "\<forall>c. is_within_bounds c \<longrightarrow> (dist s c \<noteq> 256 \<longleftrightarrow> c \<in> queue s ` {..<?t})"
    and rng: "\<forall>i<?t. 0 \<le> dist s (queue s i) \<and> dist s (queue s i) \<le> int i"
    and srt: "\<forall>i j. i \<le> j \<and> j < ?t \<longrightarrow> dist s (queue s i) \<le> dist s (queue s j)"
    and snd: "\<forall>c. is_within_bounds c \<and> dist s c \<noteq> 256 \<longrightarrow> (\<exists>src \<in> S. hops w (nat (dist s c)) src c)"
    and src: "\<forall>src \<in> S. is_within_bounds src \<and> dist s src = 0"
    using com unfolding bfs_common_def by blast+
  have n_in: "is_within_bounds n" using opn by (simp add: n_def)
  have n_new: "queue s i \<noteq> n" if "i < ?t" for i
    using near far that by (auto simp: n_def)
  then have n_notin: "n \<notin> queue s ` {..<?t}" by auto
  have n_inf: "dist s n = 256" using enq n_in n_notin by blast
  have room: "?t < 256" using inj inb n_in n_notin by (rule queue_room)
  have dc: "0 \<le> ?dc" "?dc \<le> int p" using rng p by auto
  show "enqueue n (s\<lparr>dist := (dist s)(n := ?dc + 1)\<rparr>) = Inr s'"
    using room by (simp add: enqueue_def s'_def)
  have q_old: "queue s' i = queue s i" if "i < ?t" for i using that by (simp add: s'_def)
  have q_new: "queue s' ?t = n" by (simp add: s'_def)
  have d_old: "dist s' c = dist s c" if "c \<noteq> n" for c using that by (simp add: s'_def)
  have d_new: "dist s' n = ?dc + 1" by (simp add: s'_def)
  have t': "qBack s' = Suc ?t" by (simp add: s'_def)
  have dq_old: "dist s' (queue s' i) = dist s (queue s i)" if "i < ?t" for i
    using that n_new by (simp add: q_old d_old)
  have dq_new: "dist s' (queue s' ?t) = ?dc + 1" by (simp add: q_new d_new)
  have c1: "\<forall>i<qBack s'. is_within_bounds (queue s' i)"
    using inb n_in q_old q_new by (auto simp: t' less_Suc_eq)
  have c2: "inj_on (queue s') {..<qBack s'}"
  proof (rule inj_onI)
    fix i j assume ij: "i \<in> {..<qBack s'}" "j \<in> {..<qBack s'}" "queue s' i = queue s' j"
    show "i = j"
    proof (cases "i < ?t"; cases "j < ?t")
      assume "i < ?t" "j < ?t"
      with ij(3) inj show ?thesis by (auto simp: q_old dest: inj_onD)
    next
      assume "i < ?t" "\<not> j < ?t"
      with ij have "j = ?t" by (simp add: t')
      with ij(3) \<open>i < ?t\<close> n_new show ?thesis by (simp add: q_old q_new)
    next
      assume "\<not> i < ?t" "j < ?t"
      with ij have "i = ?t" by (simp add: t')
      with ij(3) \<open>j < ?t\<close> n_new [of j] show ?thesis by (simp add: q_old q_new)
    next
      assume "\<not> i < ?t" "\<not> j < ?t"
      with ij show ?thesis by (simp add: t')
    qed
  qed
  have img: "queue s' ` {..<qBack s'} = insert n (queue s ` {..<?t})"
  proof -
    have "queue s' ` {..<?t} = queue s ` {..<?t}"
      by (rule image_cong) (simp_all add: q_old)
    then show ?thesis by (simp add: t' lessThan_Suc q_new)
  qed
  have c3: "\<forall>c. is_within_bounds c \<longrightarrow> (dist s' c \<noteq> 256 \<longleftrightarrow> c \<in> queue s' ` {..<qBack s'})"
  proof (intro allI impI)
    fix c assume "is_within_bounds c"
    show "dist s' c \<noteq> 256 \<longleftrightarrow> c \<in> queue s' ` {..<qBack s'}"
    proof (cases "c = n")
      case True
      then show ?thesis using dc p room by (simp add: img d_new)
    next
      case False
      from enq \<open>is_within_bounds c\<close>
      have "dist s c \<noteq> 256 \<longleftrightarrow> c \<in> queue s ` {..<?t}" by blast
      then show ?thesis using False by (simp add: img d_old)
    qed
  qed
  have c4: "\<forall>i<qBack s'. 0 \<le> dist s' (queue s' i) \<and> dist s' (queue s' i) \<le> int i"
  proof (intro allI impI)
    fix i assume "i < qBack s'"
    then consider "i < ?t" | "i = ?t" by atomize_elim (auto simp: t')
    then show "0 \<le> dist s' (queue s' i) \<and> dist s' (queue s' i) \<le> int i"
    proof cases
      case 1 then show ?thesis using rng by (simp add: dq_old)
    next
      case 2 then show ?thesis using dc p by (simp add: dq_new)
    qed
  qed
  have c5: "\<forall>i j. i \<le> j \<and> j < qBack s' \<longrightarrow> dist s' (queue s' i) \<le> dist s' (queue s' j)"
  proof (intro allI impI)
    fix i j assume ij: "i \<le> j \<and> j < qBack s'"
    then consider "j < ?t" | "i < ?t" "j = ?t" | "i = ?t" "j = ?t" by atomize_elim (auto simp: t')
    then show "dist s' (queue s' i) \<le> dist s' (queue s' j)"
    proof cases
      case 1 then show ?thesis using ij srt by (simp add: dq_old)
    next
      case 2 then show ?thesis using near by (simp add: dq_old dq_new)
    next
      case 3 then show ?thesis by simp
    qed
  qed
  have c6: "\<forall>c. is_within_bounds c \<and> dist s' c \<noteq> 256 \<longrightarrow> (\<exists>src \<in> S. hops w (nat (dist s' c)) src c)"
  proof (intro allI impI)
    fix c assume c: "is_within_bounds c \<and> dist s' c \<noteq> 256"
    show "\<exists>src \<in> S. hops w (nat (dist s' c)) src c"
    proof (cases "c = n")
      case True
      have "is_within_bounds (queue s p)" using inb p by simp
      moreover have "dist s (queue s p) \<noteq> 256" using dc p room by simp
      ultimately obtain src where src: "src \<in> S" "hops w (nat ?dc) src (queue s p)"
        using snd by blast
      from src(2) opn have "hops w (Suc (nat ?dc)) src n"
        unfolding n_def by (rule hops_Suc)
      moreover have "Suc (nat ?dc) = nat (dist s' c)" using dc True by (simp add: d_new)
      ultimately show ?thesis using src(1) True by auto
    next
      case False
      with c have "is_within_bounds c \<and> dist s c \<noteq> 256" by (simp add: d_old)
      with snd have "\<exists>src \<in> S. hops w (nat (dist s c)) src c" by blast
      then show ?thesis using False by (simp add: d_old)
    qed
  qed
  have c7: "\<forall>src \<in> S. is_within_bounds src \<and> dist s' src = 0"
  proof
    fix src assume "src \<in> S"
    then have "is_within_bounds src \<and> dist s src = 0" using src by blast
    moreover from this have "src \<noteq> n" using n_inf by auto
    ultimately show "is_within_bounds src \<and> dist s' src = 0" by (simp add: d_old)
  qed
  have com': "bfs_common w S s'"
    unfolding bfs_common_def using c1 c2 c3 c4 c5 c6 c7 by blast
  have near': "\<forall>j<qBack s'. dist s' (queue s' j) \<le> dist s' (queue s' p) + 1"
  proof (intro allI impI)
    fix j assume "j < qBack s'"
    then consider "j < ?t" | "j = ?t" by atomize_elim (auto simp: t')
    then show "dist s' (queue s' j) \<le> dist s' (queue s' p) + 1"
    proof cases
      case 1 then show ?thesis using near p by (simp add: dq_old)
    next
      case 2 then show ?thesis using p by (simp add: dq_old dq_new)
    qed
  qed
  have rel_old: "relaxed w s' i D'" if "i < ?t" "relaxed w s i D'" for i D'
    unfolding relaxed_def
  proof (intro ballI impI)
    fix dir' assume d': "dir' \<in> D'"
      and o: "\<not> w (queue s' i) dir' \<and> is_within_bounds (neighbor (queue s' i) dir')"
    let ?m = "neighbor (queue s i) dir'"
    from that o d' have m: "dist s ?m \<le> dist s (queue s i) + 1" "dist s ?m \<noteq> 256"
      by (auto simp: relaxed_def q_old)
    then have "?m \<noteq> n" using n_inf by auto
    then show "dist s' (neighbor (queue s' i) dir') \<le> dist s' (queue s' i) + 1 \<and>
               dist s' (neighbor (queue s' i) dir') \<noteq> 256"
      using m that(1) n_new [of i] by (simp add: q_old d_old)
  qed
  have rel1: "\<forall>i<p. relaxed w s' i UNIV"
    using rel(1) p by (auto intro!: rel_old)
  have rel2: "relaxed w s' p D" using rel(2) p by (rule rel_old [rotated])
  have "relaxed w s' p {dir}"
    using p dc room n_new [of p] by (simp add: relaxed_def q_old d_old d_new n_def [symmetric])
  with rel2 have rel3: "relaxed w s' p (insert dir D)"
    by (auto simp: relaxed_def)
  show "bfs_inner w S p (insert dir D) s'"
    unfolding bfs_inner_def using com' near' rel1 rel3 p qf by (simp add: t' s'_def)
  show "queue s' p = queue s p" using p by (rule q_old)
  show "dist s' (queue s p) = dist s (queue s p)" using n_new [OF p] by (rule d_old)
qed

lemma relax_inner:
  assumes "bfs_inner w S p D s"
  shows "\<exists>s'. relax w (queue s p) (dist s (queue s p)) dir s = Inr s' \<and>
              bfs_inner w S p (insert dir D) s' \<and>
              queue s' p = queue s p \<and> dist s' (queue s p) = dist s (queue s p)"
proof (cases "w (queue s p) dir \<or> \<not> is_within_bounds (neighbor (queue s p) dir) \<or>
          \<not> dist s (neighbor (queue s p) dir) > dist s (queue s p) + 1")
  case True
  then have "relax w (queue s p) (dist s (queue s p)) dir s = Inr s"
    by (simp add: relax_alt)
  moreover have "bfs_inner w S p (insert dir D) s"
    using assms True by (intro inner_unchanged) auto
  ultimately show ?thesis by simp
next
  case False
  then show ?thesis
    using inner_enqueue [OF assms, of dir] by (simp add: relax_alt)
qed

lemma for_dirs_inner:
  assumes "bfs_inner w S p D s" and "c = queue s p" and "d = dist s c"
  shows "\<exists>s'. for_dirs (relax w c d) dirs s = Inr s' \<and> bfs_inner w S p (D \<union> set dirs) s'"
  using assms
proof (induction dirs arbitrary: D s)
  case Nil
  then show ?case by simp
next
  case (Cons dir dirs)
  from relax_inner [OF Cons.prems(1), of dir] Cons.prems(2,3)
  obtain s1 where s1: "relax w c d dir s = Inr s1" "bfs_inner w S p (insert dir D) s1"
    "queue s1 p = c" "dist s1 c = d"
    by auto
  from Cons.IH [OF s1(2) s1(3) [symmetric] s1(4) [symmetric]]
  show ?case using s1(1) by simp
qed

lemma bfs_inv_inner:
  assumes "bfs_inv w S s" and "qFront s < qBack s"
  shows "bfs_inner w S (qFront s) {} (s\<lparr>qFront := qFront s + 1\<rparr>)"
proof -
  let ?h = "qFront s"
  have com: "bfs_common w S s"
    and near: "\<forall>j. ?h \<le> j \<and> j < qBack s \<longrightarrow> dist s (queue s j) \<le> dist s (queue s ?h) + 1"
    and rel: "\<forall>i<?h. relaxed w s i UNIV"
    using assms(1) by (auto simp: bfs_inv_def)
  have srt: "\<forall>i j. i \<le> j \<and> j < qBack s \<longrightarrow> dist s (queue s i) \<le> dist s (queue s j)"
    using com unfolding bfs_common_def by blast
  have "dist s (queue s j) \<le> dist s (queue s ?h) + 1" if "j < qBack s" for j
  proof (cases "?h \<le> j")
    case True
    then show ?thesis using near that by simp
  next
    case False
    then have "dist s (queue s j) \<le> dist s (queue s ?h)"
      using srt assms(2) by simp
    then show ?thesis by simp
  qed
  moreover have "bfs_common w S (s\<lparr>qFront := ?h + 1\<rparr>)"
    using com by (simp add: bfs_common_def)
  moreover have "\<forall>i<?h. relaxed w (s\<lparr>qFront := ?h + 1\<rparr>) i UNIV"
    using rel by (simp add: relaxed_def)
  ultimately show ?thesis
    using assms(2) by (simp add: bfs_inner_def relaxed_def)
qed

lemma bfs_inner_inv:
  assumes "bfs_inner w S p UNIV s"
  shows "bfs_inv w S s"
proof -
  have com: "bfs_common w S s" and qf: "qFront s = p + 1" and p: "p < qBack s"
    and near: "\<forall>j<qBack s. dist s (queue s j) \<le> dist s (queue s p) + 1"
    and rel: "\<forall>i<p. relaxed w s i UNIV" "relaxed w s p UNIV"
    using assms by (auto simp: bfs_inner_def)
  have srt: "\<forall>i j. i \<le> j \<and> j < qBack s \<longrightarrow> dist s (queue s i) \<le> dist s (queue s j)"
    using com unfolding bfs_common_def by blast
  have "dist s (queue s j) \<le> dist s (queue s (qFront s)) + 1" if "qFront s \<le> j" "j < qBack s" for j
  proof -
    have "dist s (queue s j) \<le> dist s (queue s p) + 1" using near that by simp
    moreover have "dist s (queue s p) \<le> dist s (queue s (qFront s))"
      using srt that qf by simp
    ultimately show ?thesis by simp
  qed
  moreover have "relaxed w s i UNIV" if "i < qFront s" for i
    using that rel qf by (cases "i = p") auto
  ultimately show ?thesis
    using com p qf by (simp add: bfs_inv_def)
qed

lemma set_all_dirs: "set all_dirs = UNIV"
  using ball_all_dirs [of "\<lambda>d. d \<in> set all_dirs"] by auto

lemma floodFill_loop_step:
  assumes "qFront s < qBack s"
    and "for_dirs (relax w (queue s (qFront s)) (dist s (queue s (qFront s)))) all_dirs
           (s\<lparr>qFront := qFront s + 1\<rparr>) = Inr s2"
  shows "floodFill_loop w s = floodFill_loop w s2"
  using assms by (subst floodFill_loop.simps) (simp add: Let_def del: for_dirs.simps)

lemma floodFill_loop_inv:
  assumes "bfs_inv w S s"
  shows "\<exists>s'. floodFill_loop w s = Inr s' \<and> bfs_inv w S s' \<and> qFront s' = qBack s'"
  using assms
proof (induction w s rule: floodFill_loop.induct)
  case (1 w s)
  show ?case
  proof (cases "qFront s < qBack s")
    case False
    with "1.prems" have "qFront s = qBack s" by (simp add: bfs_inv_def)
    with False "1.prems" show ?thesis by (simp add: floodFill_loop.simps)
  next
    case True
    let ?c = "queue s (qFront s)" and ?s1 = "s\<lparr>qFront := qFront s + 1\<rparr>"
    have "bfs_inner w S (qFront s) {} ?s1"
      using "1.prems" True by (rule bfs_inv_inner)
    from for_dirs_inner [OF this, of ?c "dist s ?c" all_dirs]
    obtain s2 where s2: "for_dirs (relax w ?c (dist s ?c)) all_dirs ?s1 = Inr s2"
      "bfs_inner w S (qFront s) ({} \<union> set all_dirs) s2"
      by (auto simp del: for_dirs.simps)
    from s2(2) have "bfs_inner w S (qFront s) UNIV s2" unfolding set_all_dirs by simp
    then have inv2: "bfs_inv w S s2" by (rule bfs_inner_inv)
    have "for_dirs (relax w ?c (dist ?s1 ?c)) all_dirs ?s1 = Inr s2"
      using s2(1) by (simp del: for_dirs.simps)
    from "1.IH" [OF True refl refl refl this inv2]
    show ?thesis using floodFill_loop_step [OF True s2(1)] by simp
  qed
qed

lemma relax_v3_eq:
  "is_within_bounds c \<Longrightarrow> relax_v3 m c d = relax (walls m) c d"
  by (intro ext) (auto simp: relax_v3_def relax_def Let_def is_within_bounds_def)

lemma flood_fill_loop_step:
  assumes "qFront s < qBack s"
    and "for_dirs (relax_v3 m (queue s (qFront s)) (dist s (queue s (qFront s)))) all_dirs
           (s\<lparr>qFront := qFront s + 1\<rparr>) = Inr s2"
  shows "flood_fill_loop m s = flood_fill_loop m s2"
  using assms by (subst flood_fill_loop.simps) (simp add: Let_def del: for_dirs.simps)

lemma flood_fill_loop_inv:
  assumes "bfs_inv (walls m) S s"
  shows "\<exists>s'. flood_fill_loop m s = Inr s' \<and> bfs_inv (walls m) S s' \<and> qFront s' = qBack s'"
  using assms
proof (induction m s rule: flood_fill_loop.induct)
  case (1 m s)
  show ?case
  proof (cases "qFront s < qBack s")
    case False
    with "1.prems" have "qFront s = qBack s" by (simp add: bfs_inv_def)
    with False "1.prems" show ?thesis by (simp add: flood_fill_loop.simps)
  next
    case True
    let ?c = "queue s (qFront s)" and ?s1 = "s\<lparr>qFront := qFront s + 1\<rparr>"
    have "is_within_bounds ?c"
      using "1.prems" True by (simp add: bfs_inv_def bfs_common_def)
    then have eq: "relax_v3 m ?c (dist s ?c) = relax (walls m) ?c (dist s ?c)"
      by (rule relax_v3_eq)
    have "bfs_inner (walls m) S (qFront s) {} ?s1"
      using "1.prems" True by (rule bfs_inv_inner)
    from for_dirs_inner [OF this, of ?c "dist s ?c" all_dirs]
    obtain s2 where s2: "for_dirs (relax_v3 m ?c (dist s ?c)) all_dirs ?s1 = Inr s2"
      "bfs_inner (walls m) S (qFront s) ({} \<union> set all_dirs) s2"
      unfolding eq by (auto simp del: for_dirs.simps)
    from s2(2) have "bfs_inner (walls m) S (qFront s) UNIV s2" unfolding set_all_dirs by simp
    then have inv2: "bfs_inv (walls m) S s2" by (rule bfs_inner_inv)
    have "for_dirs (relax_v3 m ?c (dist ?s1 ?c)) all_dirs ?s1 = Inr s2"
      using s2(1) by (simp del: for_dirs.simps)
    from "1.IH" [OF True refl refl refl this inv2]
    show ?thesis using flood_fill_loop_step [OF True s2(1)] by simp
  qed
qed

lemma hops_in_bounds: "hops w k a b \<Longrightarrow> is_within_bounds a \<and> is_within_bounds b"
  by (induction rule: hops.induct) auto

lemma hops_front:
  assumes "hops w k n b" and "n = neighbor a dir" and "\<not> w a dir" and "is_within_bounds a"
  shows "hops w (Suc k) a b"
  using assms
proof (induction rule: hops.induct)
  case (hops_0 c)
  have "hops w 0 a a" using hops_0.prems(3) by (rule hops.hops_0)
  then have "hops w (Suc 0) a (neighbor a dir)"
    using hops_0.prems(2) hops_0.hyps hops_0.prems(1) by (intro hops.hops_Suc) simp_all
  then show ?case using hops_0.prems(1) by simp
next
  case (hops_Suc k c b dir')
  then show ?case by (intro hops.hops_Suc) simp_all
qed

lemma hops_sym:
  assumes "wall_symmetric m" and "hops (walls m) k a b"
  shows "hops (walls m) k b a"
  using assms(2)
proof (induction rule: hops.induct)
  case (hops_0 a)
  then show ?case by (rule hops.hops_0)
next
  case (hops_Suc k a b dir)
  let ?n = "neighbor b dir"
  have b: "is_within_bounds b" using hops_Suc.hyps(1) by (simp add: hops_in_bounds)
  with assms(1) hops_Suc.hyps(3) have "walls m b dir = walls m ?n (get_opposite_direction dir)"
    unfolding wall_symmetric_iff by blast
  with hops_Suc.hyps(2) have "\<not> walls m ?n (get_opposite_direction dir)" by simp
  with hops_Suc.IH show ?case
    using hops_Suc.hyps(3) by (intro hops_front [where n = b and dir = "get_opposite_direction dir"]) simp_all
qed

lemma hops_0_iff: "hops w 0 a b \<longleftrightarrow> a = b \<and> is_within_bounds a"
  by (auto elim: hops.cases intro: hops.intros)

lemma bfs_final_complete:
  assumes inv: "bfs_inv w S s" and fin: "qFront s = qBack s"
    and path: "hops w k src c" and src: "src \<in> S"
  shows "dist s c \<le> int k \<and> dist s c \<noteq> 256"
  using path src
proof (induction rule: hops.induct)
  case (hops_0 a)
  have "\<forall>src \<in> S. is_within_bounds src \<and> dist s src = 0"
    using inv unfolding bfs_inv_def bfs_common_def by blast
  with hops_0.prems have "dist s a = 0" by blast
  then show ?case by simp
next
  case (hops_Suc k a b dir)
  have enq: "\<forall>c. is_within_bounds c \<longrightarrow> (dist s c \<noteq> 256 \<longleftrightarrow> c \<in> queue s ` {..<qBack s})"
    using inv unfolding bfs_inv_def bfs_common_def by blast
  have rel: "\<forall>i<qFront s. relaxed w s i UNIV"
    using inv unfolding bfs_inv_def by blast
  have b: "dist s b \<le> int k" "dist s b \<noteq> 256" using hops_Suc.IH hops_Suc.prems by auto
  have "is_within_bounds b" using hops_Suc.hyps(1) by (simp add: hops_in_bounds)
  with enq b(2) have "b \<in> queue s ` {..<qBack s}" by blast
  then obtain i where i: "i < qBack s" "b = queue s i" by auto
  with rel fin have "relaxed w s i UNIV" by simp
  with hops_Suc.hyps(2,3) i(2)
  have "dist s (neighbor b dir) \<le> dist s b + 1 \<and> dist s (neighbor b dir) \<noteq> 256"
    by (simp add: relaxed_def)
  with b(1) show ?case by simp
qed

lemma bfs_final_sound:
  assumes inv: "bfs_inv w S s" and c: "is_within_bounds c" "dist s c \<noteq> 256"
  shows "0 \<le> dist s c \<and> (\<exists>src \<in> S. hops w (nat (dist s c)) src c)"
proof -
  have enq: "\<forall>c. is_within_bounds c \<longrightarrow> (dist s c \<noteq> 256 \<longleftrightarrow> c \<in> queue s ` {..<qBack s})"
    and rng: "\<forall>i<qBack s. 0 \<le> dist s (queue s i) \<and> dist s (queue s i) \<le> int i"
    and snd: "\<forall>c. is_within_bounds c \<and> dist s c \<noteq> 256 \<longrightarrow> (\<exists>src \<in> S. hops w (nat (dist s c)) src c)"
    using inv unfolding bfs_inv_def bfs_common_def by blast+
  from enq c have "c \<in> queue s ` {..<qBack s}" by blast
  then obtain i where "i < qBack s" "c = queue s i" by auto
  with rng have "0 \<le> dist s c" by simp
  moreover from snd c have "\<exists>src \<in> S. hops w (nat (dist s c)) src c" by blast
  ultimately show ?thesis by simp
qed

text \<open>
  \<open>shortest_hops m S c d\<close>: \<open>d\<close> is the least number of open edges on a way from the cell
  \<open>c\<close> to a cell of \<open>S\<close>, and the sentinel 256 when no cell of \<open>S\<close> can be reached
  from \<open>c\<close>.
\<close>

definition shortest_hops :: "Maze \<Rightarrow> cell set \<Rightarrow> cell \<Rightarrow> int \<Rightarrow> bool" where
  "shortest_hops m S c d \<longleftrightarrow>
     (if \<exists>k g. g \<in> S \<and> hops (walls m) k c g
      then 0 \<le> d \<and> d < 256 \<and> (\<exists>g \<in> S. hops (walls m) (nat d) c g) \<and>
           (\<forall>k g. g \<in> S \<and> hops (walls m) k c g \<longrightarrow> d \<le> int k)
      else d = INVALID_DISTANCE)"

lemma bfs_final_shortest:
  assumes sym: "wall_symmetric m" and inv: "bfs_inv (walls m) S s" and fin: "qFront s = qBack s"
    and c: "is_within_bounds c"
  shows "shortest_hops m S c (dist s c)"
proof (cases "\<exists>k g. g \<in> S \<and> hops (walls m) k c g")
  case True
  then obtain k0 g0 where g0: "g0 \<in> S" "hops (walls m) k0 c g0" by blast
  from hops_sym [OF sym g0(2)] have "hops (walls m) k0 g0 c" .
  from bfs_final_complete [OF inv fin this g0(1)] have fin256: "dist s c \<noteq> 256" by simp
  from bfs_final_sound [OF inv c this] obtain src where
    pos: "0 \<le> dist s c" and src: "src \<in> S" "hops (walls m) (nat (dist s c)) src c" by blast
  have least: "dist s c \<le> int k" if "g \<in> S" "hops (walls m) k c g" for k g
    using bfs_final_complete [OF inv fin hops_sym [OF sym that(2)] that(1)] by simp
  have rng: "\<forall>i<qBack s. 0 \<le> dist s (queue s i) \<and> dist s (queue s i) \<le> int i"
    and enq: "\<forall>c. is_within_bounds c \<longrightarrow> (dist s c \<noteq> 256 \<longleftrightarrow> c \<in> queue s ` {..<qBack s})"
    and inj: "inj_on (queue s) {..<qBack s}" and inb: "\<forall>i<qBack s. is_within_bounds (queue s i)"
    using inv unfolding bfs_inv_def bfs_common_def by blast+
  from enq c fin256 have "c \<in> queue s ` {..<qBack s}" by blast
  then obtain i where i: "i < qBack s" "c = queue s i" by auto
  have "qBack s \<le> 256"
  proof -
    have "queue s ` {..<qBack s} \<subseteq> {c. is_within_bounds c}" using inb by auto
    then have "card (queue s ` {..<qBack s}) \<le> card {c. is_within_bounds c}"
      by (intro card_mono) (simp_all add: finite_cells)
    then show ?thesis using inj by (simp add: card_image card_cells)
  qed
  with i rng have lt: "dist s c < 256" by auto
  from hops_sym [OF sym src(2)] src(1) have "\<exists>g \<in> S. hops (walls m) (nat (dist s c)) c g" by blast
  with True pos lt least show ?thesis unfolding shortest_hops_def by auto
next
  case False
  have "dist s c = 256"
  proof (rule ccontr)
    assume "dist s c \<noteq> 256"
    from bfs_final_sound [OF inv c this] obtain src where
      "src \<in> S" "hops (walls m) (nat (dist s c)) src c" by blast
    with hops_sym [OF sym this(2)] False show False by blast
  qed
  with False show ?thesis unfolding shortest_hops_def by simp
qed

lemma bfs_inv_init:
  assumes dst: "distinct srcs" and inb: "\<forall>c \<in> set srcs. is_within_bounds c"
    and d: "\<And>c. is_within_bounds c \<Longrightarrow> dist s c = (if c \<in> set srcs then 0 else 256)"
    and q: "\<forall>i<length srcs. queue s i = srcs ! i"
    and idx: "qBack s = length srcs" "qFront s = 0"
  shows "bfs_inv w (set srcs) s"
proof -
  have q_in: "queue s i \<in> set srcs" if "i < qBack s" for i using that q idx by simp
  have dq: "dist s (queue s i) = 0" if "i < qBack s" for i
    using q_in [OF that] inb d [of "queue s i"] by auto
  have c1: "\<forall>i<qBack s. is_within_bounds (queue s i)" using q_in inb by auto
  have c2: "inj_on (queue s) {..<qBack s}"
    using dst q idx by (auto simp: inj_on_def nth_eq_iff_index_eq)
  have img: "queue s ` {..<qBack s} = set srcs"
  proof -
    have "queue s ` {..<qBack s} = (!) srcs ` {..<length srcs}"
      using q idx by (intro image_cong) simp_all
    also have "\<dots> = set srcs" by (auto simp: set_conv_nth)
    finally show ?thesis .
  qed
  have c3: "\<forall>c. is_within_bounds c \<longrightarrow> (dist s c \<noteq> 256 \<longleftrightarrow> c \<in> queue s ` {..<qBack s})"
    unfolding img by (simp add: d)
  have c4: "\<forall>i<qBack s. 0 \<le> dist s (queue s i) \<and> dist s (queue s i) \<le> int i"
    using dq by simp
  have c5: "\<forall>i j. i \<le> j \<and> j < qBack s \<longrightarrow> dist s (queue s i) \<le> dist s (queue s j)"
    using dq by simp
  have c6: "\<forall>c. is_within_bounds c \<and> dist s c \<noteq> 256 \<longrightarrow> (\<exists>src \<in> set srcs. hops w (nat (dist s c)) src c)"
  proof (intro allI impI)
    fix c assume c: "is_within_bounds c \<and> dist s c \<noteq> 256"
    with d [of c] have "c \<in> set srcs" "dist s c = 0" by (auto split: if_splits)
    moreover have "hops w 0 c c" using c by (intro hops_0) simp
    ultimately show "\<exists>src \<in> set srcs. hops w (nat (dist s c)) src c" by auto
  qed
  have c7: "\<forall>src \<in> set srcs. is_within_bounds src \<and> dist s src = 0"
    using inb by (simp add: d)
  have "bfs_common w (set srcs) s"
    unfolding bfs_common_def using c1 c2 c3 c4 c5 c6 c7 by blast
  moreover have "\<forall>j. qFront s \<le> j \<and> j < qBack s \<longrightarrow> dist s (queue s j) \<le> dist s (queue s (qFront s)) + 1"
  proof (intro allI impI)
    fix j assume j: "qFront s \<le> j \<and> j < qBack s"
    then have "0 < qBack s" by simp
    from dq [OF this] dq [of j] j idx(2)
    show "dist s (queue s j) \<le> dist s (queue s (qFront s)) + 1" by simp
  qed
  ultimately show ?thesis
    using idx by (simp add: bfs_inv_def)
qed

lemma wall_symmetric_walls: "walls m' = walls m \<Longrightarrow> wall_symmetric m' = wall_symmetric m"
  by (simp add: wall_symmetric_iff)

lemma shortest_hops_walls: "walls m' = walls m \<Longrightarrow> shortest_hops m' = shortest_hops m"
  by (intro ext) (simp only: shortest_hops_def)

lemma floodFill_run:
  assumes tgt: "is_within_bounds (targetX, targetY)"
  shows "\<exists>s'. floodFill m targetX targetY = Inr (m\<lparr>distances := dist s'\<rparr>) \<and>
              bfs_inv (walls m) {(targetX, targetY)} s' \<and> qFront s' = qBack s'"
proof -
  let ?s = "\<lparr>dist = (set_all (MAZE_WIDTH * MAZE_HEIGHT) (distances m))((targetX, targetY) := 0),
             queue = (\<lambda>i. (0, 0))(0 := (targetX, targetY)), qFront = 0, qBack = 1\<rparr>"
  have "bfs_inv (walls m) (set [(targetX, targetY)]) ?s"
    using tgt by (intro bfs_inv_init) (simp_all add: set_all_apply)
  from floodFill_loop_inv [OF this] obtain s' where
    s': "floodFill_loop (walls m) ?s = Inr s'" "bfs_inv (walls m) {(targetX, targetY)} s'"
        "qFront s' = qBack s'" by auto
  have "floodFill m targetX targetY = Inr (m\<lparr>distances := dist s'\<rparr>)"
    using s'(1) by (simp add: floodFill_def)
  with s'(2,3) show ?thesis by blast
qed

lemma floodFill_returns:
  assumes "is_within_bounds (targetX, targetY)"
  shows "\<exists>m'. floodFill m targetX targetY = Inr m' \<and> walls m' = walls m \<and> visited m' = visited m"
  using floodFill_run [OF assms, of m] by auto

lemma floodFill_correct:
  assumes sym: "wall_symmetric m" and tgt: "is_within_bounds (targetX, targetY)"
  shows "\<exists>m'. floodFill m targetX targetY = Inr m' \<and> walls m' = walls m \<and> visited m' = visited m \<and>
           (\<forall>c. is_within_bounds c \<longrightarrow> shortest_hops m {(targetX, targetY)} c (distances m' c))"
proof -
  from floodFill_run [OF tgt, of m] obtain s' where
    s': "floodFill m targetX targetY = Inr (m\<lparr>distances := dist s'\<rparr>)"
        "bfs_inv (walls m) {(targetX, targetY)} s'" "qFront s' = qBack s'" by blast
  have "shortest_hops m {(targetX, targetY)} c (dist s' c)" if "is_within_bounds c" for c
    using sym s'(2,3) that by (rule bfs_final_shortest)
  with s'(1) show ?thesis by simp
qed

lemma flood_fill_run:
  assumes tgt: "is_within_bounds target"
  shows "\<exists>s'. flood_fill m target = Inr (m\<lparr>distances := dist s'\<rparr>) \<and>
              bfs_inv (walls m) {target} s' \<and> qFront s' = qBack s'"
proof -
  let ?m0 = "m\<lparr>distances := set_all INVALID_DISTANCE (distances m)\<rparr>"
  let ?s = "\<lparr>dist = (distances ?m0)(target := 0),
             queue = (\<lambda>i. (0, 0))(0 := target), qFront = 0, qBack = 1\<rparr>"
  have "bfs_inv (walls ?m0) (set [target]) ?s"
    using tgt by (intro bfs_inv_init) (simp_all add: set_all_apply)
  from flood_fill_loop_inv [OF this] obtain s' where
    s': "flood_fill_loop ?m0 ?s = Inr s'" "bfs_inv (walls m) {target} s'"
        "qFront s' = qBack s'" by auto
  have "flood_fill m target = Inr (m\<lparr>distances := dist s'\<rparr>)"
    using s'(1) tgt by (simp add: flood_fill_def Let_def)
  with s'(2,3) show ?thesis by blast
qed

lemma flood_fill_returns:
  assumes "is_within_bounds target"
  shows "\<exists>m'. flood_fill m target = Inr m' \<and> walls m' = walls m \<and> visited m' = visited m"
  using flood_fill_run [OF assms, of m] by auto

lemma flood_fill_correct:
  assumes sym: "wall_symmetric m" and tgt: "is_within_bounds target"
  shows "\<exists>m'. flood_fill m target = Inr m' \<and> walls m' = walls m \<and> visited m' = visited m \<and>
           (\<forall>c. is_within_bounds c \<longrightarrow> shortest_hops m {target} c (distances m' c))"
proof -
  from flood_fill_run [OF tgt, of m] obtain s' where
    s': "flood_fill m target = Inr (m\<lparr>distances := dist s'\<rparr>)"
        "bfs_inv (walls m) {target} s'" "qFront s' = qBack s'" by blast
  have "shortest_hops m {target} c (dist s' c)" if "is_within_bounds c" for c
    using sym s'(2,3) that by (rule bfs_final_shortest)
  with s'(1) show ?thesis by simp
qed

lemma goal_cells_eq: "goal_cells = [(7, 7), (7, 8), (8, 7), (8, 8)]"
  by (simp add: goal_cells_def upto.simps)

lemma set_goal_cells: "set goal_cells = {c. is_at_goal c}"
  by (auto simp: goal_cells_eq is_at_goal_def)

lemma flood_fill_goal_run:
  "\<exists>s'. flood_fill_goal m = Inr (m\<lparr>distances := dist s'\<rparr>) \<and>
        bfs_inv (walls m) {g. is_at_goal g} s' \<and> qFront s' = qBack s'"
proof -
  let ?m0 = "m\<lparr>distances := set_all INVALID_DISTANCE (distances m)\<rparr>"
  let ?s = "fold seed goal_cells \<lparr>dist = distances ?m0, queue = (\<lambda>i. (0, 0)), qFront = 0, qBack = 0\<rparr>"
  have s_eq: "?s = \<lparr>dist = (distances ?m0)((7, 7) := 0, (7, 8) := 0, (8, 7) := 0, (8, 8) := 0),
                     queue = (\<lambda>i. (0, 0))(0 := (7, 7), 1 := (7, 8), 2 := (8, 7), 3 := (8, 8)),
                     qFront = 0, qBack = 4\<rparr>"
    by (simp add: goal_cells_eq seed_def is_within_bounds_def numeral_2_eq_2 numeral_3_eq_3)
  have "bfs_inv (walls ?m0) (set goal_cells) ?s"
    unfolding s_eq
  proof (rule bfs_inv_init)
    show "distinct goal_cells" by (simp add: goal_cells_eq)
    show "\<forall>c \<in> set goal_cells. is_within_bounds c"
      by (simp add: goal_cells_eq is_within_bounds_def)
    show "\<forall>i<length goal_cells. queue \<lparr>dist = (distances ?m0)((7, 7) := 0, (7, 8) := 0, (8, 7) := 0, (8, 8) := 0),
                     queue = (\<lambda>i. (0, 0))(0 := (7, 7), 1 := (7, 8), 2 := (8, 7), 3 := (8, 8)),
                     qFront = 0, qBack = 4\<rparr> i = goal_cells ! i"
      by (simp add: goal_cells_eq less_Suc_eq numeral_eq_Suc)
  qed (auto simp: goal_cells_eq set_all_apply)
  from flood_fill_loop_inv [OF this] obtain s' where
    s': "flood_fill_loop ?m0 ?s = Inr s'" "bfs_inv (walls m) {g. is_at_goal g} s'"
        "qFront s' = qBack s'" by (auto simp: set_goal_cells)
  have "qBack ?s \<noteq> 0" unfolding s_eq by simp
  then have "flood_fill_goal m = Inr (m\<lparr>distances := dist s'\<rparr>)"
    using s'(1) by (simp add: flood_fill_goal_def Let_def)
  with s'(2,3) show ?thesis by blast
qed

lemma flood_fill_goal_returns:
  "\<exists>m'. flood_fill_goal m = Inr m' \<and> walls m' = walls m \<and> visited m' = visited m"
  using flood_fill_goal_run [of m] by auto

lemma flood_fill_goal_correct:
  assumes sym: "wall_symmetric m"
  shows "\<exists>m'. flood_fill_goal m = Inr m' \<and> walls m' = walls m \<and> visited m' = visited m \<and>
           (\<forall>c. is_within_bounds c \<longrightarrow> shortest_hops m {g. is_at_goal g} c (distances m' c))"
proof -
  from flood_fill_goal_run [of m] obtain s' where
    s': "flood_fill_goal m = Inr (m\<lparr>distances := dist s'\<rparr>)"
        "bfs_inv (walls m) {g. is_at_goal g} s'" "qFront s' = qBack s'" by blast
  have "shortest_hops m {g. is_at_goal g} c (dist s' c)" if "is_within_bounds c" for c
    using sym s'(2,3) that by (rule bfs_final_shortest)
  with s'(1) show ?thesis by simp
qed

section \<open>Navigation steps\<close>

lemma turn_to_direction_frame [simp]:
  "pos (fst (turn_to_direction ms d)) = pos ms"
  "mode (fst (turn_to_direction ms d)) = mode ms"
  "goal_found (fst (turn_to_direction ms d)) = goal_found ms"
  "path_length (fst (turn_to_direction ms d)) = path_length ms"
  "shortest_path (fst (turn_to_direction ms d)) = shortest_path ms"
  by (simp_all add: turn_to_direction_def Let_def)

lemma turn_to_direction_orientation [simp]:
  "orientation (fst (turn_to_direction ms d)) = d"
  by (cases "orientation ms"; cases d)
     (simp_all add: turn_to_direction_def Let_def dir_plus_def index_dir_def)

lemma flood_fill_start_returns:
  "\<exists>m'. flood_fill_start m = Inr m' \<and> walls m' = walls m \<and> visited m' = visited m"
  unfolding flood_fill_start_def by (rule flood_fill_returns) (simp add: is_within_bounds_def)

lemma move_forward_update_state_moved:
  "move_forward_update_state True ms m =
     (let next_dir = fst (choose_next_direction ms m);
          ms1 = fst (turn_to_direction ms next_dir)
      in Inr (ms1\<lparr>pos := neighbor (pos ms) next_dir\<rparr>, m,
              snd (choose_next_direction ms m) @ snd (turn_to_direction ms next_dir) @
              [Log ''Moving forward'', API_moveForward]))"
  by (simp add: move_forward_update_state_def Let_def neighbor_def split: prod.splits)
     (metis fst_conv turn_to_direction_frame(1) turn_to_direction_orientation)

lemma move_forward_update_state_blocked:
  assumes "mode ms \<noteq> SPEED_MODE"
  shows "\<exists>m' tr.
     move_forward_update_state False ms m =
       Inr (fst (turn_to_direction ms (fst (choose_next_direction ms m))), m', tr) \<and>
     (if mode ms = SEARCH_MODE then flood_fill_goal else flood_fill_start)
       (set_wall m (pos ms) (fst (choose_next_direction ms m))) = Inr m' \<and>
     walls m' = walls (set_wall m (pos ms) (fst (choose_next_direction ms m))) \<and>
     visited m' = visited m"
proof -
  obtain next_dir tr1 where c: "choose_next_direction ms m = (next_dir, tr1)" by (cases "choose_next_direction ms m")
  obtain ms1 tr2 where t: "turn_to_direction ms next_dir = (ms1, tr2)" by (cases "turn_to_direction ms next_dir")
  have ms1: "pos ms1 = pos ms" "mode ms1 = mode ms" "orientation ms1 = next_dir"
    using turn_to_direction_frame(1,2) [of ms next_dir] turn_to_direction_orientation [of ms next_dir] t
    by simp_all
  let ?m1 = "set_wall m (pos ms) next_dir"
  show ?thesis
  proof (cases "mode ms = SEARCH_MODE")
    case True
    from flood_fill_goal_returns [of ?m1] obtain m' where
      "flood_fill_goal ?m1 = Inr m'" "walls m' = walls ?m1" "visited m' = visited ?m1" by blast
    then show ?thesis using True c t ms1 by (simp add: move_forward_update_state_def Let_def)
  next
    case False
    with assms have r: "mode ms = RETURN_MODE" by (cases "mode ms") simp_all
    from flood_fill_start_returns [of ?m1] obtain m' where
      "flood_fill_start ?m1 = Inr m'" "walls m' = walls ?m1" "visited m' = visited ?m1" by blast
    then show ?thesis using r c t ms1 by (simp add: move_forward_update_state_def Let_def)
  qed
qed


lemma goal_target_cases:
  "goal_target px py = (GOAL_X1, GOAL_Y1) \<or> goal_target px py = (GOAL_X1, GOAL_Y2) \<or>
   goal_target px py = (GOAL_X2, GOAL_Y1) \<or> goal_target px py = (GOAL_X2, GOAL_Y2)"
  by (simp add: goal_target_def Let_def split: prod.splits)

lemma goal_target_goal: "is_at_goal (goal_target px py)"
  using goal_target_cases [of px py] by (auto simp: is_at_goal_def)

lemma is_at_goal_in_bounds: "is_at_goal c \<Longrightarrow> is_within_bounds c"
  by (auto simp: is_at_goal_def is_within_bounds_def)

lemma goal_target_start: "goal_target 0 0 = (7, 7)"
  by (simp add: goal_target_def Let_def)

lemma floodFillToGoal_returns:
  "\<exists>m'. floodFillToGoal px py m = Inr m' \<and> walls m' = walls m \<and> visited m' = visited m"
proof -
  obtain tx ty where t: "goal_target px py = (tx, ty)" by (cases "goal_target px py")
  with goal_target_goal [of px py] have "is_within_bounds (tx, ty)"
    by (simp add: is_at_goal_in_bounds)
  from floodFill_returns [OF this, of m] show ?thesis by (simp add: floodFillToGoal_def t)
qed

lemma floodFillToStart_returns:
  "\<exists>m'. floodFillToStart m = Inr m' \<and> walls m' = walls m \<and> visited m' = visited m"
  unfolding floodFillToStart_def by (rule floodFill_returns) (simp add: is_within_bounds_def)

lemma turn_loop_same [simp]: "turn_loop d d = (d, [])"
  by (simp add: turn_loop.simps)

lemma turn_loop_dir [simp]: "fst (turn_loop d md) = md"
  by (cases d; cases md; simp add: turn_loop.simps dir_plus_def index_dir_def)

lemma select_step_cases:
  "select_step g dir acc = acc \<or>
   (selectable g dir \<and> snd (select_step g dir acc) = Some dir)"
  by (cases acc) (auto simp: select_step_def selectable_def Let_def neighbor_def is_within_bounds_def)

lemma select_step_blocked: "\<not> selectable g dir \<Longrightarrow> select_step g dir acc = acc"
  by (cases acc) (auto simp: select_step_def selectable_def Let_def neighbor_def is_within_bounds_def)

lemma select_fold_Some:
  assumes "snd (fold (select_step g) dirs acc) = Some md"
  shows "snd acc = Some md \<or> selectable g md"
  using assms
proof (induction dirs arbitrary: acc)
  case Nil
  then show ?case by simp
next
  case (Cons dir dirs)
  from Cons.IH [of "select_step g dir acc"] Cons.prems
  have "snd (select_step g dir acc) = Some md \<or> selectable g md" by simp
  then show ?case using select_step_cases [of g dir acc] by auto
qed

lemma select_fold_blocked:
  assumes "\<forall>dir. \<not> selectable g dir"
  shows "fold (select_step g) dirs acc = acc"
  using assms by (induction dirs arbitrary: acc) (simp_all add: select_step_blocked)

lemma moveToNextCell_hold:
  assumes "\<forall>dir. \<not> selectable g dir"
  shows "moveToNextCell moved g = Inr (g, [Log ''=== ERROR: no valid direction found! ===''])"
  unfolding moveToNextCell_def select_fold_blocked [OF assms] by simp

lemma moveToNextCell_blocked:
  assumes sel: "fold (select_step g) all_dirs (MAZE_WIDTH * MAZE_HEIGHT, None) = (minDist, Some md)"
    and md: "currentMode g \<noteq> SPEED_MODE"
  defines "g2 \<equiv> g\<lparr>direction := md, maze := (maze g)\<lparr>walls :=
                    write_edge (walls (maze g)) (posX g, posY g) md True\<rparr>\<rparr>"
  shows "\<exists>m'. moveToNextCell False g = Inr (g2\<lparr>maze := m'\<rparr>, snd (turn_loop (direction g) md) @ [API_moveForward]) \<and>
           (if currentMode g = SEARCH_MODE then floodFillToGoal (posX g) (posY g) (maze g2)
            else floodFillToStart (maze g2)) = Inr m' \<and>
           walls m' = walls (maze g2) \<and> visited m' = visited (maze g)"
proof -
  obtain d tr where t: "turn_loop (direction g) md = (d, tr)" by (cases "turn_loop (direction g) md")
  with turn_loop_dir [of "direction g" md] have d: "d = md" by simp
  show ?thesis
  proof (cases "currentMode g = SEARCH_MODE")
    case True
    from floodFillToGoal_returns [of "posX g" "posY g" "maze g2"] obtain m' where
      "floodFillToGoal (posX g) (posY g) (maze g2) = Inr m'" "walls m' = walls (maze g2)"
      "visited m' = visited (maze g2)" by blast
    then show ?thesis using True t d sel
      by (simp add: moveToNextCell_def Let_def g2_def del: fold_simps)
  next
    case False
    with md have r: "currentMode g = RETURN_MODE" by (cases "currentMode g") simp_all
    from floodFillToStart_returns [of "maze g2"] obtain m' where
      "floodFillToStart (maze g2) = Inr m'" "walls m' = walls (maze g2)"
      "visited m' = visited (maze g2)" by blast
    then show ?thesis using r t d sel
      by (simp add: moveToNextCell_def Let_def g2_def del: fold_simps)
  qed
qed

lemma initializeMaze_returns:
  "\<exists>m'. initializeMaze px py m = Inr m' \<and> walls m' = walls (initializeMaze_arrays m) \<and>
        visited m' = visited (initializeMaze_arrays m)"
  unfolding initializeMaze_def by (rule floodFillToGoal_returns)

lemma move_forward_update_state_walls:
  "\<exists>ms' m' tr. move_forward_update_state moved ms m = Inr (ms', m', tr) \<and>
     (walls m' = walls m \<or> (\<exists>dir. walls m' = walls (set_wall m (pos ms) dir)))"
proof (cases moved)
  case True
  then show ?thesis by (simp add: move_forward_update_state_moved Let_def)
next
  case False
  show ?thesis
  proof (cases "mode ms = SPEED_MODE")
    case speed: True
    obtain next_dir tr1 where c: "choose_next_direction ms m = (next_dir, tr1)"
      by (cases "choose_next_direction ms m")
    obtain ms1 tr2 where t: "turn_to_direction ms next_dir = (ms1, tr2)"
      by (cases "turn_to_direction ms next_dir")
    have "pos ms1 = pos ms" "mode ms1 = mode ms"
      using turn_to_direction_frame(1,2) [of ms next_dir] t by simp_all
    then show ?thesis using False speed c t
      by (auto simp: move_forward_update_state_def Let_def)
  next
    case nospeed: False
    from move_forward_update_state_blocked [OF this, of m] obtain m' tr where
      "move_forward_update_state False ms m =
         Inr (fst (turn_to_direction ms (fst (choose_next_direction ms m))), m', tr)"
      "walls m' = walls (set_wall m (pos ms) (fst (choose_next_direction ms m)))" by blast
    then show ?thesis using False by auto
  qed
qed

lemma moveToNextCell_walls:
  "\<exists>g' tr. moveToNextCell moved g = Inr (g', tr) \<and>
     (walls (maze g') = walls (maze g) \<or>
      (\<exists>md. walls (maze g') = write_edge (walls (maze g)) (posX g, posY g) md True))"
proof -
  obtain minDist minDir where sel:
    "fold (select_step g) all_dirs (MAZE_WIDTH * MAZE_HEIGHT, None) = (minDist, minDir)"
    by (cases "fold (select_step g) all_dirs (MAZE_WIDTH * MAZE_HEIGHT, None)")
  show ?thesis
  proof (cases minDir)
    case None
    with sel show ?thesis by (simp add: moveToNextCell_def del: fold_simps)
  next
    case (Some md)
    obtain d tr where t: "turn_loop (direction g) md = (d, tr)" by (cases "turn_loop (direction g) md")
    with turn_loop_dir [of "direction g" md] have d: "d = md" by simp
    show ?thesis
    proof (cases moved)
      case True
      with sel Some t show ?thesis by (simp add: moveToNextCell_def Let_def del: fold_simps)
    next
      case False
      show ?thesis
      proof (cases "currentMode g = SPEED_MODE")
        case speed: True
        with sel Some t False show ?thesis
          by (auto simp: moveToNextCell_def Let_def d simp del: fold_simps)
      next
        case nospeed: False
        from moveToNextCell_blocked [OF sel [unfolded Some] this] False
        show ?thesis by auto
      qed
    qed
  qed
qed

text \<open>
  C5. Wall symmetry: initialization establishes, and every operation that writes the wall
  array preserves, that for every cell \<open>c\<close> of the grid and direction \<open>d\<close> with the
  neighbour in the grid, the wall flag of \<open>c\<close> towards \<open>d\<close> equals the flag of the
  neighbour in the opposite direction. The operations are, in ffv3.c, init_maze, set_wall,
  update_walls_current_cell and move_forward_update_state, and in ff.c, initializeMaze,
  updateWalls and moveToNextCell.
\<close>

theorem wall_symmetry_invariant:
  "wall_symmetric (init_maze m0) \<and>
   (\<exists>m'. initializeMaze px py m0 = Inr m' \<and> wall_symmetric m') \<and>
   (wall_symmetric m \<longrightarrow>
      wall_symmetric (set_wall m p dir) \<and>
      wall_symmetric (update_walls_current_cell sn ms m) \<and>
      (\<exists>ms' m' tr. move_forward_update_state moved ms m = Inr (ms', m', tr) \<and> wall_symmetric m')) \<and>
   (wall_symmetric (maze g) \<longrightarrow>
      wall_symmetric (maze (updateWalls sn g)) \<and>
      (\<exists>g' tr. moveToNextCell moved g = Inr (g', tr) \<and> wall_symmetric (maze g')))"
proof (intro conjI impI)
  show "wall_symmetric (init_maze m0)" by (rule init_maze_symmetric)
  from initializeMaze_returns [of px py m0] obtain m' where
    m': "initializeMaze px py m0 = Inr m'" "walls m' = walls (initializeMaze_arrays m0)" by blast
  from m'(2) have "wall_symmetric m'"
    by (simp add: wall_symmetric_walls [of m' "initializeMaze_arrays m0"] initializeMaze_arrays_symmetric)
  with m'(1) show "\<exists>m'. initializeMaze px py m0 = Inr m' \<and> wall_symmetric m'" by blast
next
  assume sym: "wall_symmetric m"
  show "wall_symmetric (set_wall m p dir)" using sym by (rule set_wall_symmetric)
  show "wall_symmetric (update_walls_current_cell sn ms m)"
    using sym by (rule update_walls_current_cell_symmetric)
  from move_forward_update_state_walls [of moved ms m] obtain ms' m' tr where
    r: "move_forward_update_state moved ms m = Inr (ms', m', tr)"
       "walls m' = walls m \<or> (\<exists>dir. walls m' = walls (set_wall m (pos ms) dir))" by blast
  from r(2) have "wall_symmetric m'"
  proof
    assume "walls m' = walls m"
    then show ?thesis using sym by (simp add: wall_symmetric_walls [of m' m])
  next
    assume "\<exists>dir. walls m' = walls (set_wall m (pos ms) dir)"
    then obtain dir' where "walls m' = walls (set_wall m (pos ms) dir')" by blast
    then show ?thesis
      using set_wall_symmetric [OF sym, of "pos ms" dir']
      by (simp add: wall_symmetric_walls [of m' "set_wall m (pos ms) dir'"])
  qed
  with r(1) show "\<exists>ms' m' tr. move_forward_update_state moved ms m = Inr (ms', m', tr) \<and> wall_symmetric m'"
    by blast
next
  assume sym: "wall_symmetric (maze g)"
  show "wall_symmetric (maze (updateWalls sn g))" using sym by (rule updateWalls_symmetric)
  from moveToNextCell_walls [of moved g] obtain g' tr where
    r: "moveToNextCell moved g = Inr (g', tr)"
       "walls (maze g') = walls (maze g) \<or>
        (\<exists>md. walls (maze g') = write_edge (walls (maze g)) (posX g, posY g) md True)" by blast
  from r(2) have "wall_symmetric (maze g')"
  proof
    assume "walls (maze g') = walls (maze g)"
    then show ?thesis using sym by (simp add: wall_symmetric_walls [of "maze g'" "maze g"])
  next
    assume "\<exists>md. walls (maze g') = write_edge (walls (maze g)) (posX g, posY g) md True"
    then obtain md where md: "walls (maze g') = write_edge (walls (maze g)) (posX g, posY g) md True"
      by blast
    let ?m = "(maze g)\<lparr>walls := write_edge (walls (maze g)) (posX g, posY g) md True\<rparr>"
    have "wall_symmetric ?m" using sym by (rule write_edge_symmetric)
    moreover have "walls (maze g') = walls ?m" using md by simp
    ultimately show ?thesis by (simp add: wall_symmetric_walls [of "maze g'" ?m])
  qed
  with r(1) show "\<exists>g' tr. moveToNextCell moved g = Inr (g', tr) \<and> wall_symmetric (maze g')" by blast
qed

theorem wall_symmetry_invariant_witness:
  "wall_symmetric (set_wall (init_maze blank_maze) (3, 4) EAST) \<and>
   has_wall (set_wall (init_maze blank_maze) (3, 4) EAST) (3, 4) EAST \<and>
   has_wall (set_wall (init_maze blank_maze) (3, 4) EAST) (4, 4) WEST \<and>
   wall_symmetric (maze (updateWalls \<lparr>wallFront = True, wallRight = False, wallLeft = True\<rparr>
      (blank_globals\<lparr>maze := initializeMaze_arrays blank_maze\<rparr>)))"
proof -
  have 1: "wall_symmetric (init_maze blank_maze)" by (rule init_maze_symmetric)
  have 2: "wall_symmetric (maze (blank_globals\<lparr>maze := initializeMaze_arrays blank_maze\<rparr>))"
    by (simp add: initializeMaze_arrays_symmetric)
  have 3: "has_wall (set_wall (init_maze blank_maze) (3, 4) EAST) (3, 4) EAST"
    "has_wall (set_wall (init_maze blank_maze) (3, 4) EAST) (4, 4) WEST"
    by (simp_all add: has_wall_def walls_set_wall is_within_bounds_def neighbor_def)
  from wall_symmetry_invariant [where ?m0.0 = blank_maze and px = 0 and py = 0
      and m = "init_maze blank_maze" and p = "(3, 4)" and dir = EAST
      and sn = "\<lparr>wallFront = True, wallRight = False, wallLeft = True\<rparr>"
      and ms = blank_mouse and moved = False
      and g = "blank_globals\<lparr>maze := initializeMaze_arrays blank_maze\<rparr>"] 1 2 3
  show ?thesis by blast
qed

section \<open>Boundary walls\<close>

lemma set_wall_mono: "walls m c d \<Longrightarrow> walls (set_wall m p dir) c d"
  by (simp add: walls_set_wall)

lemma boundary_walled_mono:
  assumes "boundary_walled m" and "\<And>c d. walls m c d \<Longrightarrow> walls m' c d"
  shows "boundary_walled m'"
  using assms unfolding boundary_walled_iff by blast

lemma boundary_walled_walls: "walls m' = walls m \<Longrightarrow> boundary_walled m' = boundary_walled m"
  by (simp add: boundary_walled_iff)

lemma set_wall_boundary: "boundary_walled m \<Longrightarrow> boundary_walled (set_wall m p dir)"
  by (erule boundary_walled_mono) (rule set_wall_mono)

lemma update_walls_current_cell_boundary:
  "boundary_walled m \<Longrightarrow> boundary_walled (update_walls_current_cell sn ms m)"
  by (simp add: update_walls_current_cell_def Let_def set_wall_boundary)

lemma init_maze_boundary: "boundary_walled (init_maze m)"
  unfolding boundary_walled_iff by (simp add: walls_init_maze is_boundary_edge_def)

lemma initializeMaze_arrays_boundary: "boundary_walled (initializeMaze_arrays m)"
  unfolding boundary_walled_iff by (simp add: walls_initializeMaze_arrays is_boundary_edge_def)

lemma write_edge_True_mono: "w c d \<Longrightarrow> write_edge w p dir True c d"
  by (simp add: write_edge_apply)

lemma write_edge_boundary:
  assumes "boundary_walled m" and "is_within_bounds p" and "is_boundary_edge p dir \<longrightarrow> b"
  shows "boundary_walled (m\<lparr>walls := write_edge (walls m) p dir b\<rparr>)"
  unfolding boundary_walled_iff
proof (intro allI impI)
  fix c d assume e: "is_boundary_edge c d"
  with assms(1) have w: "walls m c d" unfolding boundary_walled_iff by blast
  have "\<not> (c = neighbor p dir \<and> d = get_opposite_direction dir)"
    using e assms(2) by (auto simp: is_boundary_edge_def)
  with w assms(3) e show "walls (m\<lparr>walls := write_edge (walls m) p dir b\<rparr>) c d"
    by (auto simp: write_edge_apply)
qed

lemma updateWalls_boundary:
  assumes bw: "boundary_walled (maze g)" and inb: "is_within_bounds (posX g, posY g)"
    and sn: "sensed_boundary_walls sn g"
  shows "boundary_walled (maze (updateWalls sn g))"
proof -
  have step: "boundary_walled (m\<lparr>walls := if b then write_edge (walls m) p dir True
                                           else write_edge (walls m) p dir False\<rparr>)"
    if "boundary_walled m" "is_within_bounds p" "is_boundary_edge p dir \<longrightarrow> b" for m p dir b
    using write_edge_boundary [OF that] by (cases b) simp_all
  let ?p = "(posX g, posY g)"
  let ?m1 = "(maze g)\<lparr>walls := if wallFront sn then write_edge (walls (maze g)) ?p (direction g) True
                  else write_edge (walls (maze g)) ?p (direction g) False\<rparr>"
  let ?m2 = "?m1\<lparr>walls := if wallRight sn then write_edge (walls ?m1) ?p (dir_plus (direction g) 1) True
                  else write_edge (walls ?m1) ?p (dir_plus (direction g) 1) False\<rparr>"
  let ?m3 = "?m2\<lparr>walls := if wallLeft sn then write_edge (walls ?m2) ?p (dir_plus (direction g) 3) True
                  else write_edge (walls ?m2) ?p (dir_plus (direction g) 3) False\<rparr>"
  have "boundary_walled ?m3"
    using sn unfolding sensed_boundary_walls_def by (intro step bw inb) simp_all
  moreover have "maze (updateWalls sn g) = ?m3"
    by (simp add: updateWalls_def Let_def)
  ultimately show ?thesis by simp
qed

text \<open>
  C6 as amended. The edges between the grid and the outside are walled after
  initialization (init_maze of ffv3.c, initializeMaze of ff.c). In ffv3.c no operation clears
  a wall flag: set_wall, update_walls_current_cell, move_forward_update_state and the flood
  fills keep every boundary wall, whatever the sensors report. In ff.c moveToNextCell keeps
  them, and updateWalls keeps them when the mouse is in the grid and the sensors report a
  wall on each sensed edge that leaves the grid.
\<close>

theorem boundary_walls_kept:
  "boundary_walled (init_maze m0) \<and>
   (\<exists>m'. initializeMaze px py m0 = Inr m' \<and> boundary_walled m') \<and>
   (boundary_walled m \<longrightarrow>
      boundary_walled (set_wall m p dir) \<and>
      boundary_walled (update_walls_current_cell sn ms m) \<and>
      (\<exists>ms' m' tr. move_forward_update_state moved ms m = Inr (ms', m', tr) \<and> boundary_walled m') \<and>
      (\<exists>m'. flood_fill_goal m = Inr m' \<and> boundary_walled m') \<and>
      (\<exists>m'. flood_fill_start m = Inr m' \<and> boundary_walled m')) \<and>
   (boundary_walled (maze g) \<longrightarrow>
      (\<exists>g' tr. moveToNextCell moved g = Inr (g', tr) \<and> boundary_walled (maze g')) \<and>
      (is_within_bounds (posX g, posY g) \<and> sensed_boundary_walls sn g \<longrightarrow>
         boundary_walled (maze (updateWalls sn g))))"
proof (intro conjI impI)
  show "boundary_walled (init_maze m0)" by (rule init_maze_boundary)
  from initializeMaze_returns [of px py m0] obtain m' where
    m': "initializeMaze px py m0 = Inr m'" "walls m' = walls (initializeMaze_arrays m0)" by blast
  from m'(2) have "boundary_walled m'"
    by (simp add: boundary_walled_walls [of m' "initializeMaze_arrays m0"] initializeMaze_arrays_boundary)
  with m'(1) show "\<exists>m'. initializeMaze px py m0 = Inr m' \<and> boundary_walled m'" by blast
next
  assume bw: "boundary_walled m"
  show "boundary_walled (set_wall m p dir)" using bw by (rule set_wall_boundary)
  show "boundary_walled (update_walls_current_cell sn ms m)"
    using bw by (rule update_walls_current_cell_boundary)
  from move_forward_update_state_walls [of moved ms m] obtain ms' m' tr where
    r: "move_forward_update_state moved ms m = Inr (ms', m', tr)"
       "walls m' = walls m \<or> (\<exists>dir. walls m' = walls (set_wall m (pos ms) dir))" by blast
  from r(2) have "boundary_walled m'"
  proof
    assume "walls m' = walls m"
    then show ?thesis using bw by (simp add: boundary_walled_walls [of m' m])
  next
    assume "\<exists>dir. walls m' = walls (set_wall m (pos ms) dir)"
    then obtain dir' where "walls m' = walls (set_wall m (pos ms) dir')" by blast
    then show ?thesis
      using set_wall_boundary [OF bw, of "pos ms" dir']
      by (simp add: boundary_walled_walls [of m' "set_wall m (pos ms) dir'"])
  qed
  with r(1) show "\<exists>ms' m' tr. move_forward_update_state moved ms m = Inr (ms', m', tr) \<and> boundary_walled m'"
    by blast
  from flood_fill_goal_returns [of m] bw
  show "\<exists>m'. flood_fill_goal m = Inr m' \<and> boundary_walled m'"
    by (auto simp: boundary_walled_iff)
  from flood_fill_start_returns [of m] bw
  show "\<exists>m'. flood_fill_start m = Inr m' \<and> boundary_walled m'"
    by (auto simp: boundary_walled_iff)
next
  assume bw: "boundary_walled (maze g)"
  from moveToNextCell_walls [of moved g] obtain g' tr where
    r: "moveToNextCell moved g = Inr (g', tr)"
       "walls (maze g') = walls (maze g) \<or>
        (\<exists>md. walls (maze g') = write_edge (walls (maze g)) (posX g, posY g) md True)" by blast
  from r(2) have "boundary_walled (maze g')"
  proof
    assume "walls (maze g') = walls (maze g)"
    then show ?thesis using bw by (simp add: boundary_walled_walls [of "maze g'" "maze g"])
  next
    assume "\<exists>md. walls (maze g') = write_edge (walls (maze g)) (posX g, posY g) md True"
    then obtain md where md: "walls (maze g') = write_edge (walls (maze g)) (posX g, posY g) md True"
      by blast
    show ?thesis
      using bw by (rule boundary_walled_mono) (simp add: md write_edge_True_mono)
  qed
  with r(1) show "\<exists>g' tr. moveToNextCell moved g = Inr (g', tr) \<and> boundary_walled (maze g')" by blast
next
  assume "boundary_walled (maze g)" "is_within_bounds (posX g, posY g) \<and> sensed_boundary_walls sn g"
  then show "boundary_walled (maze (updateWalls sn g))"
    by (intro updateWalls_boundary) simp_all
qed

theorem boundary_walls_kept_witness:
  "boundary_walled (set_wall (init_maze blank_maze) (3, 4) EAST) \<and>
   boundary_walled (update_walls_current_cell \<lparr>wallFront = False, wallRight = False, wallLeft = True\<rparr>
      blank_mouse (init_maze blank_maze)) \<and>
   boundary_walled (maze (updateWalls \<lparr>wallFront = False, wallRight = False, wallLeft = True\<rparr>
      (blank_globals\<lparr>maze := initializeMaze_arrays blank_maze\<rparr>)))"
proof -
  let ?sn = "\<lparr>wallFront = False, wallRight = False, wallLeft = True\<rparr>"
  let ?g = "blank_globals\<lparr>maze := initializeMaze_arrays blank_maze\<rparr>"
  have 1: "boundary_walled (init_maze blank_maze)" by (rule init_maze_boundary)
  have 2: "boundary_walled (maze ?g)" by (simp add: initializeMaze_arrays_boundary)
  have 3: "is_within_bounds (posX ?g, posY ?g)"
    by (simp add: blank_globals_def is_within_bounds_def)
  have 4: "sensed_boundary_walls ?sn ?g"
    by (simp add: sensed_boundary_walls_def blank_globals_def is_boundary_edge_iff
        dir_plus_def index_dir_def)
  from boundary_walls_kept [where ?m0.0 = blank_maze and px = 0 and py = 0
      and m = "init_maze blank_maze" and p = "(3, 4)" and dir = EAST
      and sn = ?sn and ms = blank_mouse and moved = False and g = ?g] 1 2 3 4
  show ?thesis by blast
qed

text \<open>
  C6 as stated fails in ff.c: at the start cell, facing north, a reading ``no wall on the
  left'' makes updateWalls clear the wall of the west boundary edge of \<open>(0, 0)\<close>.
\<close>

theorem boundary_wall_cleared:
  "boundary_walled (initializeMaze_arrays blank_maze) \<and>
   is_boundary_edge (0, 0) WEST \<and>
   \<not> walls (maze (updateWalls \<lparr>wallFront = False, wallRight = False, wallLeft = False\<rparr>
              (blank_globals\<lparr>maze := initializeMaze_arrays blank_maze\<rparr>))) (0, 0) WEST"
  by (simp add: initializeMaze_arrays_boundary is_boundary_edge_iff is_within_bounds_def
      updateWalls_def Let_def blank_globals_def write_edge_apply dir_plus_def index_dir_def
      neighbor_def)

section \<open>No selectable direction\<close>

lemma choose_step_blocked:
  "has_wall m (pos ms) dir \<or> \<not> is_within_bounds (neighbor (pos ms) dir) \<Longrightarrow>
   choose_step ms m dir acc = acc"
  by (cases acc) (auto simp: choose_step_def Let_def neighbor_def)

lemma choose_fold_blocked:
  assumes "\<forall>dir. has_wall m (pos ms) dir \<or> \<not> is_within_bounds (neighbor (pos ms) dir)"
  shows "fold (choose_step ms m) dirs acc = acc"
  using assms by (induction dirs arbitrary: acc) (simp_all add: choose_step_blocked)

lemma choose_next_direction_stuck:
  assumes "\<forall>dir. has_wall m (pos ms) dir \<or> \<not> is_within_bounds (neighbor (pos ms) dir)"
  shows "choose_next_direction ms m =
           (get_opposite_direction (orientation ms), [Log ''ERROR: No valid move found! Stuck?''])"
  unfolding choose_next_direction_def choose_fold_blocked [OF assms] by simp

lemma turn_to_direction_opposite:
  "turn_to_direction ms (get_opposite_direction (orientation ms)) =
     (ms\<lparr>orientation := get_opposite_direction (orientation ms)\<rparr>,
      [Log ''Turning around (two rights)'', API_turnRight, API_turnRight])"
  by (cases "orientation ms") (simp_all add: turn_to_direction_def Let_def dir_plus_def index_dir_def)

lemma move_forward_update_state_returns:
  "\<exists>ms' m' tr'. move_forward_update_state moved ms m =
      Inr (ms', m', snd (choose_next_direction ms m) @
                    snd (turn_to_direction ms (fst (choose_next_direction ms m))) @
                    [Log ''Moving forward'', API_moveForward] @ tr') \<and>
      orientation ms' = fst (choose_next_direction ms m)"
proof -
  obtain next_dir tr1 where c: "choose_next_direction ms m = (next_dir, tr1)"
    by (cases "choose_next_direction ms m")
  obtain ms1 tr2 where t: "turn_to_direction ms next_dir = (ms1, tr2)"
    by (cases "turn_to_direction ms next_dir")
  have o: "orientation ms1 = next_dir"
    using turn_to_direction_orientation [of ms next_dir] t by simp
  obtain g where g: "flood_fill_goal (set_wall m (pos ms1) next_dir) = Inr g"
    using flood_fill_goal_returns by blast
  obtain h where h: "flood_fill_start (set_wall m (pos ms1) next_dir) = Inr h"
    using flood_fill_start_returns by blast
  show ?thesis
    using c t o g h by (simp add: move_forward_update_state_def Let_def)
qed

text \<open>
  C8 as amended. When every direction at the current cell is blocked by a known wall or
  leads out of the grid, moveToNextCell of ff.c logs the error and returns the state as it
  is, with no turn and no move. In ffv3.c choose_next_direction logs the error and falls
  back to the direction opposite to the orientation; move_forward_update_state then turns
  around with two right turns and calls the move actuator.
\<close>

theorem no_selectable_direction:
  "((\<forall>dir \<in> set all_dirs. walls (maze g) (posX g, posY g) dir \<or>
        \<not> is_within_bounds (neighbor (posX g, posY g) dir)) \<longrightarrow>
      moveToNextCell moved g = Inr (g, [Log ''=== ERROR: no valid direction found! ==='']))
   \<and>
   ((\<forall>dir \<in> set all_dirs. has_wall m (pos ms) dir \<or> \<not> is_within_bounds (neighbor (pos ms) dir)) \<longrightarrow>
      choose_next_direction ms m =
        (get_opposite_direction (orientation ms), [Log ''ERROR: No valid move found! Stuck?'']) \<and>
      (\<exists>ms' m' tr'. move_forward_update_state moved ms m =
          Inr (ms', m',
               [Log ''ERROR: No valid move found! Stuck?'', Log ''Turning around (two rights)'',
                API_turnRight, API_turnRight, Log ''Moving forward'', API_moveForward] @ tr') \<and>
          orientation ms' = get_opposite_direction (orientation ms)))"
proof (intro conjI impI)
  assume "\<forall>dir \<in> set all_dirs. walls (maze g) (posX g, posY g) dir \<or>
        \<not> is_within_bounds (neighbor (posX g, posY g) dir)"
  then have "\<forall>dir. \<not> selectable g dir"
    unfolding ball_all_dirs by (simp add: selectable_def)
  then show "moveToNextCell moved g = Inr (g, [Log ''=== ERROR: no valid direction found! ===''])"
    by (rule moveToNextCell_hold)
next
  assume "\<forall>dir \<in> set all_dirs. has_wall m (pos ms) dir \<or> \<not> is_within_bounds (neighbor (pos ms) dir)"
  then have stuck: "\<forall>dir. has_wall m (pos ms) dir \<or> \<not> is_within_bounds (neighbor (pos ms) dir)"
    unfolding ball_all_dirs .
  show c: "choose_next_direction ms m =
        (get_opposite_direction (orientation ms), [Log ''ERROR: No valid move found! Stuck?''])"
    using stuck by (rule choose_next_direction_stuck)
  from move_forward_update_state_returns [of moved ms m]
  show "\<exists>ms' m' tr'. move_forward_update_state moved ms m =
          Inr (ms', m',
               [Log ''ERROR: No valid move found! Stuck?'', Log ''Turning around (two rights)'',
                API_turnRight, API_turnRight, Log ''Moving forward'', API_moveForward] @ tr') \<and>
          orientation ms' = get_opposite_direction (orientation ms)"
    by (simp add: c turn_to_direction_opposite)
qed

lemma enclosed_walls: "walls enclosed_maze (0, 0) dir"
  by (cases dir)
     (simp_all add: enclosed_maze_def walls_set_wall walls_init_maze is_boundary_edge_iff
        is_within_bounds_def)

theorem no_selectable_direction_witness:
  "moveToNextCell False (blank_globals\<lparr>maze := enclosed_maze\<rparr>) =
     Inr (blank_globals\<lparr>maze := enclosed_maze\<rparr>, [Log ''=== ERROR: no valid direction found! ==='']) \<and>
   choose_next_direction blank_mouse enclosed_maze =
     (SOUTH, [Log ''ERROR: No valid move found! Stuck?''])"
proof -
  have 1: "\<forall>dir \<in> set all_dirs. walls (maze (blank_globals\<lparr>maze := enclosed_maze\<rparr>))
              (posX (blank_globals\<lparr>maze := enclosed_maze\<rparr>), posY (blank_globals\<lparr>maze := enclosed_maze\<rparr>)) dir \<or>
        \<not> is_within_bounds (neighbor (posX (blank_globals\<lparr>maze := enclosed_maze\<rparr>),
                                       posY (blank_globals\<lparr>maze := enclosed_maze\<rparr>)) dir)"
    by (simp add: blank_globals_def enclosed_walls)
  have 2: "\<forall>dir \<in> set all_dirs. has_wall enclosed_maze (pos blank_mouse) dir \<or>
        \<not> is_within_bounds (neighbor (pos blank_mouse) dir)"
    by (simp add: blank_mouse_def has_wall_def enclosed_walls)
  have 3: "get_opposite_direction (orientation blank_mouse) = SOUTH"
    by (simp add: blank_mouse_def)
  from no_selectable_direction [where g = "blank_globals\<lparr>maze := enclosed_maze\<rparr>"
      and moved = False and m = enclosed_maze and ms = blank_mouse] 1 2 3
  show ?thesis by simp
qed

text \<open>
  C8 as stated fails in ffv3.c: in the start cell enclosed by four walls, facing north, the
  step of ffv3.c turns to the south with two right turns and calls the move actuator.
\<close>

theorem stuck_mouse_turns_and_moves:
  "(case move_forward_update_state False blank_mouse enclosed_maze of
      Inl e \<Rightarrow> False
    | Inr r \<Rightarrow>
        orientation (fst r) = SOUTH \<and> orientation blank_mouse = NORTH \<and>
        take 6 (snd (snd r)) =
          [Log ''ERROR: No valid move found! Stuck?'', Log ''Turning around (two rights)'',
           API_turnRight, API_turnRight, Log ''Moving forward'', API_moveForward])"
proof -
  have stuck: "\<forall>dir. has_wall enclosed_maze (pos blank_mouse) dir \<or>
        \<not> is_within_bounds (neighbor (pos blank_mouse) dir)"
    by (simp add: blank_mouse_def has_wall_def enclosed_walls)
  have c: "choose_next_direction blank_mouse enclosed_maze =
        (get_opposite_direction (orientation blank_mouse), [Log ''ERROR: No valid move found! Stuck?''])"
    using stuck by (rule choose_next_direction_stuck)
  from move_forward_update_state_returns [of False blank_mouse enclosed_maze]
  obtain ms' m' tr' where
    "move_forward_update_state False blank_mouse enclosed_maze =
       Inr (ms', m',
            [Log ''ERROR: No valid move found! Stuck?'', Log ''Turning around (two rights)'',
             API_turnRight, API_turnRight, Log ''Moving forward'', API_moveForward] @ tr')"
    "orientation ms' = get_opposite_direction (orientation blank_mouse)"
    by (auto simp: c turn_to_direction_opposite)
  then show ?thesis by (simp add: blank_mouse_def)
qed

section \<open>The flood fills after a blocked move\<close>

lemma flood_fill_start_correct:
  assumes "wall_symmetric m"
  shows "\<exists>m'. flood_fill_start m = Inr m' \<and> walls m' = walls m \<and> visited m' = visited m \<and>
           (\<forall>c. is_within_bounds c \<longrightarrow> shortest_hops m {(0, 0)} c (distances m' c))"
  unfolding flood_fill_start_def
  by (rule flood_fill_correct [OF assms]) (simp add: is_within_bounds_def)

lemma floodFillToStart_correct:
  assumes "wall_symmetric m"
  shows "\<exists>m'. floodFillToStart m = Inr m' \<and> walls m' = walls m \<and> visited m' = visited m \<and>
           (\<forall>c. is_within_bounds c \<longrightarrow> shortest_hops m {(0, 0)} c (distances m' c))"
  unfolding floodFillToStart_def
  by (rule floodFill_correct [OF assms]) (simp add: is_within_bounds_def)

lemma floodFillToGoal_correct:
  assumes "wall_symmetric m"
  shows "\<exists>m'. floodFillToGoal px py m = Inr m' \<and> walls m' = walls m \<and> visited m' = visited m \<and>
           (\<forall>c. is_within_bounds c \<longrightarrow> shortest_hops m {goal_target px py} c (distances m' c))"
proof -
  obtain tx ty where t: "goal_target px py = (tx, ty)" by (cases "goal_target px py")
  with goal_target_goal [of px py] have "is_within_bounds (tx, ty)"
    by (simp add: is_at_goal_in_bounds)
  from floodFill_correct [OF assms this] show ?thesis by (simp add: floodFillToGoal_def t)
qed

lemma moveToNextCell_returns:
  "\<exists>g' tr. moveToNextCell moved g = Inr (g', tr) \<and>
     currentMode g' = currentMode g \<and>
     (\<not> moved \<longrightarrow> posX g' = posX g \<and> posY g' = posY g) \<and>
     (API_moveForward \<in> set tr \<longrightarrow>
        (\<exists>minDist. fold (select_step g) all_dirs (MAZE_WIDTH * MAZE_HEIGHT, None) =
            (minDist, Some (direction g'))))"
proof -
  obtain minDist minDir where sel:
    "fold (select_step g) all_dirs (MAZE_WIDTH * MAZE_HEIGHT, None) = (minDist, minDir)"
    by (cases "fold (select_step g) all_dirs (MAZE_WIDTH * MAZE_HEIGHT, None)")
  show ?thesis
  proof (cases minDir)
    case None
    with sel show ?thesis by (simp add: moveToNextCell_def del: fold_simps)
  next
    case (Some md)
    obtain d tr where t: "turn_loop (direction g) md = (d, tr)" by (cases "turn_loop (direction g) md")
    with turn_loop_dir [of "direction g" md] have d: "d = md" by simp
    let ?g2 = "g\<lparr>direction := md, maze := (maze g)\<lparr>walls :=
                    write_edge (walls (maze g)) (posX g, posY g) md True\<rparr>\<rparr>"
    obtain a where a: "floodFillToGoal (posX g) (posY g) (maze ?g2) = Inr a"
      using floodFillToGoal_returns by blast
    obtain b where b: "floodFillToStart (maze ?g2) = Inr b"
      using floodFillToStart_returns by blast
    from sel Some t d a b show ?thesis
      by (simp add: moveToNextCell_def Let_def del: fold_simps)
  qed
qed

lemma choose_start:
  "choose_next_direction blank_mouse (init_maze blank_maze) = (NORTH, [])"
  by (simp add: choose_next_direction_def choose_step_def blank_mouse_def has_wall_def
      walls_init_maze init_maze_others is_boundary_edge_iff is_within_bounds_def Let_def)

lemma select_start:
  "fold (select_step (blank_globals\<lparr>maze := initializeMaze_arrays blank_maze\<rparr>)) all_dirs
     (MAZE_WIDTH * MAZE_HEIGHT, None) = (255, Some NORTH)"
  by (simp add: select_step_def bonus_def blank_globals_def walls_initializeMaze_arrays
      initializeMaze_arrays_others is_boundary_edge_iff is_within_bounds_def Let_def)

section \<open>The exploration-biased flood fill\<close>

text \<open>The bonus that the exploration-biased relaxation subtracts for the cell \<open>n\<close>.\<close>

definition weight :: "Maze \<Rightarrow> cell \<Rightarrow> int" where
  "weight m n =
     (if \<not> visited m n then 2 + (MAZE_WIDTH + MAZE_HEIGHT - min_goal_dist n) div 2 else 0)"

definition settled :: "Maze \<Rightarrow> bfs_state \<Rightarrow> cell \<Rightarrow> Direction set \<Rightarrow> bool" where
  "settled m s c D \<longleftrightarrow>
     (\<forall>dir \<in> D. \<not> walls m c dir \<and> is_within_bounds (neighbor c dir) \<longrightarrow>
        dist s (neighbor c dir) \<le> dist s c + 1 - weight m (neighbor c dir))"

definition pending :: "bfs_state \<Rightarrow> cell \<Rightarrow> bool" where
  "pending s c \<longleftrightarrow> (\<exists>j. qFront s \<le> j \<and> j < qBack s \<and> queue s j = c)"

definition exp_inv :: "Maze \<Rightarrow> bfs_state \<Rightarrow> bool" where
  "exp_inv m s \<longleftrightarrow>
     qFront s \<le> qBack s \<and>
     (\<forall>c. is_within_bounds c \<and> dist s c \<noteq> 256 \<longrightarrow> c \<in> queue s ` {..<qBack s}) \<and>
     dist s (0, 0) \<le> 0 \<and>
     (\<forall>i<qBack s. pending s (queue s i) \<or> settled m s (queue s i) UNIV)"

definition exp_inner :: "Maze \<Rightarrow> cell \<Rightarrow> int \<Rightarrow> Direction set \<Rightarrow> bfs_state \<Rightarrow> bool" where
  "exp_inner m c d D s \<longleftrightarrow>
     qFront s \<le> qBack s \<and>
     (\<forall>c. is_within_bounds c \<and> dist s c \<noteq> 256 \<longrightarrow> c \<in> queue s ` {..<qBack s}) \<and>
     dist s (0, 0) \<le> 0 \<and>
     (\<forall>i<qBack s. queue s i = c \<or> pending s (queue s i) \<or> settled m s (queue s i) UNIV) \<and>
     settled m s c D \<and> dist s c = d"

lemma fold_min_le:
  "fold (\<lambda>dist minGoalDist. if dist < minGoalDist then dist else minGoalDist) xs a \<le> (a::int)"
proof (induction xs arbitrary: a)
  case Nil
  show ?case by simp
next
  case (Cons x xs)
  have "fold (\<lambda>dist minGoalDist. if dist < minGoalDist then dist else minGoalDist) xs
          (if x < a then x else a) \<le> (if x < a then x else a)"
    by (rule Cons.IH)
  then show ?case by (simp split: if_splits)
qed

lemma fold_min_le_hd:
  "fold (\<lambda>dist minGoalDist. if dist < minGoalDist then dist else minGoalDist) (x # xs) a \<le> (x::int)"
  using fold_min_le [of xs "if x < a then x else a"] by (simp split: if_splits)

lemma min_goal_dist_le: "min_goal_dist n \<le> MAZE_WIDTH + MAZE_HEIGHT"
  unfolding min_goal_dist_def by (rule fold_min_le)

lemma min_goal_dist_in:
  assumes "is_within_bounds n"
  shows "min_goal_dist n \<le> 16"
proof -
  have "min_goal_dist n \<le> abs (fst n - GOAL_X1) + abs (snd n - GOAL_Y1)"
    unfolding min_goal_dist_def by (rule fold_min_le_hd)
  also have "\<dots> \<le> 16" using assms by (auto simp: is_within_bounds_def)
  finally show ?thesis .
qed

lemma weight_nonneg: "0 \<le> weight m n"
  using min_goal_dist_le [of n] by (simp add: weight_def)

lemma weight_unvisited: "is_within_bounds n \<Longrightarrow> \<not> visited m n \<Longrightarrow> 10 \<le> weight m n"
  using min_goal_dist_in [of n] by (simp add: weight_def)

lemma relax_explore_alt:
  "relax_explore m c d dir s =
     (if walls m c dir \<or> \<not> is_within_bounds (neighbor c dir) \<or>
         \<not> dist s (neighbor c dir) > d + 1 - weight m (neighbor c dir)
      then Inr s
      else enqueue (neighbor c dir)
             (s\<lparr>dist := (dist s)(neighbor c dir := d + 1 - weight m (neighbor c dir))\<rparr>))"
proof -
  let ?n = "neighbor c dir"
  have eff: "d + 1 - (if \<not> visited m ?n then 2 else 0) -
        (if \<not> visited m ?n then (MAZE_WIDTH + MAZE_HEIGHT - min_goal_dist ?n) div 2 else 0)
      = d + 1 - weight m ?n"
    by (simp add: weight_def)
  have n: "(fst c + dx dir, snd c + dy dir) = ?n" by (simp add: neighbor_def)
  have inb: "(fst c + dx dir < 0 \<or> fst c + dx dir \<ge> MAZE_WIDTH \<or> snd c + dy dir < 0 \<or>
        snd c + dy dir \<ge> MAZE_HEIGHT) = (\<not> is_within_bounds ?n)"
    by (auto simp: neighbor_def is_within_bounds_def)
  show ?thesis
    unfolding relax_explore_def Let_def n inb eff by auto
qed

lemma relax_explore_inner:
  assumes inv: "exp_inner m c d D s" and r: "relax_explore m c d dir s = Inr s'"
  shows "exp_inner m c d (insert dir D) s'"
proof (cases "walls m c dir \<or> \<not> is_within_bounds (neighbor c dir) \<or>
         \<not> dist s (neighbor c dir) > d + 1 - weight m (neighbor c dir)")
  case True
  with r have s': "s' = s" by (simp add: relax_explore_alt)
  from inv True have "settled m s c (insert dir D)"
    by (auto simp: exp_inner_def settled_def)
  with inv show ?thesis by (simp add: s' exp_inner_def)
next
  case False
  let ?n = "neighbor c dir" and ?e = "d + 1 - weight m (neighbor c dir)"
  from False have opn: "\<not> walls m c dir" "is_within_bounds ?n" and imp: "?e < dist s ?n" by auto
  from False r have enq: "enqueue ?n (s\<lparr>dist := (dist s)(?n := ?e)\<rparr>) = Inr s'"
    by (simp add: relax_explore_alt)
  then have s': "s' = s\<lparr>dist := (dist s)(?n := ?e), queue := (queue s)(qBack s := ?n),
                        qBack := qBack s + 1\<rparr>"
    by (auto simp: enqueue_def split: if_splits)
  have le: "qFront s \<le> qBack s"
    and reach: "\<forall>c. is_within_bounds c \<and> dist s c \<noteq> 256 \<longrightarrow> c \<in> queue s ` {..<qBack s}"
    and st: "dist s (0, 0) \<le> 0"
    and ent: "\<forall>i<qBack s. queue s i = c \<or> pending s (queue s i) \<or> settled m s (queue s i) UNIV"
    and cur: "settled m s c D" and dc: "dist s c = d"
    using inv unfolding exp_inner_def by blast+
  have d_le: "dist s' x \<le> dist s x" for x using imp by (simp add: s')
  have d_old: "dist s' x = dist s x" if "x \<noteq> ?n" for x using that by (simp add: s')
  have d_new: "dist s' ?n = ?e" by (simp add: s')
  have q_old: "queue s' i = queue s i" if "i < qBack s" for i using that by (simp add: s')
  have q_new: "queue s' (qBack s) = ?n" by (simp add: s')
  have t': "qBack s' = Suc (qBack s)" and h': "qFront s' = qFront s" by (simp_all add: s')
  have pend_n: "pending s' ?n"
    unfolding pending_def using le q_new by (auto simp: t' h')
  have pend_old: "pending s' x" if "pending s x" for x
  proof -
    from that obtain j where j: "qFront s \<le> j" "j < qBack s" "queue s j = x"
      unfolding pending_def by blast
    then have "qFront s' \<le> j \<and> j < qBack s' \<and> queue s' j = x"
      by (simp add: t' h' q_old)
    then show ?thesis unfolding pending_def by blast
  qed
  have set_old: "settled m s' x D'" if "settled m s x D'" "x \<noteq> ?n" for x D'
    unfolding settled_def
  proof (intro ballI impI)
    fix dir' assume "dir' \<in> D'" "\<not> walls m x dir' \<and> is_within_bounds (neighbor x dir')"
    with that(1) have "dist s (neighbor x dir') \<le> dist s x + 1 - weight m (neighbor x dir')"
      by (simp add: settled_def)
    with d_le [of "neighbor x dir'"] d_old [OF that(2)]
    show "dist s' (neighbor x dir') \<le> dist s' x + 1 - weight m (neighbor x dir')" by simp
  qed
  have c_n: "c \<noteq> ?n" by simp
  have c1: "qFront s' \<le> qBack s'" using le by (simp add: t' h')
  have img: "queue s' ` {..<qBack s'} = insert ?n (queue s ` {..<qBack s})"
  proof -
    have "queue s' ` {..<qBack s} = queue s ` {..<qBack s}"
      by (rule image_cong) (simp_all add: q_old)
    then show ?thesis by (simp add: t' lessThan_Suc q_new)
  qed
  have c2: "\<forall>x. is_within_bounds x \<and> dist s' x \<noteq> 256 \<longrightarrow> x \<in> queue s' ` {..<qBack s'}"
  proof (intro allI impI)
    fix x assume x: "is_within_bounds x \<and> dist s' x \<noteq> 256"
    show "x \<in> queue s' ` {..<qBack s'}"
    proof (cases "x = ?n")
      case True
      then show ?thesis by (simp add: img)
    next
      case False
      with x have "is_within_bounds x \<and> dist s x \<noteq> 256" by (simp add: d_old)
      with reach have "x \<in> queue s ` {..<qBack s}" by blast
      then show ?thesis by (simp add: img)
    qed
  qed
  have c3: "dist s' (0, 0) \<le> 0" using d_le [of "(0, 0)"] st by simp
  have c4: "\<forall>i<qBack s'. queue s' i = c \<or> pending s' (queue s' i) \<or> settled m s' (queue s' i) UNIV"
  proof (intro allI impI)
    fix i assume "i < qBack s'"
    then consider "i < qBack s" | "i = qBack s" by atomize_elim (auto simp: t')
    then show "queue s' i = c \<or> pending s' (queue s' i) \<or> settled m s' (queue s' i) UNIV"
    proof cases
      case 1
      show ?thesis
      proof (cases "queue s i = ?n")
        case True
        then show ?thesis using pend_n 1 by (simp add: q_old)
      next
        case False
        from ent 1 have "queue s i = c \<or> pending s (queue s i) \<or> settled m s (queue s i) UNIV"
          by blast
        then show ?thesis
          using pend_old [of "queue s i"] set_old [of "queue s i" UNIV] False 1
          by (auto simp: q_old)
      qed
    next
      case 2
      then show ?thesis using pend_n by (simp add: q_new)
    qed
  qed
  have "settled m s' c D" using cur c_n by (rule set_old)
  moreover have "settled m s' c {dir}"
    using dc c_n by (simp add: settled_def d_new d_old)
  ultimately have c5: "settled m s' c (insert dir D)" by (auto simp: settled_def)
  have c6: "dist s' c = d" using dc c_n by (simp add: d_old)
  show ?thesis unfolding exp_inner_def using c1 c2 c3 c4 c5 c6 by blast
qed

lemma for_dirs_explore_inner:
  assumes "exp_inner m c d D s" and "for_dirs (relax_explore m c d) dirs s = Inr s'"
  shows "exp_inner m c d (D \<union> set dirs) s'"
  using assms
proof (induction dirs arbitrary: D s)
  case Nil
  then show ?case by simp
next
  case (Cons dir dirs)
  from Cons.prems(2) obtain s1 where s1: "relax_explore m c d dir s = Inr s1"
    "for_dirs (relax_explore m c d) dirs s1 = Inr s'"
    by (auto split: sum.splits)
  from relax_explore_inner [OF Cons.prems(1) s1(1)] have "exp_inner m c d (insert dir D) s1" .
  from Cons.IH [OF this s1(2)] show ?case by simp
qed

lemma exp_inv_inner:
  assumes "exp_inv m s" and "qFront s < qBack s"
  shows "exp_inner m (queue s (qFront s)) (dist s (queue s (qFront s))) {} (s\<lparr>qFront := qFront s + 1\<rparr>)"
proof -
  let ?c = "queue s (qFront s)" and ?s1 = "s\<lparr>qFront := qFront s + 1\<rparr>"
  have ent: "\<forall>i<qBack s. pending s (queue s i) \<or> settled m s (queue s i) UNIV"
    using assms(1) unfolding exp_inv_def by blast
  have "queue ?s1 i = ?c \<or> pending ?s1 (queue ?s1 i) \<or> settled m ?s1 (queue ?s1 i) UNIV"
    if "i < qBack s" for i
  proof -
    from ent that consider "pending s (queue s i)" | "settled m s (queue s i) UNIV" by blast
    then show ?thesis
    proof cases
      case 1
      then obtain j where j: "qFront s \<le> j" "j < qBack s" "queue s j = queue s i"
        unfolding pending_def by blast
      show ?thesis
      proof (cases "j = qFront s")
        case True
        with j(3) show ?thesis by simp
      next
        case False
        with j have "qFront ?s1 \<le> j \<and> j < qBack ?s1 \<and> queue ?s1 j = queue ?s1 i" by simp
        then have "pending ?s1 (queue ?s1 i)" unfolding pending_def by blast
        then show ?thesis by simp
      qed
    next
      case 2
      then show ?thesis by (simp add: settled_def)
    qed
  qed
  then show ?thesis
    using assms unfolding exp_inner_def exp_inv_def by (simp add: settled_def)
qed

lemma exp_inner_inv:
  assumes "exp_inner m c d UNIV s"
  shows "exp_inv m s"
  using assms unfolding exp_inner_def exp_inv_def by auto

lemma explore_loop_step:
  assumes "qFront s < qBack s"
    and "for_dirs (relax_explore m (queue s (qFront s)) (dist s (queue s (qFront s)))) all_dirs
           (s\<lparr>qFront := qFront s + 1\<rparr>) = r"
  shows "explore_loop m s = (case r of Inl e \<Rightarrow> Inl e | Inr s2 \<Rightarrow> explore_loop m s2)"
  using assms by (subst explore_loop.simps) (simp add: Let_def del: for_dirs.simps)

lemma explore_loop_inv:
  assumes "exp_inv m s" and "explore_loop m s = Inr s'"
  shows "exp_inv m s' \<and> qFront s' = qBack s'"
  using assms
proof (induction m s rule: explore_loop.induct)
  case (1 m s)
  show ?case
  proof (cases "qFront s < qBack s")
    case False
    with "1.prems" have "qFront s = qBack s" by (simp add: exp_inv_def)
    with False "1.prems" show ?thesis by (simp add: explore_loop.simps)
  next
    case True
    let ?c = "queue s (qFront s)" and ?s1 = "s\<lparr>qFront := qFront s + 1\<rparr>"
    obtain r where r: "for_dirs (relax_explore m ?c (dist s ?c)) all_dirs ?s1 = r" by simp
    from explore_loop_step [OF True r] "1.prems"(2) obtain s2 where
      s2: "r = Inr s2" "explore_loop m s2 = Inr s'"
      by (cases r) simp_all
    have "exp_inner m ?c (dist s ?c) {} ?s1" using "1.prems"(1) True by (rule exp_inv_inner)
    from for_dirs_explore_inner [OF this r [unfolded s2(1)]]
    have "exp_inner m ?c (dist s ?c) UNIV s2" unfolding set_all_dirs by simp
    then have inv2: "exp_inv m s2" by (rule exp_inner_inv)
    have "for_dirs (relax_explore m ?c (dist ?s1 ?c)) all_dirs ?s1 = Inr s2"
      using r s2(1) by (simp del: for_dirs.simps)
    from "1.IH" [OF True refl refl refl this inv2 s2(2)] show ?thesis .
  qed
qed

lemma for_dirs_explore_error:
  "for_dirs (relax_explore m c d) dirs s = Inl e \<Longrightarrow> e = QueueOverflow"
proof (induction dirs arbitrary: s)
  case Nil
  then show ?case by simp
next
  case (Cons dir dirs)
  show ?case
  proof (cases "relax_explore m c d dir s")
    case (Inl e')
    with Cons.prems have "e' = e" by simp
    with Inl show ?thesis
      by (auto simp: relax_explore_alt enqueue_def split: if_splits)
  next
    case (Inr s1)
    with Cons.prems Cons.IH [of s1] show ?thesis by simp
  qed
qed

lemma explore_loop_error:
  "explore_loop m s = Inl e \<Longrightarrow> e = QueueOverflow"
proof (induction m s rule: explore_loop.induct)
  case (1 m s)
  show ?case
  proof (cases "qFront s < qBack s")
    case False
    with "1.prems" show ?thesis by (simp add: explore_loop.simps)
  next
    case True
    let ?c = "queue s (qFront s)" and ?s1 = "s\<lparr>qFront := qFront s + 1\<rparr>"
    obtain r where r: "for_dirs (relax_explore m ?c (dist s ?c)) all_dirs ?s1 = r" by simp
    show ?thesis
    proof (cases r)
      case (Inl e')
      with explore_loop_step [OF True r] "1.prems" have "e' = e" by simp
      with r Inl show ?thesis using for_dirs_explore_error by blast
    next
      case (Inr s2)
      with explore_loop_step [OF True r] "1.prems" have l: "explore_loop m s2 = Inl e" by simp
      have "for_dirs (relax_explore m ?c (dist ?s1 ?c)) all_dirs ?s1 = Inr s2"
        using r Inr by (simp del: for_dirs.simps)
      from "1.IH" [OF True refl refl refl this l] show ?thesis .
    qed
  qed
qed

lemma bfs_final_range:
  assumes inv: "bfs_inv w S s" and c: "is_within_bounds c" "dist s c \<noteq> 256"
  shows "0 \<le> dist s c \<and> dist s c < 256"
proof -
  have rng: "\<forall>i<qBack s. 0 \<le> dist s (queue s i) \<and> dist s (queue s i) \<le> int i"
    and enq: "\<forall>c. is_within_bounds c \<longrightarrow> (dist s c \<noteq> 256 \<longleftrightarrow> c \<in> queue s ` {..<qBack s})"
    and inj: "inj_on (queue s) {..<qBack s}" and inb: "\<forall>i<qBack s. is_within_bounds (queue s i)"
    using inv unfolding bfs_inv_def bfs_common_def by blast+
  from enq c have "c \<in> queue s ` {..<qBack s}" by blast
  then obtain i where i: "i < qBack s" "c = queue s i" by auto
  have "qBack s \<le> 256"
  proof -
    have "queue s ` {..<qBack s} \<subseteq> {c. is_within_bounds c}" using inb by auto
    then have "card (queue s ` {..<qBack s}) \<le> card {c. is_within_bounds c}"
      by (intro card_mono) (simp_all add: finite_cells)
    then show ?thesis using inj by (simp add: card_image card_cells)
  qed
  with i rng show ?thesis by auto
qed

text \<open>A cell reached over open edges is reached over fewer than 256 of them.\<close>

lemma short_path:
  assumes "hops w k a b"
  shows "\<exists>k'<256. hops w k' a b"
proof -
  let ?m = "\<lparr>distances = (\<lambda>c. 0), walls = w, visited = (\<lambda>c. False)\<rparr>"
  obtain ax ay where a: "a = (ax, ay)" by (cases a)
  from assms have "is_within_bounds (ax, ay)" "is_within_bounds b"
    using hops_in_bounds [of w k a b] by (simp_all add: a)
  from floodFill_run [OF this(1), of ?m] obtain s' where
    s': "bfs_inv w {a} s'" "qFront s' = qBack s'" by (auto simp: a)
  from bfs_final_complete [OF s' assms] have ne: "dist s' b \<noteq> 256" by simp
  from bfs_final_sound [OF s'(1) \<open>is_within_bounds b\<close> ne]
  have h: "hops w (nat (dist s' b)) a b" by simp
  from bfs_final_range [OF s'(1) \<open>is_within_bounds b\<close> ne]
  have "nat (dist s' b) < 256" by (simp add: nat_less_iff)
  with h show ?thesis by blast
qed

lemma explore_final:
  assumes inv: "exp_inv m s" and fin: "qFront s = qBack s"
    and path: "hops (walls m) k a c" and a: "a = (0, 0)" and k: "k < 256"
  shows "dist s c \<le> int k \<and> dist s c \<noteq> 256"
  using path a k
proof (induction rule: hops.induct)
  case (hops_0 a)
  have "dist s (0, 0) \<le> 0" using inv unfolding exp_inv_def by blast
  with hops_0.prems show ?case by simp
next
  case (hops_Suc k a b dir)
  have reach: "\<forall>c. is_within_bounds c \<and> dist s c \<noteq> 256 \<longrightarrow> c \<in> queue s ` {..<qBack s}"
    and ent: "\<forall>i<qBack s. pending s (queue s i) \<or> settled m s (queue s i) UNIV"
    using inv unfolding exp_inv_def by blast+
  have b: "dist s b \<le> int k" "dist s b \<noteq> 256"
    using hops_Suc.IH hops_Suc.prems by auto
  have "is_within_bounds b" using hops_Suc.hyps(1) by (simp add: hops_in_bounds)
  with reach b(2) have "b \<in> queue s ` {..<qBack s}" by blast
  then obtain i where i: "i < qBack s" "b = queue s i" by auto
  have "\<not> pending s b" using fin by (simp add: pending_def)
  with ent i have "settled m s b UNIV" by blast
  with hops_Suc.hyps(2,3)
  have "dist s (neighbor b dir) \<le> dist s b + 1 - weight m (neighbor b dir)"
    by (simp add: settled_def)
  with b(1) weight_nonneg [of m "neighbor b dir"] hops_Suc.prems(2) show ?case by simp
qed

lemma explore_loop_never_returns:
  assumes sym: "wall_symmetric m" and inv: "exp_inv m s"
    and u: "\<not> visited m u" "u \<noteq> (0, 0)" and reach: "hops (walls m) k (0, 0) u"
  shows "explore_loop m s \<noteq> Inr s'"
proof
  assume "explore_loop m s = Inr s'"
  from explore_loop_inv [OF inv this] have inv': "exp_inv m s'" and fin: "qFront s' = qBack s'"
    by simp_all
  have ent: "\<forall>i<qBack s'. pending s' (queue s' i) \<or> settled m s' (queue s' i) UNIV"
    and rch: "\<forall>c. is_within_bounds c \<and> dist s' c \<noteq> 256 \<longrightarrow> c \<in> queue s' ` {..<qBack s'}"
    using inv' unfolding exp_inv_def by blast+
  have stl: "settled m s' c UNIV" if "is_within_bounds c" "dist s' c \<noteq> 256" for c
  proof -
    from rch that have "c \<in> queue s' ` {..<qBack s'}" by blast
    then obtain i where i: "i < qBack s'" "c = queue s' i" by auto
    have "\<not> pending s' c" using fin by (simp add: pending_def)
    with ent i show ?thesis by blast
  qed
  from short_path [OF reach] obtain k' where k': "k' < 256" "hops (walls m) k' (0, 0) u" by blast
  from k'(2) u(2) obtain j v dir where
    v: "k' = Suc j" "hops (walls m) j (0, 0) v" "\<not> walls m v dir" "u = neighbor v dir"
       "is_within_bounds u"
    by (cases rule: hops.cases) auto
  have inb_v: "is_within_bounds v" using v(2) by (simp add: hops_in_bounds)
  from explore_final [OF inv' fin v(2) refl] k'(1) v(1) have dv: "dist s' v \<noteq> 256" by simp
  from explore_final [OF inv' fin k'(2) refl k'(1)] have du: "dist s' u \<noteq> 256" by simp
  from stl [OF inb_v dv] v(3,4,5)
  have 1: "dist s' u \<le> dist s' v + 1 - weight m u" by (simp add: settled_def)
  from sym inb_v v(4,5) have "walls m v dir = walls m u (get_opposite_direction dir)"
    unfolding wall_symmetric_iff by blast
  with v(3) have bk: "\<not> walls m u (get_opposite_direction dir)" by simp
  have nb: "neighbor u (get_opposite_direction dir) = v" by (simp add: v(4))
  from stl [OF v(5) du] bk inb_v nb
  have 2: "dist s' v \<le> dist s' u + 1 - weight m v"
    unfolding settled_def by (metis UNIV_I)
  from 1 2 weight_unvisited [OF v(5) u(1)] weight_nonneg [of m v] show False by simp
qed

text \<open>
  Whenever an unvisited cell other than the start can be reached from the start over open
  edges of a symmetric wall map, the exploration-biased flood fill writes behind the end of
  its queue.
\<close>

lemma explore_overflow:
  assumes sym: "wall_symmetric m"
    and u: "\<not> visited m u" "u \<noteq> (0, 0)" and reach: "hops (walls m) k (0, 0) u"
  shows "floodFillToStartWithExploration m = Inl QueueOverflow"
proof -
  let ?s = "\<lparr>dist = (set_all (MAZE_WIDTH * MAZE_HEIGHT) (distances m))((0, 0) := 0),
             queue = (\<lambda>i. (0, 0))(0 := (0, 0)), qFront = 0, qBack = 1\<rparr>"
  have "pending ?s (0, 0)" by (simp add: pending_def)
  then have inv: "exp_inv m ?s"
    by (auto simp: exp_inv_def set_all_apply)
  obtain r where r: "explore_loop m ?s = r" by simp
  from explore_loop_never_returns [OF sym inv u reach] r obtain e where e: "r = Inl e"
    by (cases r) auto
  with r explore_loop_error have "e = QueueOverflow" by blast
  with r e show ?thesis by (simp add: floodFillToStartWithExploration_def)
qed

lemma goal_reached_maze_simps [simp]:
  "walls goal_reached_maze = walls (initializeMaze_arrays blank_maze)"
  "visited goal_reached_maze = first_run_visited"
  by (simp_all add: goal_reached_maze_def)

lemma goal_reached_symmetric: "wall_symmetric goal_reached_maze"
  by (simp add: wall_symmetric_walls [of goal_reached_maze "initializeMaze_arrays blank_maze"]
      initializeMaze_arrays_symmetric)

lemma hops_start_east: "hops (walls (initializeMaze_arrays blank_maze)) (Suc 0) (0, 0) (1, 0)"
proof -
  have "hops (walls (initializeMaze_arrays blank_maze)) 0 (0, 0) (0, 0)"
    by (rule hops_0) (simp add: is_within_bounds_def)
  then have "hops (walls (initializeMaze_arrays blank_maze)) (Suc 0) (0, 0) (neighbor (0, 0) EAST)"
    by (rule hops_Suc)
       (simp_all add: walls_initializeMaze_arrays is_boundary_edge_iff is_within_bounds_def neighbor_def)
  then show ?thesis by (simp add: neighbor_def)
qed

lemma explore_overflow_first_run:
  assumes "walls m = walls (initializeMaze_arrays blank_maze)" and "visited m = first_run_visited"
  shows "floodFillToStartWithExploration m = Inl QueueOverflow"
proof (rule explore_overflow)
  show "wall_symmetric m"
    using assms(1) by (simp add: wall_symmetric_walls [of m "initializeMaze_arrays blank_maze"]
        initializeMaze_arrays_symmetric)
  show "\<not> visited m (1, 0)" by (simp add: assms(2) first_run_visited_def is_at_goal_def)
  show "(1, 0) \<noteq> ((0, 0) :: cell)" by simp
  show "hops (walls m) (Suc 0) (0, 0) (1, 0)" unfolding assms(1) by (rule hops_start_east)
qed

text \<open>
  C7, the failing input. The state of ff.c when the mouse has reached the goal of a maze
  without inner walls over the cells \<open>(0, 0)\<close> to \<open>(0, 7)\<close> and \<open>(1, 7)\<close> to \<open>(7, 7)\<close>:
  the exploration-biased flood fill used in RETURN runs over the end of its queue.
\<close>

theorem exploration_flood_overflows_queue:
  "floodFillToStartWithExploration goal_reached_maze = Inl QueueOverflow"
  by (rule explore_overflow_first_run) simp_all

lemma for_cells_error:
  assumes "\<forall>c \<in> set cs. f c s = Inr s \<or> f c s = Inl e" and "\<exists>c \<in> set cs. f c s = Inl e"
  shows "for_cells f cs s = Inl e"
  using assms
proof (induction cs)
  case Nil
  then show ?case by simp
next
  case (Cons c cs)
  from Cons.prems(1) have "f c s = Inr s \<or> f c s = Inl e" by simp
  then show ?case
  proof
    assume ok: "f c s = Inr s"
    with Cons.prems(2) have "\<exists>c \<in> set cs. f c s = Inl e" by auto
    with Cons.IH Cons.prems(1) have "for_cells f cs s = Inl e" by simp
    with ok show ?thesis by simp
  next
    assume "f c s = Inl e"
    then show ?thesis by simp
  qed
qed

lemma display_cell_first_run:
  "display_cell c goal_reached_globals =
     (if c = (7, 7) \<or> is_at_goal c \<or> first_run_visited c then Inr goal_reached_globals
      else Inl QueueOverflow)"
proof -
  let ?g = goal_reached_globals
  from floodFillToGoal_returns [of 7 7 goal_reached_maze] obtain m1 where
    m1: "floodFillToGoal 7 7 goal_reached_maze = Inr m1" "walls m1 = walls goal_reached_maze"
        "visited m1 = visited goal_reached_maze" by blast
  from m1(2,3) have "floodFillToStartWithExploration m1 = Inl QueueOverflow"
    by (intro explore_overflow_first_run) simp_all
  with m1(1) show ?thesis
    by (cases c)
       (auto simp: display_cell_def goal_reached_globals_def blank_globals_def is_at_goal_def)
qed

text \<open>
  C10, the failing input. In the same state (RETURN mode, exploration phase not complete),
  updateDisplay reaches the unvisited cell \<open>(0, 8)\<close>, floods toward the goal and then
  calls floodFillToStartWithExploration to restore the field, which runs over the end of its
  queue: the display update does not return the state it was given.
\<close>

theorem display_update_overflows_queue:
  "updateDisplay goal_reached_globals = Inl QueueOverflow"
  unfolding updateDisplay_def
proof (rule for_cells_error)
  show "\<forall>c \<in> set all_cells. display_cell c goal_reached_globals = Inr goal_reached_globals \<or>
          display_cell c goal_reached_globals = Inl QueueOverflow"
    by (simp add: display_cell_first_run)
  have "(0, 8) \<in> set all_cells" by (simp add: set_all_cells is_within_bounds_def)
  moreover have "display_cell (0, 8) goal_reached_globals = Inl QueueOverflow"
    by (simp add: display_cell_first_run is_at_goal_def first_run_visited_def)
  ultimately show "\<exists>c \<in> set all_cells. display_cell c goal_reached_globals = Inl QueueOverflow"
    by blast
qed

section \<open>Flood fill toward the goal\<close>

lemma goal_target_nearest:
  assumes "is_at_goal g"
  shows "abs (px - fst (goal_target px py)) + abs (py - snd (goal_target px py))
           \<le> abs (px - fst g) + abs (py - snd g)"
  using assms
  by (cases g) (auto simp: goal_target_def Let_def is_at_goal_def split: prod.splits if_splits)

lemma shortest_hops_source:
  assumes "shortest_hops m S c d" and "c \<in> S" and "is_within_bounds c"
  shows "d = 0"
proof -
  have h: "hops (walls m) 0 c c" using assms(3) by (rule hops_0)
  with assms(2) have "\<exists>k g. g \<in> S \<and> hops (walls m) k c g" by blast
  with assms(1) have "0 \<le> d" and "\<forall>k g. g \<in> S \<and> hops (walls m) k c g \<longrightarrow> d \<le> int k"
    unfolding shortest_hops_def by (simp_all del: split_paired_All split_paired_Ex)
  with h assms(2) have "d \<le> int 0" by blast
  with \<open>0 \<le> d\<close> show ?thesis by simp
qed

lemma shortest_hops_not_source:
  assumes "shortest_hops m {t} c d" and "c \<noteq> t"
  shows "d \<noteq> 0"
proof
  assume "d = 0"
  with assms(1) have "hops (walls m) 0 c t"
    unfolding shortest_hops_def by (auto split: if_splits)
  with assms(2) show False by (simp add: hops_0_iff)
qed

text \<open>
  C1 as amended. With symmetric walls, flood_fill_goal of ffv3.c returns a field in which
  the four goal cells have distance 0 and every cell of the grid holds the least number of
  open edges to a goal cell, or the sentinel 256 when no goal cell can be reached.
  floodFillToGoal of ff.c floods from one goal cell only, goal_target: the goal cell with
  the least Manhattan distance from the position. That cell has distance 0 and every cell of
  the grid holds the least number of open edges to that cell, or 256.
\<close>

theorem flood_fill_toward_goal:
  "wall_symmetric m \<longrightarrow>
     (\<exists>m'. flood_fill_goal m = Inr m' \<and> walls m' = walls m \<and> visited m' = visited m \<and>
        (\<forall>c \<in> set all_cells.
           (is_at_goal c \<longrightarrow> distances m' c = 0) \<and>
           shortest_hops m {g. is_at_goal g} c (distances m' c))) \<and>
     (\<exists>m'. floodFillToGoal px py m = Inr m' \<and> walls m' = walls m \<and> visited m' = visited m \<and>
        is_at_goal (goal_target px py) \<and>
        (\<forall>g \<in> set goal_cells.
           abs (px - fst (goal_target px py)) + abs (py - snd (goal_target px py))
             \<le> abs (px - fst g) + abs (py - snd g)) \<and>
        distances m' (goal_target px py) = 0 \<and>
        (\<forall>c \<in> set all_cells. shortest_hops m {goal_target px py} c (distances m' c)))"
proof (intro impI conjI)
  assume sym: "wall_symmetric m"
  from flood_fill_goal_correct [OF sym] obtain m' where
    m': "flood_fill_goal m = Inr m'" "walls m' = walls m" "visited m' = visited m"
    and sh: "\<And>c. is_within_bounds c \<Longrightarrow> shortest_hops m {g. is_at_goal g} c (distances m' c)"
    by blast
  have "distances m' c = 0" if "is_within_bounds c" "is_at_goal c" for c
    using sh [OF that(1)] that by (intro shortest_hops_source [of m "{g. is_at_goal g}" c]) simp_all
  with m' sh
  show "\<exists>m'. flood_fill_goal m = Inr m' \<and> walls m' = walls m \<and> visited m' = visited m \<and>
        (\<forall>c \<in> set all_cells.
           (is_at_goal c \<longrightarrow> distances m' c = 0) \<and>
           shortest_hops m {g. is_at_goal g} c (distances m' c))"
    by (auto simp: set_all_cells)
  let ?t = "goal_target px py"
  from floodFillToGoal_correct [OF sym, of px py] obtain m2 where
    m2: "floodFillToGoal px py m = Inr m2" "walls m2 = walls m" "visited m2 = visited m"
    and sh2: "\<And>c. is_within_bounds c \<Longrightarrow> shortest_hops m {?t} c (distances m2 c)"
    by blast
  have tg: "is_at_goal ?t" by (rule goal_target_goal)
  then have tin: "is_within_bounds ?t" by (rule is_at_goal_in_bounds)
  have t0: "distances m2 ?t = 0"
    using sh2 [OF tin] tin by (intro shortest_hops_source [of m "{?t}" ?t]) simp_all
  have near: "\<forall>g \<in> set goal_cells.
           abs (px - fst ?t) + abs (py - snd ?t) \<le> abs (px - fst g) + abs (py - snd g)"
    using goal_target_nearest [of _ px py] by (simp add: set_goal_cells)
  from m2 sh2 tg t0 near
  show "\<exists>m'. floodFillToGoal px py m = Inr m' \<and> walls m' = walls m \<and> visited m' = visited m \<and>
        is_at_goal ?t \<and>
        (\<forall>g \<in> set goal_cells.
           abs (px - fst ?t) + abs (py - snd ?t) \<le> abs (px - fst g) + abs (py - snd g)) \<and>
        distances m' ?t = 0 \<and>
        (\<forall>c \<in> set all_cells. shortest_hops m {?t} c (distances m' c))"
    by (auto simp: set_all_cells)
qed

theorem flood_fill_toward_goal_witness:
  "(\<exists>m'. flood_fill_goal (init_maze blank_maze) = Inr m' \<and>
      distances m' (7, 7) = 0 \<and> distances m' (7, 8) = 0 \<and>
      distances m' (8, 7) = 0 \<and> distances m' (8, 8) = 0 \<and>
      shortest_hops (init_maze blank_maze) {g. is_at_goal g} (0, 0) (distances m' (0, 0))) \<and>
   (\<exists>m'. floodFillToGoal 0 0 (initializeMaze_arrays blank_maze) = Inr m' \<and>
      distances m' (7, 7) = 0 \<and>
      shortest_hops (initializeMaze_arrays blank_maze) {(7, 7)} (0, 0) (distances m' (0, 0)))"
proof -
  have s1: "wall_symmetric (init_maze blank_maze)" by (rule init_maze_symmetric)
  have s2: "wall_symmetric (initializeMaze_arrays blank_maze)"
    by (rule initializeMaze_arrays_symmetric)
  have c: "(0, 0) \<in> set all_cells" "(7, 7) \<in> set all_cells" "(7, 8) \<in> set all_cells"
    "(8, 7) \<in> set all_cells" "(8, 8) \<in> set all_cells"
    by (simp_all add: set_all_cells is_within_bounds_def)
  have g: "is_at_goal (7, 7)" "is_at_goal (7, 8)" "is_at_goal (8, 7)" "is_at_goal (8, 8)"
    by (simp_all add: is_at_goal_def)
  from flood_fill_toward_goal [of "init_maze blank_maze" 0 0] s1 obtain m' where
    "flood_fill_goal (init_maze blank_maze) = Inr m'"
    "\<forall>c \<in> set all_cells.
           (is_at_goal c \<longrightarrow> distances m' c = 0) \<and>
           shortest_hops (init_maze blank_maze) {g. is_at_goal g} c (distances m' c)"
    by blast
  with c g have 1: "\<exists>m'. flood_fill_goal (init_maze blank_maze) = Inr m' \<and>
      distances m' (7, 7) = 0 \<and> distances m' (7, 8) = 0 \<and>
      distances m' (8, 7) = 0 \<and> distances m' (8, 8) = 0 \<and>
      shortest_hops (init_maze blank_maze) {g. is_at_goal g} (0, 0) (distances m' (0, 0))"
    by blast
  from flood_fill_toward_goal [of "initializeMaze_arrays blank_maze" 0 0] s2 obtain m2 where
    "floodFillToGoal 0 0 (initializeMaze_arrays blank_maze) = Inr m2"
    "distances m2 (goal_target 0 0) = 0"
    "\<forall>c \<in> set all_cells.
       shortest_hops (initializeMaze_arrays blank_maze) {goal_target 0 0} c (distances m2 c)"
    by blast
  with c have 2: "\<exists>m'. floodFillToGoal 0 0 (initializeMaze_arrays blank_maze) = Inr m' \<and>
      distances m' (7, 7) = 0 \<and>
      shortest_hops (initializeMaze_arrays blank_maze) {(7, 7)} (0, 0) (distances m' (0, 0))"
    by (auto simp: goal_target_start)
  from 1 2 show ?thesis by (rule conjI)
qed

text \<open>
  C1 as stated fails in ff.c: in the initial maze with the mouse at the start, floodFillToGoal
  floods from \<open>(7, 7)\<close> alone, and the goal cell \<open>(8, 8)\<close> does not get distance 0.
\<close>

theorem goal_cell_not_a_source:
  "(case floodFillToGoal 0 0 (initializeMaze_arrays blank_maze) of
      Inl e \<Rightarrow> False
    | Inr m' \<Rightarrow> is_at_goal (8, 8) \<and> distances m' (8, 8) \<noteq> 0)"
proof -
  from floodFillToGoal_correct [OF initializeMaze_arrays_symmetric, of 0 0 blank_maze]
  obtain m' where m': "floodFillToGoal 0 0 (initializeMaze_arrays blank_maze) = Inr m'"
    and sh: "\<And>c. is_within_bounds c \<Longrightarrow>
       shortest_hops (initializeMaze_arrays blank_maze) {goal_target 0 0} c (distances m' c)"
    by blast
  have "is_within_bounds (8, 8)" by (simp add: is_within_bounds_def)
  from sh [OF this] have "distances m' (8, 8) \<noteq> 0"
    by (intro shortest_hops_not_source [of _ "(7, 7)" "(8, 8)"]) (simp_all add: goal_target_start)
  with m' show ?thesis by (simp add: is_at_goal_def)
qed

section \<open>Blocked moves\<close>

lemma ex_least_in_list:
  fixes f :: "'a \<Rightarrow> int"
  assumes "\<exists>d \<in> set ds. R d"
  shows "\<exists>d \<in> set ds. R d \<and> (\<forall>d' \<in> set ds. R d' \<longrightarrow> f d \<le> f d')"
proof -
  let ?A = "{d \<in> set ds. R d}"
  have fin: "finite (f ` ?A)" by simp
  from assms have ne: "f ` ?A \<noteq> {}" by auto
  from Min_in [OF fin ne] obtain d where d: "d \<in> ?A" "f d = Min (f ` ?A)" by auto
  have "f d \<le> f d'" if "d' \<in> ?A" for d'
    using Min_le [OF fin, of "f d'"] that d(2) by auto
  with d(1) show ?thesis by auto
qed

text \<open>A loop that keeps the first least value below a bound finds the first element that
  is least among those below the bound.\<close>

lemma fold_first_min:
  fixes f :: "'a \<Rightarrow> int"
  shows "fold (\<lambda>d (mn, r). if P d \<and> f d < mn then (f d, h d) else (mn, r)) ds (b, e) =
     (case find (\<lambda>d. P d \<and> f d < b \<and> (\<forall>d' \<in> set ds. P d' \<and> f d' < b \<longrightarrow> f d \<le> f d')) ds of
        None \<Rightarrow> (b, e) | Some d \<Rightarrow> (f d, h d))"
proof (induction ds arbitrary: b e)
  case Nil
  show ?case by simp
next
  case (Cons x xs)
  let ?step = "\<lambda>d (mn, r). if P d \<and> f d < mn then (f d, h d) else (mn, r)"
  let ?Q = "\<lambda>ds b d. P d \<and> f d < b \<and> (\<forall>d' \<in> set ds. P d' \<and> f d' < b \<longrightarrow> f d \<le> f d')"
  show ?case
  proof (cases "P x \<and> f x < b")
    case False
    then have st: "fold ?step (x # xs) (b, e) = fold ?step xs (b, e)" by auto
    have nx: "\<not> ?Q (x # xs) b x" using False by blast
    have eq: "find (?Q (x # xs) b) xs = find (?Q xs b) xs"
      using False by (intro find_cong) auto
    have fnd: "find (?Q (x # xs) b) (x # xs) = find (?Q xs b) xs"
      using eq by (simp only: find.simps if_not_P [OF nx])
    show ?thesis unfolding st Cons.IH fnd ..
  next
    case True
    then have st: "fold ?step (x # xs) (b, e) = fold ?step xs (f x, h x)" by simp
    show ?thesis
    proof (cases "\<exists>d \<in> set xs. P d \<and> f d < f x")
      case False
      then have none: "find (?Q xs (f x)) xs = None" by (auto simp: find_None_iff)
      have q: "?Q (x # xs) b x" using True False by force
      have fnd: "find (?Q (x # xs) b) (x # xs) = Some x"
        by (simp only: find.simps if_P [OF q])
      show ?thesis unfolding st Cons.IH none fnd by simp
    next
      case ex: True
      from ex_least_in_list [OF ex, of f] obtain d where
        d: "d \<in> set xs" "P d" "f d < f x" "\<forall>d' \<in> set xs. P d' \<and> f d' < f x \<longrightarrow> f d \<le> f d'"
        by blast
      then have "\<exists>d \<in> set xs. ?Q xs (f x) d" by blast
      then have some: "find (?Q xs (f x)) xs \<noteq> None" unfolding find_None_iff by blast
      have nx: "\<not> ?Q (x # xs) b x" using ex True by force
      have eq: "find (?Q (x # xs) b) xs = find (?Q xs (f x)) xs"
      proof (intro find_cong refl)
        fix y assume y: "y \<in> set xs"
        show "?Q (x # xs) b y = ?Q xs (f x) y"
        proof
          assume l: "?Q (x # xs) b y"
          then have "f y \<le> f d" using d True by force
          with d(3) have "f y < f x" by simp
          with l show "?Q xs (f x) y" using True by force
        next
          assume r: "?Q xs (f x) y"
          show "?Q (x # xs) b y"
          proof (intro conjI ballI impI)
            show "P y" using r by simp
            show "f y < b" using r True by simp
            fix d' assume "d' \<in> set (x # xs)" "P d' \<and> f d' < b"
            then show "f y \<le> f d'" using r by (cases "f d' < f x") force+
          qed
        qed
      qed
      have fnd: "find (?Q (x # xs) b) (x # xs) = find (?Q xs (f x)) xs"
        using eq by (simp only: find.simps if_not_P [OF nx])
      show ?thesis unfolding st Cons.IH fnd using some by (auto split: option.splits)
    qed
  qed
qed

lemma fold_first_min_Some:
  fixes f :: "'a \<Rightarrow> int"
  assumes "\<exists>d \<in> set ds. P d \<and> f d < b"
  shows "\<exists>d. fold (\<lambda>d (mn, r). if P d \<and> f d < mn then (f d, h d) else (mn, r)) ds (b, e) = (f d, h d)"
proof -
  let ?Q = "\<lambda>d. P d \<and> f d < b \<and> (\<forall>d' \<in> set ds. P d' \<and> f d' < b \<longrightarrow> f d \<le> f d')"
  from ex_least_in_list [OF assms, of f] have "\<exists>d \<in> set ds. ?Q d" by blast
  then have "find ?Q ds \<noteq> None" unfolding find_None_iff by blast
  then obtain d where "find ?Q ds = Some d" by blast
  then have "fold (\<lambda>d (mn, r). if P d \<and> f d < mn then (f d, h d) else (mn, r)) ds (b, e) = (f d, h d)"
    unfolding fold_first_min by simp
  then show ?thesis ..
qed

lemma select_fold_ex:
  assumes "\<not> walls (maze g) (posX g, posY g) dir"
    and "is_within_bounds (neighbor (posX g, posY g) dir)"
    and "distances (maze g) (neighbor (posX g, posY g) dir) - bonus g dir < 256"
  shows "\<exists>minDist md. fold (select_step g) all_dirs (MAZE_WIDTH * MAZE_HEIGHT, None) = (minDist, Some md)"
proof -
  let ?P = "\<lambda>d. \<not> walls (maze g) (posX g, posY g) d \<and> is_within_bounds (neighbor (posX g, posY g) d)"
  let ?f = "\<lambda>d. distances (maze g) (neighbor (posX g, posY g) d) - bonus g d"
  have step: "select_step g = (\<lambda>d (mn, r). if ?P d \<and> ?f d < mn then (?f d, Some d) else (mn, r))"
    by (intro ext) (auto simp: select_step_def neighbor_def is_within_bounds_def Let_def)
  have "dir \<in> set all_dirs" unfolding set_all_dirs by simp
  with assms have "\<exists>d \<in> set all_dirs. ?P d \<and> ?f d < 256" by blast
  from fold_first_min_Some [OF this, of Some None] have
    "\<exists>minDist md. fold (\<lambda>d (mn, r). if ?P d \<and> ?f d < mn then (?f d, Some d) else (mn, r))
        all_dirs (256, None) = (minDist, Some md)" by blast
  moreover have "MAZE_WIDTH * MAZE_HEIGHT = 256" by simp
  ultimately show ?thesis unfolding step by (simp only:)
qed

lemma return_fold_ex:
  assumes "\<not> walls (maze g) (posX g, posY g) dir"
    and "is_within_bounds (neighbor (posX g, posY g) dir)"
    and "distances (maze g) (neighbor (posX g, posY g) dir) < 256"
  shows "\<exists>minDist md. fold (return_step g) all_dirs (MAZE_WIDTH * MAZE_HEIGHT, None) = (minDist, Some md)"
proof -
  let ?P = "\<lambda>d. \<not> walls (maze g) (posX g, posY g) d \<and> is_within_bounds (neighbor (posX g, posY g) d)"
  let ?f = "\<lambda>d. distances (maze g) (neighbor (posX g, posY g) d)"
  have step: "return_step g = (\<lambda>d (mn, r). if ?P d \<and> ?f d < mn then (?f d, Some d) else (mn, r))"
    by (intro ext) (auto simp: return_step_def neighbor_def is_within_bounds_def Let_def)
  have "dir \<in> set all_dirs" unfolding set_all_dirs by simp
  with assms have "\<exists>d \<in> set all_dirs. ?P d \<and> ?f d < 256" by blast
  from fold_first_min_Some [OF this, of Some None] have
    "\<exists>minDist md. fold (\<lambda>d (mn, r). if ?P d \<and> ?f d < mn then (?f d, Some d) else (mn, r))
        all_dirs (256, None) = (minDist, Some md)" by blast
  moreover have "MAZE_WIDTH * MAZE_HEIGHT = 256" by simp
  ultimately show ?thesis unfolding step by (simp only:)
qed

lemma shortest_hops_le: "shortest_hops m S c d \<Longrightarrow> d \<le> 256"
  unfolding shortest_hops_def by (simp split: if_splits)

lemma floodFillToStartWithExploration_frame:
  "floodFillToStartWithExploration m = Inr m' \<Longrightarrow> walls m' = walls m \<and> visited m' = visited m"
  by (auto simp: floodFillToStartWithExploration_def Let_def split: sum.splits)

lemma updateWalls_frame [simp]:
  "posX (updateWalls sn g) = posX g" "posY (updateWalls sn g) = posY g"
  "direction (updateWalls sn g) = direction g" "currentMode (updateWalls sn g) = currentMode g"
  "explorePhaseComplete (updateWalls sn g) = explorePhaseComplete g"
  "visited (maze (updateWalls sn g)) = visited (maze g)"
  by (simp_all add: updateWalls_def Let_def)

lemma criticalPathsExplored_returns:
  "\<exists>b m'. criticalPathsExplored g = Inr (b, g\<lparr>maze := m'\<rparr>) \<and>
           walls m' = walls (maze g) \<and> visited m' = visited (maze g)"
proof -
  from floodFillToGoal_returns [of "posX g" "posY g" "maze g"] obtain m' where
    "floodFillToGoal (posX g) (posY g) (maze g) = Inr m'" "walls m' = walls (maze g)"
    "visited m' = visited (maze g)" by blast
  then show ?thesis
    apply (simp add: criticalPathsExplored_def Let_def)
    apply (rule exI [of _ m'])
    apply simp
    done
qed

text \<open>The state from which the flood fill at the end of the first part starts.\<close>

lemma return_flood_frame:
  assumes "return_flood j sn g = Inr (g1, lg)"
  shows "posX g1 = posX g \<and> posY g1 = posY g \<and> direction g1 = direction g \<and>
         currentMode g1 = currentMode g \<and>
         walls (maze g1) = walls (maze (if j then updateWalls sn g else g)) \<and>
         visited (maze g1) = visited (maze g)"
proof -
  let ?g1 = "if j then updateWalls sn g else g"
  have fr: "posX ?g1 = posX g" "posY ?g1 = posY g" "direction ?g1 = direction g"
    "currentMode ?g1 = currentMode g" "visited (maze ?g1) = visited (maze g)"
    by simp_all
  from criticalPathsExplored_returns [of ?g1] obtain b mc where
    cp: "criticalPathsExplored ?g1 = Inr (b, ?g1\<lparr>maze := mc\<rparr>)"
        "walls mc = walls (maze ?g1)" "visited mc = visited (maze ?g1)" by blast
  obtain direct g2 where
    d: "(if 4 * int (visitedCount (maze ?g1)) > 3 * (MAZE_WIDTH * MAZE_HEIGHT)
         then Inr (True, ?g1)
         else case criticalPathsExplored ?g1 of
                Inl e \<Rightarrow> Inl e
              | Inr (explored, g2) \<Rightarrow> Inr (explored \<or> posX g2 = 0 \<and> posY g2 = 0, g2))
        = (Inr (direct, g2) :: error + bool \<times> Globals)"
    and g2: "posX g2 = posX g" "posY g2 = posY g" "direction g2 = direction g"
       "currentMode g2 = currentMode g" "walls (maze g2) = walls (maze ?g1)"
       "visited (maze g2) = visited (maze g)"
    using cp fr by (cases "4 * int (visitedCount (maze ?g1)) > 3 * (MAZE_WIDTH * MAZE_HEIGHT)") auto
  show ?thesis
  proof (cases direct)
    case True
    let ?g3 = "if \<not> explorePhaseComplete g2 then g2\<lparr>explorePhaseComplete := True\<rparr> else g2"
    from floodFillToStart_returns [of "maze ?g3"] obtain m' where
      m': "floodFillToStart (maze ?g3) = Inr m'" "walls m' = walls (maze ?g3)"
          "visited m' = visited (maze ?g3)" by blast
    from assms have "g1 = ?g3\<lparr>maze := m'\<rparr>"
      unfolding return_flood_def Let_def d using True m'(1) by simp
    then show ?thesis using g2 m'(2,3) by simp
  next
    case False
    from assms obtain m' where
      m': "floodFillToStartWithExploration (maze g2) = Inr m'" and g1: "g1 = g2\<lparr>maze := m'\<rparr>"
      unfolding return_flood_def Let_def d using False by (auto split: sum.splits)
    from floodFillToStartWithExploration_frame [OF m'] g1 g2 show ?thesis by simp
  qed
qed

text \<open>With more than three quarters of the cells visited the first part returns, and the
  exploration phase is over.\<close>

lemma return_flood_direct:
  assumes "3 * (MAZE_WIDTH * MAZE_HEIGHT) < 4 * int (visitedCount (maze g))"
  shows "\<exists>g1 lg m0. return_flood j sn g = Inr (g1, lg) \<and> explorePhaseComplete g1 \<and>
           floodFillToStart m0 = Inr (maze g1) \<and>
           walls m0 = walls (maze (if j then updateWalls sn g else g))"
proof -
  let ?g1 = "if j then updateWalls sn g else g"
  have "visitedCount (maze ?g1) = visitedCount (maze g)" by (simp add: visitedCount_def)
  with assms have c: "4 * int (visitedCount (maze ?g1)) > 3 * (MAZE_WIDTH * MAZE_HEIGHT)" by simp
  let ?g3 = "if \<not> explorePhaseComplete ?g1 then ?g1\<lparr>explorePhaseComplete := True\<rparr> else ?g1"
  from floodFillToStart_returns [of "maze ?g3"] obtain m' where
    m': "floodFillToStart (maze ?g3) = Inr m'" by blast
  have e: "explorePhaseComplete (?g3\<lparr>maze := m'\<rparr>)" by simp
  have w: "walls (maze ?g3) = walls (maze ?g1)" by simp
  have "\<exists>lg. return_flood j sn g = Inr (?g3\<lparr>maze := m'\<rparr>, lg)"
    unfolding return_flood_def Let_def if_P [OF c] using m' by simp
  with e w m' show ?thesis by (metis Globals.select_convs(7) Globals.surjective Globals.update_convs(7))
qed


lemma return_move_blocked:
  assumes "return_move False g = Inr (g', tr)"
  shows "posX g' = posX g \<and> posY g' = posY g \<and> currentMode g' = currentMode g \<and>
         explorePhaseComplete g' = explorePhaseComplete g \<and>
         (API_moveForward \<in> set tr \<longrightarrow>
            (if explorePhaseComplete g then floodFillToStart else floodFillToStartWithExploration)
               ((maze g)\<lparr>walls := write_edge (walls (maze g)) (posX g, posY g) (direction g') True\<rparr>)
              = Inr (maze g') \<and>
            walls (maze g') = write_edge (walls (maze g)) (posX g, posY g) (direction g') True)"
proof -
  obtain minDist minDir where sel:
    "fold (return_step g) all_dirs (MAZE_WIDTH * MAZE_HEIGHT, None) = (minDist, minDir)"
    by (cases "fold (return_step g) all_dirs (MAZE_WIDTH * MAZE_HEIGHT, None)")
  show ?thesis
  proof (cases minDir)
    case None
    from floodFillToStart_returns [of "maze g"] obtain m' where
      "floodFillToStart (maze g) = Inr m'" by blast
    with assms sel None show ?thesis
      by (auto simp: return_move_def simp del: fold_simps)
  next
    case (Some md)
    obtain d tr0 where t: "turn_loop (direction g) md = (d, tr0)"
      by (cases "turn_loop (direction g) md")
    with turn_loop_dir [of "direction g" md] have d: "d = md" by simp
    let ?m2 = "(maze g)\<lparr>walls := write_edge (walls (maze g)) (posX g, posY g) md True\<rparr>"
    let ?fl = "if explorePhaseComplete g then floodFillToStart ?m2
               else floodFillToStartWithExploration ?m2"
    from assms sel Some t d obtain m' where
      fl: "?fl = Inr m'" and g': "g' = g\<lparr>direction := md, maze := ?m2\<rparr>\<lparr>maze := m'\<rparr>"
      by (auto simp: return_move_def Let_def simp del: fold_simps split: sum.splits if_splits)
    have w: "walls m' = walls ?m2"
    proof (cases "explorePhaseComplete g")
      case True
      with fl floodFillToStart_returns [of ?m2] show ?thesis by auto
    next
      case False
      with fl floodFillToStartWithExploration_frame [of ?m2 m'] show ?thesis by simp
    qed
    from fl w show ?thesis unfolding g' by (simp split: if_splits)
  qed
qed

lemma return_move_returns:
  assumes "explorePhaseComplete g"
  shows "\<exists>g' tr. return_move False g = Inr (g', tr) \<and>
           (API_moveForward \<in> set tr \<longleftrightarrow>
              (\<exists>minDist md. fold (return_step g) all_dirs (MAZE_WIDTH * MAZE_HEIGHT, None)
                               = (minDist, Some md)))"
proof -
  obtain minDist minDir where sel:
    "fold (return_step g) all_dirs (MAZE_WIDTH * MAZE_HEIGHT, None) = (minDist, minDir)"
    by (cases "fold (return_step g) all_dirs (MAZE_WIDTH * MAZE_HEIGHT, None)")
  show ?thesis
  proof (cases minDir)
    case None
    from floodFillToStart_returns [of "maze g"] obtain m' where
      "floodFillToStart (maze g) = Inr m'" by blast
    with sel None show ?thesis
      by (simp add: return_move_def del: fold_simps)
  next
    case (Some md)
    obtain d tr0 where t: "turn_loop (direction g) md = (d, tr0)"
      by (cases "turn_loop (direction g) md")
    let ?m2 = "(maze g)\<lparr>walls := write_edge (walls (maze g)) (posX g, posY g) d True\<rparr>"
    from floodFillToStart_returns [of ?m2] obtain m' where
      "floodFillToStart ?m2 = Inr m'" by blast
    with sel Some t assms show ?thesis
      by (simp add: return_move_def Let_def del: fold_simps)
  qed
qed


lemma moveToNextCellReturn_blocked:
  assumes r: "moveToNextCellReturn j sn False g = Inr (j', g', tr)"
  defines "gu \<equiv> (if j then updateWalls sn g else g)"
  shows "posX g' = posX g \<and> posY g' = posY g \<and> currentMode g' = currentMode g \<and>
         (API_moveForward \<in> set tr \<longrightarrow>
            walls (maze g') = write_edge (walls (maze gu)) (posX g, posY g) (direction g') True \<and>
            (\<exists>m1. walls m1 = write_edge (walls (maze gu)) (posX g, posY g) (direction g') True \<and>
                  visited m1 = visited (maze g) \<and>
                  (if explorePhaseComplete g' then floodFillToStart m1
                   else floodFillToStartWithExploration m1) = Inr (maze g')))"
proof -
  from r obtain g1 lg tr1 where
    f: "return_flood j sn g = Inr (g1, lg)" and mv: "return_move False g1 = Inr (g', tr1)"
    and tr: "tr = lg @ tr1"
    by (auto simp: moveToNextCellReturn_def split: sum.splits)
  note fr = return_flood_frame [OF f, folded gu_def]
  note bl = return_move_blocked [OF mv]
  have lg: "API_moveForward \<notin> set lg"
    using f by (auto simp: return_flood_def Let_def split: sum.splits if_splits)
  let ?m1 = "(maze g1)\<lparr>walls := write_edge (walls (maze g1)) (posX g1, posY g1) (direction g') True\<rparr>"
  have "walls (maze g') = write_edge (walls (maze gu)) (posX g, posY g) (direction g') True \<and>
        (\<exists>m1. walls m1 = write_edge (walls (maze gu)) (posX g, posY g) (direction g') True \<and>
              visited m1 = visited (maze g) \<and>
              (if explorePhaseComplete g' then floodFillToStart m1
               else floodFillToStartWithExploration m1) = Inr (maze g'))"
    if "API_moveForward \<in> set tr"
  proof -
    from that tr lg have a: "API_moveForward \<in> set tr1" by simp
    with bl have
      fl: "(if explorePhaseComplete g1 then floodFillToStart else floodFillToStartWithExploration) ?m1
             = Inr (maze g')"
      and w: "walls (maze g') = write_edge (walls (maze g1)) (posX g1, posY g1) (direction g') True"
      by blast+
    from bl have e: "explorePhaseComplete g' = explorePhaseComplete g1" by blast
    have w1: "walls ?m1 = write_edge (walls (maze gu)) (posX g, posY g) (direction g') True"
      and v1: "visited ?m1 = visited (maze g)"
      using fr by simp_all
    have fl': "(if explorePhaseComplete g' then floodFillToStart ?m1
                else floodFillToStartWithExploration ?m1) = Inr (maze g')"
      using fl e by (simp split: if_splits)
    from w fr have "walls (maze g') = write_edge (walls (maze gu)) (posX g, posY g) (direction g') True"
      by simp
    with w1 v1 fl' show ?thesis by blast
  qed
  with fr bl show ?thesis by simp
qed

lemma moveToNextCellReturn_direct:
  assumes "3 * (MAZE_WIDTH * MAZE_HEIGHT) < 4 * int (visitedCount (maze g))"
  shows "\<exists>g' tr. moveToNextCellReturn j sn False g = Inr (False, g', tr) \<and> explorePhaseComplete g'"
proof -
  from return_flood_direct [OF assms, of j sn] obtain g1 lg where
    f: "return_flood j sn g = Inr (g1, lg)" and e: "explorePhaseComplete g1" by blast
  from return_move_returns [OF e] obtain g' tr where mv: "return_move False g1 = Inr (g', tr)"
    by blast
  from return_move_blocked [OF mv] e have "explorePhaseComplete g'" by simp
  with f mv show ?thesis by (simp add: moveToNextCellReturn_def)
qed

text \<open>
  C4. A move that reports blocked. In ffv3.c (move_forward_update_state, SEARCH and RETURN)
  the position and the mode stay, the wall is recorded at the current cell in the facing
  direction and on the opposite side of the neighbour when that is in the grid, and the
  distance field is the result of flood_fill_goal from the four goal cells in SEARCH and of
  flood_fill_start in RETURN; with symmetric walls it holds the least open-edge hop counts
  to that target. In ff.c the SEARCH phase runs moveToNextCell: position and mode stay, the
  wall is recorded on both sides, and the field is the result of floodFillToGoal, which is
  rooted at the single goal cell goal_target nearest to the position, not at the goal
  region. The RETURN phase of ff.c runs moveToNextCellReturn: whenever the call returns
  after a blocked move, position and mode are unchanged, the wall is recorded on both
  sides, and the field is the result of floodFillToStart when explorePhaseComplete holds
  (the least hop counts to the start for symmetric walls) and of the exploration-biased
  floodFillToStartWithExploration otherwise; with more than three quarters of the cells
  visited the call returns and explorePhaseComplete holds. In ff.c the move is attempted
  only when a direction has been found.
\<close>

theorem blocked_move_refill:
  "(is_within_bounds (pos ms) \<and> mode ms \<noteq> SPEED_MODE \<longrightarrow>
     (\<exists>ms' m' tr.
        move_forward_update_state False ms m = Inr (ms', m', tr) \<and>
        pos ms' = pos ms \<and> mode ms' = mode ms \<and>
        has_wall m' (pos ms) (orientation ms') \<and>
        (is_within_bounds (neighbor (pos ms) (orientation ms')) \<longrightarrow>
           has_wall m' (neighbor (pos ms) (orientation ms')) (get_opposite_direction (orientation ms'))) \<and>
        (if mode ms = SEARCH_MODE then flood_fill_goal else flood_fill_start)
           (set_wall m (pos ms) (orientation ms')) = Inr m' \<and>
        (wall_symmetric m \<longrightarrow>
           (\<forall>c. is_within_bounds c \<longrightarrow>
              shortest_hops m' (if mode ms = SEARCH_MODE then {g. is_at_goal g} else {(0, 0)})
                c (distances m' c)))))
   \<and>
   (is_within_bounds (posX g, posY g) \<and> currentMode g = SEARCH_MODE \<longrightarrow>
     (\<exists>g' tr.
        moveToNextCell False g = Inr (g', tr) \<and>
        posX g' = posX g \<and> posY g' = posY g \<and> currentMode g' = SEARCH_MODE \<and>
        (API_moveForward \<in> set tr \<longrightarrow>
           walls (maze g') (posX g, posY g) (direction g') \<and>
           (is_within_bounds (neighbor (posX g, posY g) (direction g')) \<longrightarrow>
              walls (maze g') (neighbor (posX g, posY g) (direction g'))
                (get_opposite_direction (direction g'))) \<and>
           floodFillToGoal (posX g) (posY g)
              ((maze g)\<lparr>walls := write_edge (walls (maze g)) (posX g, posY g) (direction g') True\<rparr>)
              = Inr (maze g') \<and>
           (wall_symmetric (maze g) \<longrightarrow>
              (\<forall>c. is_within_bounds c \<longrightarrow>
                 shortest_hops (maze g') {goal_target (posX g) (posY g)} c (distances (maze g') c))))))
   \<and>
   (is_within_bounds (posX r, posY r) \<longrightarrow>
     (3 * (MAZE_WIDTH * MAZE_HEIGHT) < 4 * int (visitedCount (maze r)) \<longrightarrow>
        (\<exists>g' tr. moveToNextCellReturn j sn False r = Inr (False, g', tr) \<and>
                 explorePhaseComplete g')) \<and>
     (\<forall>j' g' tr.
        moveToNextCellReturn j sn False r = Inr (j', g', tr) \<longrightarrow>
        posX g' = posX r \<and> posY g' = posY r \<and> currentMode g' = currentMode r \<and>
        (API_moveForward \<in> set tr \<longrightarrow>
           walls (maze g') (posX r, posY r) (direction g') \<and>
           (is_within_bounds (neighbor (posX r, posY r) (direction g')) \<longrightarrow>
              walls (maze g') (neighbor (posX r, posY r) (direction g'))
                (get_opposite_direction (direction g'))) \<and>
           (\<exists>m1. walls m1 = write_edge (walls (maze (if j then updateWalls sn r else r)))
                               (posX r, posY r) (direction g') True \<and>
                 visited m1 = visited (maze r) \<and>
                 (if explorePhaseComplete g' then floodFillToStart m1
                  else floodFillToStartWithExploration m1) = Inr (maze g')) \<and>
           (explorePhaseComplete g' \<and> wall_symmetric (maze r) \<longrightarrow>
              (\<forall>c. is_within_bounds c \<longrightarrow>
                 shortest_hops (maze g') {(0, 0)} c (distances (maze g') c))))))"
proof (intro conjI impI allI)
  assume h: "is_within_bounds (pos ms) \<and> mode ms \<noteq> SPEED_MODE"
  let ?d = "fst (choose_next_direction ms m)"
  let ?ms' = "fst (turn_to_direction ms ?d)"
  let ?m1 = "set_wall m (pos ms) ?d"
  from h move_forward_update_state_blocked [of ms m] obtain m' tr where
    r: "move_forward_update_state False ms m = Inr (?ms', m', tr)"
       "(if mode ms = SEARCH_MODE then flood_fill_goal else flood_fill_start) ?m1 = Inr m'"
       "walls m' = walls ?m1" by blast
  have w1: "has_wall m' (pos ms) ?d" using h r(3) by (simp add: has_wall_def walls_set_wall)
  have w2: "has_wall m' (neighbor (pos ms) ?d) (get_opposite_direction ?d)"
    if "is_within_bounds (neighbor (pos ms) ?d)"
    using h r(3) that by (simp add: has_wall_def walls_set_wall)
  have sh: "shortest_hops m' (if mode ms = SEARCH_MODE then {g. is_at_goal g} else {(0, 0)})
              c (distances m' c)"
    if sym: "wall_symmetric m" and c: "is_within_bounds c" for c
  proof -
    have sym1: "wall_symmetric ?m1" using sym by (rule set_wall_symmetric)
    have eq: "shortest_hops m' = shortest_hops ?m1" using r(3) by (rule shortest_hops_walls)
    show ?thesis
    proof (cases "mode ms = SEARCH_MODE")
      case True
      with flood_fill_goal_correct [OF sym1] r(2) c show ?thesis by (auto simp: eq simp del: split_paired_All)
    next
      case False
      with flood_fill_start_correct [OF sym1] r(2) c show ?thesis by (auto simp: eq simp del: split_paired_All)
    qed
  qed
  show "\<exists>ms' m' tr.
        move_forward_update_state False ms m = Inr (ms', m', tr) \<and>
        pos ms' = pos ms \<and> mode ms' = mode ms \<and>
        has_wall m' (pos ms) (orientation ms') \<and>
        (is_within_bounds (neighbor (pos ms) (orientation ms')) \<longrightarrow>
           has_wall m' (neighbor (pos ms) (orientation ms')) (get_opposite_direction (orientation ms'))) \<and>
        (if mode ms = SEARCH_MODE then flood_fill_goal else flood_fill_start)
           (set_wall m (pos ms) (orientation ms')) = Inr m' \<and>
        (wall_symmetric m \<longrightarrow>
           (\<forall>c. is_within_bounds c \<longrightarrow>
              shortest_hops m' (if mode ms = SEARCH_MODE then {g. is_at_goal g} else {(0, 0)})
                c (distances m' c)))"
    apply (rule exI [of _ ?ms'], rule exI [of _ m'], rule exI [of _ tr])
    using r(1,2) w1 w2 sh by simp
next
  assume h: "is_within_bounds (posX g, posY g) \<and> currentMode g = SEARCH_MODE"
  then have sm: "currentMode g = SEARCH_MODE" by simp
  from moveToNextCell_returns [of False g] obtain g' tr where
    r: "moveToNextCell False g = Inr (g', tr)" "currentMode g' = currentMode g"
       "posX g' = posX g" "posY g' = posY g"
       "API_moveForward \<in> set tr \<longrightarrow>
          (\<exists>minDist. fold (select_step g) all_dirs (MAZE_WIDTH * MAZE_HEIGHT, None) =
              (minDist, Some (direction g')))" by auto
  let ?p = "(posX g, posY g)" and ?d = "direction g'"
  let ?m1 = "(maze g)\<lparr>walls := write_edge (walls (maze g)) ?p ?d True\<rparr>"
  have att: "walls (maze g') ?p ?d \<and>
           (is_within_bounds (neighbor ?p ?d) \<longrightarrow>
              walls (maze g') (neighbor ?p ?d) (get_opposite_direction ?d)) \<and>
           floodFillToGoal (posX g) (posY g) ?m1 = Inr (maze g') \<and>
           (wall_symmetric (maze g) \<longrightarrow>
              (\<forall>c. is_within_bounds c \<longrightarrow>
                 shortest_hops (maze g') {goal_target (posX g) (posY g)} c (distances (maze g') c)))"
    if "API_moveForward \<in> set tr"
  proof -
    from that r(5) obtain minDist where
      sel: "fold (select_step g) all_dirs (MAZE_WIDTH * MAZE_HEIGHT, None) = (minDist, Some ?d)"
      by blast
    from sm have "currentMode g \<noteq> SPEED_MODE" by simp
    from moveToNextCell_blocked [OF sel this] obtain m' where
      b: "moveToNextCell False g =
            Inr (g\<lparr>direction := ?d, maze := ?m1\<rparr>\<lparr>maze := m'\<rparr>,
                 snd (turn_loop (direction g) ?d) @ [API_moveForward])"
         "(if currentMode g = SEARCH_MODE
           then floodFillToGoal (posX g) (posY g) (maze (g\<lparr>direction := ?d, maze := ?m1\<rparr>))
           else floodFillToStart (maze (g\<lparr>direction := ?d, maze := ?m1\<rparr>))) = Inr m'"
         "walls m' = walls (maze (g\<lparr>direction := ?d, maze := ?m1\<rparr>))"
      by blast
    from b(1) r(1) have "g' = g\<lparr>direction := ?d, maze := ?m1\<rparr>\<lparr>maze := m'\<rparr>" by simp
    then have "maze g' = maze (g\<lparr>direction := ?d, maze := ?m1\<rparr>\<lparr>maze := m'\<rparr>)"
      by (rule arg_cong)
    then have mg: "maze g' = m'" by simp
    have fl': "floodFillToGoal (posX g) (posY g) ?m1 = Inr (maze g')"
      using b(2) sm by (simp add: mg)
    have w': "walls (maze g') = write_edge (walls (maze g)) ?p ?d True" using b(3) by (simp add: mg)
    have sh: "shortest_hops (maze g') {goal_target (posX g) (posY g)} c (distances (maze g') c)"
      if sym: "wall_symmetric (maze g)" and c: "is_within_bounds c" for c
    proof -
      have sym1: "wall_symmetric ?m1" using sym by (rule write_edge_symmetric)
      have "walls (maze g') = walls ?m1" using w' by simp
      then have eq: "shortest_hops (maze g') = shortest_hops ?m1" by (rule shortest_hops_walls)
      from floodFillToGoal_correct [OF sym1, of "posX g" "posY g"] fl' c show ?thesis
        by (auto simp: eq simp del: split_paired_All)
    qed
    show ?thesis using w' fl' sh by (simp add: write_edge_apply)
  qed
  show "\<exists>g' tr.
        moveToNextCell False g = Inr (g', tr) \<and>
        posX g' = posX g \<and> posY g' = posY g \<and> currentMode g' = SEARCH_MODE \<and>
        (API_moveForward \<in> set tr \<longrightarrow>
           walls (maze g') (posX g, posY g) (direction g') \<and>
           (is_within_bounds (neighbor (posX g, posY g) (direction g')) \<longrightarrow>
              walls (maze g') (neighbor (posX g, posY g) (direction g'))
                (get_opposite_direction (direction g'))) \<and>
           floodFillToGoal (posX g) (posY g)
              ((maze g)\<lparr>walls := write_edge (walls (maze g)) (posX g, posY g) (direction g') True\<rparr>)
              = Inr (maze g') \<and>
           (wall_symmetric (maze g) \<longrightarrow>
              (\<forall>c. is_within_bounds c \<longrightarrow>
                 shortest_hops (maze g') {goal_target (posX g) (posY g)} c (distances (maze g') c))))"
    apply (rule exI [of _ g'], rule exI [of _ tr])
    using r(1-4) sm att by simp
next
  assume "3 * (MAZE_WIDTH * MAZE_HEIGHT) < 4 * int (visitedCount (maze r))"
  then show "\<exists>g' tr. moveToNextCellReturn j sn False r = Inr (False, g', tr) \<and>
                    explorePhaseComplete g'"
    by (rule moveToNextCellReturn_direct)
next
  fix j' g' tr
  assume res: "moveToNextCellReturn j sn False r = Inr (j', g', tr)"
  let ?gu = "if j then updateWalls sn r else r"
  let ?p = "(posX r, posY r)" and ?d = "direction g'"
  note bl = moveToNextCellReturn_blocked [OF res]
  have att: "walls (maze g') ?p ?d \<and>
           (is_within_bounds (neighbor ?p ?d) \<longrightarrow>
              walls (maze g') (neighbor ?p ?d) (get_opposite_direction ?d)) \<and>
           (\<exists>m1. walls m1 = write_edge (walls (maze ?gu)) ?p ?d True \<and>
                 visited m1 = visited (maze r) \<and>
                 (if explorePhaseComplete g' then floodFillToStart m1
                  else floodFillToStartWithExploration m1) = Inr (maze g')) \<and>
           (explorePhaseComplete g' \<and> wall_symmetric (maze r) \<longrightarrow>
              (\<forall>c. is_within_bounds c \<longrightarrow>
                 shortest_hops (maze g') {(0, 0)} c (distances (maze g') c)))"
    if a: "API_moveForward \<in> set tr"
  proof -
    from bl a obtain m1 where
      w: "walls (maze g') = write_edge (walls (maze ?gu)) ?p ?d True"
      and m1: "walls m1 = write_edge (walls (maze ?gu)) ?p ?d True" "visited m1 = visited (maze r)"
        "(if explorePhaseComplete g' then floodFillToStart m1
          else floodFillToStartWithExploration m1) = Inr (maze g')"
      by blast
    have sh: "shortest_hops (maze g') {(0, 0)} c (distances (maze g') c)"
      if e: "explorePhaseComplete g'" and sym: "wall_symmetric (maze r)"
        and c: "is_within_bounds c" for c
    proof -
      have "wall_symmetric (maze ?gu)" using sym by (simp add: updateWalls_symmetric)
      then have "wall_symmetric ((maze ?gu)\<lparr>walls := write_edge (walls (maze ?gu)) ?p ?d True\<rparr>)"
        by (rule write_edge_symmetric)
      then have sym1: "wall_symmetric m1"
        using m1(1) wall_symmetric_walls [of m1 "(maze ?gu)\<lparr>walls := write_edge (walls (maze ?gu)) ?p ?d True\<rparr>"]
        by simp
      have "walls (maze g') = walls m1" using w m1(1) by simp
      then have eq: "shortest_hops (maze g') = shortest_hops m1" by (rule shortest_hops_walls)
      from floodFillToStart_correct [OF sym1] m1(3) e c show ?thesis
        by (auto simp: eq simp del: split_paired_All)
    qed
    from w m1 sh show ?thesis by (auto simp: write_edge_apply simp del: split_paired_All)
  qed
  from bl att show "posX g' = posX r" "posY g' = posY r" "currentMode g' = currentMode r" 
    by blast+
  {
    assume a: "API_moveForward \<in> set tr"
    from att [OF a] show "walls (maze g') (posX r, posY r) (direction g')" by blast
    from att [OF a] show "\<exists>m1. walls m1 = write_edge (walls (maze (if j then updateWalls sn r else r)))
                               (posX r, posY r) (direction g') True \<and>
                 visited m1 = visited (maze r) \<and>
                 (if explorePhaseComplete g' then floodFillToStart m1
                  else floodFillToStartWithExploration m1) = Inr (maze g')" by blast
    {
      assume "is_within_bounds (neighbor (posX r, posY r) (direction g'))"
      with att [OF a] show "walls (maze g') (neighbor (posX r, posY r) (direction g'))
                (get_opposite_direction (direction g'))" by blast
    }
    {
      fix c assume "explorePhaseComplete g' \<and> wall_symmetric (maze r)" "is_within_bounds c"
      with att [OF a] show "shortest_hops (maze g') {(0, 0)} c (distances (maze g') c)" by blast
    }
  }
qed


lemma length_all_cells: "length all_cells = 256"
  by (simp add: all_cells_def length_concat comp_def sum_list_triv)

lemma moveToNextCellReturn_attempt:
  assumes cnt: "3 * (MAZE_WIDTH * MAZE_HEIGHT) < 4 * int (visitedCount (maze g))"
    and sym: "wall_symmetric (maze g)"
    and opn: "\<not> walls (maze (if j then updateWalls sn g else g)) (posX g, posY g) dir"
    and nb: "neighbor (posX g, posY g) dir = (0, 0)"
  shows "\<exists>g' tr. moveToNextCellReturn j sn False g = Inr (False, g', tr) \<and>
                 API_moveForward \<in> set tr"
proof -
  let ?gu = "if j then updateWalls sn g else g"
  from return_flood_direct [OF cnt, of j sn] obtain g1 lg m0 where
    f: "return_flood j sn g = Inr (g1, lg)" and e: "explorePhaseComplete g1"
    and fl: "floodFillToStart m0 = Inr (maze g1)" and w0: "walls m0 = walls (maze ?gu)" by blast
  note fr = return_flood_frame [OF f]
  have "wall_symmetric (maze ?gu)" using sym by (simp add: updateWalls_symmetric)
  with w0 have sym0: "wall_symmetric m0" using wall_symmetric_walls [of m0 "maze ?gu"] by simp
  have inb: "is_within_bounds (0, 0)" by (simp add: is_within_bounds_def)
  from floodFillToStart_correct [OF sym0] fl inb
  have "shortest_hops m0 {(0, 0)} (0, 0) (distances (maze g1) (0, 0))"
    by (auto simp del: split_paired_All)
  from shortest_hops_source [OF this _ inb] have d0: "distances (maze g1) (0, 0) = 0" by simp
  have "\<exists>minDist md. fold (return_step g1) all_dirs (MAZE_WIDTH * MAZE_HEIGHT, None) = (minDist, Some md)"
  proof (rule return_fold_ex [of g1 dir])
    show "\<not> walls (maze g1) (posX g1, posY g1) dir" using opn fr by simp
    show "is_within_bounds (neighbor (posX g1, posY g1) dir)" using nb fr inb by simp
    show "distances (maze g1) (neighbor (posX g1, posY g1) dir) < 256" using nb fr d0 by simp
  qed
  with return_move_returns [OF e] obtain g' tr where
    mv: "return_move False g1 = Inr (g', tr)" and a: "API_moveForward \<in> set tr" by blast
  from f mv a show ?thesis by (simp add: moveToNextCellReturn_def)
qed

abbreviation no_walls_sensed :: sensors where
  "no_walls_sensed \<equiv> \<lparr>wallFront = False, wallRight = False, wallLeft = False\<rparr>"

theorem blocked_move_refill_witness:
  "(\<exists>ms' m' tr.
      move_forward_update_state False blank_mouse (init_maze blank_maze) = Inr (ms', m', tr) \<and>
      pos ms' = (0, 0) \<and> orientation ms' = NORTH \<and> mode ms' = SEARCH_MODE \<and>
      has_wall m' (0, 0) NORTH \<and> has_wall m' (0, 1) SOUTH \<and>
      flood_fill_goal (set_wall (init_maze blank_maze) (0, 0) NORTH) = Inr m' \<and>
      shortest_hops m' {g. is_at_goal g} (0, 0) (distances m' (0, 0))) \<and>
   (\<exists>g' tr.
      moveToNextCell False (blank_globals\<lparr>maze := initializeMaze_arrays blank_maze\<rparr>) = Inr (g', tr) \<and>
      API_moveForward \<in> set tr \<and> posX g' = 0 \<and> posY g' = 0 \<and> direction g' = NORTH \<and>
      walls (maze g') (0, 0) NORTH \<and> walls (maze g') (0, 1) SOUTH \<and>
      shortest_hops (maze g') {(7, 7)} (0, 0) (distances (maze g') (0, 0))) \<and>
   (\<exists>g' tr.
      moveToNextCellReturn False no_walls_sensed False explored_globals = Inr (False, g', tr) \<and>
      API_moveForward \<in> set tr \<and> explorePhaseComplete g' \<and> posX g' = 0 \<and> posY g' = 1 \<and>
      currentMode g' = RETURN_MODE \<and> walls (maze g') (0, 1) (direction g') \<and>
      shortest_hops (maze g') {(0, 0)} (0, 1) (distances (maze g') (0, 1)))"
proof -
  let ?m = "init_maze blank_maze"
  let ?g = "blank_globals\<lparr>maze := initializeMaze_arrays blank_maze\<rparr>"
  let ?r = "explored_globals"
  have h1: "is_within_bounds (pos blank_mouse) \<and> mode blank_mouse \<noteq> SPEED_MODE"
    by (simp add: blank_mouse_def is_within_bounds_def)
  have h2: "is_within_bounds (posX ?g, posY ?g) \<and> currentMode ?g = SEARCH_MODE"
    by (simp add: blank_globals_def is_within_bounds_def)
  have h3: "is_within_bounds (posX ?r, posY ?r)"
    by (simp add: explored_globals_def is_within_bounds_def)
  have s1: "wall_symmetric ?m" by (rule init_maze_symmetric)
  have s2: "wall_symmetric (maze ?g)" by (simp add: initializeMaze_arrays_symmetric)
  have s3: "wall_symmetric (maze ?r)"
    using wall_symmetric_walls [of "maze ?r" "initializeMaze_arrays blank_maze"]
    by (simp add: explored_globals_def initializeMaze_arrays_symmetric)
  have cnt: "3 * (MAZE_WIDTH * MAZE_HEIGHT) < 4 * int (visitedCount (maze ?r))"
    by (simp add: visitedCount_def explored_globals_def length_all_cells)
  have inb: "is_within_bounds (0, 0)" "is_within_bounds (0, 1)" by (simp_all add: is_within_bounds_def)
  note inst = blocked_move_refill [where ms = blank_mouse and m = ?m and g = ?g and r = ?r
      and j = False and sn = no_walls_sensed]
  from inst h1 obtain ms' m' tr where
    a: "move_forward_update_state False blank_mouse ?m = Inr (ms', m', tr)"
       "pos ms' = pos blank_mouse" "mode ms' = mode blank_mouse"
       "has_wall m' (pos blank_mouse) (orientation ms')"
       "is_within_bounds (neighbor (pos blank_mouse) (orientation ms')) \<longrightarrow>
           has_wall m' (neighbor (pos blank_mouse) (orientation ms')) (get_opposite_direction (orientation ms'))"
       "(if mode blank_mouse = SEARCH_MODE then flood_fill_goal else flood_fill_start)
           (set_wall ?m (pos blank_mouse) (orientation ms')) = Inr m'"
       "wall_symmetric ?m \<longrightarrow>
           (\<forall>c. is_within_bounds c \<longrightarrow>
              shortest_hops m' (if mode blank_mouse = SEARCH_MODE then {g. is_at_goal g} else {(0, 0)})
                c (distances m' c))"
    by blast
  from move_forward_update_state_returns [of False blank_mouse ?m] a(1)
  have o: "orientation ms' = NORTH" by (auto simp: choose_start)
  from a(7) s1 inb(1) have sh1: "shortest_hops m' {g. is_at_goal g} (0, 0) (distances m' (0, 0))"
    by (simp add: blank_mouse_def del: split_paired_All)
  have part1: "\<exists>ms' m' tr.
      move_forward_update_state False blank_mouse ?m = Inr (ms', m', tr) \<and>
      pos ms' = (0, 0) \<and> orientation ms' = NORTH \<and> mode ms' = SEARCH_MODE \<and>
      has_wall m' (0, 0) NORTH \<and> has_wall m' (0, 1) SOUTH \<and>
      flood_fill_goal (set_wall ?m (0, 0) NORTH) = Inr m' \<and>
      shortest_hops m' {g. is_at_goal g} (0, 0) (distances m' (0, 0))"
    apply (rule exI [of _ ms'], rule exI [of _ m'], rule exI [of _ tr])
    using a(1-6) o sh1 inb by (simp add: blank_mouse_def neighbor_def)
  from inst h2 obtain g' tr2 where
    b: "moveToNextCell False ?g = Inr (g', tr2)" "posX g' = posX ?g" "posY g' = posY ?g"
       "API_moveForward \<in> set tr2 \<longrightarrow>
           walls (maze g') (posX ?g, posY ?g) (direction g') \<and>
           (is_within_bounds (neighbor (posX ?g, posY ?g) (direction g')) \<longrightarrow>
              walls (maze g') (neighbor (posX ?g, posY ?g) (direction g'))
                (get_opposite_direction (direction g'))) \<and>
           floodFillToGoal (posX ?g) (posY ?g)
              ((maze ?g)\<lparr>walls := write_edge (walls (maze ?g)) (posX ?g, posY ?g) (direction g') True\<rparr>)
              = Inr (maze g') \<and>
           (wall_symmetric (maze ?g) \<longrightarrow>
              (\<forall>c. is_within_bounds c \<longrightarrow>
                 shortest_hops (maze g') {goal_target (posX ?g) (posY ?g)} c (distances (maze g') c)))"
    by blast
  from h2 have "currentMode ?g \<noteq> SPEED_MODE" by simp
  from moveToNextCell_blocked [OF select_start this] b(1)
  have tr2: "tr2 = snd (turn_loop (direction ?g) NORTH) @ [API_moveForward]"
    and d: "direction g' = NORTH"
    by auto
  from tr2 have mv: "API_moveForward \<in> set tr2" by simp
  from b(4) mv s2 inb(1) have
    w: "walls (maze g') (posX ?g, posY ?g) (direction g')"
       "is_within_bounds (neighbor (posX ?g, posY ?g) (direction g')) \<longrightarrow>
              walls (maze g') (neighbor (posX ?g, posY ?g) (direction g'))
                (get_opposite_direction (direction g'))"
    and sh2: "shortest_hops (maze g') {goal_target (posX ?g) (posY ?g)}
                   (0, 0) (distances (maze g') (0, 0))"
    by blast+
  have part2: "\<exists>g' tr.
      moveToNextCell False ?g = Inr (g', tr) \<and>
      API_moveForward \<in> set tr \<and> posX g' = 0 \<and> posY g' = 0 \<and> direction g' = NORTH \<and>
      walls (maze g') (0, 0) NORTH \<and> walls (maze g') (0, 1) SOUTH \<and>
      shortest_hops (maze g') {(7, 7)} (0, 0) (distances (maze g') (0, 0))"
    apply (rule exI [of _ g'], rule exI [of _ tr2])
    using b(1-3) mv d w sh2 inb
    by (simp add: blank_globals_def neighbor_def goal_target_start)
  from inst h3 cnt obtain g3 tr3 where
    c: "moveToNextCellReturn False no_walls_sensed False ?r = Inr (False, g3, tr3)"
       "explorePhaseComplete g3" by blast
  have "\<exists>g' tr. moveToNextCellReturn False no_walls_sensed False ?r = Inr (False, g', tr) \<and>
                API_moveForward \<in> set tr"
  proof (rule moveToNextCellReturn_attempt [OF cnt s3, of False no_walls_sensed SOUTH])
    show "\<not> walls (maze (if False then updateWalls no_walls_sensed ?r else ?r)) (posX ?r, posY ?r) SOUTH"
      by (simp add: explored_globals_def blank_globals_def walls_initializeMaze_arrays
          is_boundary_edge_iff is_within_bounds_def)
    show "neighbor (posX ?r, posY ?r) SOUTH = (0, 0)"
      by (simp add: explored_globals_def neighbor_def)
  qed
  with c(1) have mv3: "API_moveForward \<in> set tr3" by auto
  from inst h3 c(1) have
    "posX g3 = posX ?r \<and> posY g3 = posY ?r \<and> currentMode g3 = currentMode ?r \<and>
     (API_moveForward \<in> set tr3 \<longrightarrow>
        walls (maze g3) (posX ?r, posY ?r) (direction g3) \<and>
        (explorePhaseComplete g3 \<and> wall_symmetric (maze ?r) \<longrightarrow>
           (\<forall>c. is_within_bounds c \<longrightarrow>
              shortest_hops (maze g3) {(0, 0)} c (distances (maze g3) c))))"
    by blast
  with mv3 c(2) s3 inb(2) have
    p3: "posX g3 = posX ?r" "posY g3 = posY ?r" "currentMode g3 = currentMode ?r"
        "walls (maze g3) (posX ?r, posY ?r) (direction g3)"
        "shortest_hops (maze g3) {(0, 0)} (0, 1) (distances (maze g3) (0, 1))"
    by blast+
  have part3: "\<exists>g' tr.
      moveToNextCellReturn False no_walls_sensed False ?r = Inr (False, g', tr) \<and>
      API_moveForward \<in> set tr \<and> explorePhaseComplete g' \<and> posX g' = 0 \<and> posY g' = 1 \<and>
      currentMode g' = RETURN_MODE \<and> walls (maze g') (0, 1) (direction g') \<and>
      shortest_hops (maze g') {(0, 0)} (0, 1) (distances (maze g') (0, 1))"
    apply (rule exI [of _ g3], rule exI [of _ tr3])
    using c mv3 p3 by (simp add: explored_globals_def)
  from part1 part2 part3 show ?thesis by blast
qed

text \<open>
  The start of a run of ff.c: after initializeMaze the mouse stands at \<open>(0, 0)\<close> in SEARCH
  mode, and moveToNextCell attempts a move that reports blocked. The wall is recorded, but
  the refilled field is rooted at the goal cell \<open>(7, 7)\<close> only: the goal cell \<open>(8, 8)\<close> does
  not get the distance 0.
\<close>

theorem blocked_search_floods_one_goal_cell:
  "(case initializeMaze 0 0 blank_maze of
      Inl e \<Rightarrow> False
    | Inr m0 \<Rightarrow>
        (case moveToNextCell False (blank_globals\<lparr>maze := m0\<rparr>) of
           Inl e \<Rightarrow> False
         | Inr (g', tr) \<Rightarrow>
             API_moveForward \<in> set tr \<and> posX g' = 0 \<and> posY g' = 0 \<and>
             currentMode g' = SEARCH_MODE \<and> walls (maze g') (0, 0) (direction g') \<and>
             is_at_goal (8, 8) \<and> distances (maze g') (8, 8) \<noteq> 0))"
proof -
  let ?a = "initializeMaze_arrays blank_maze"
  have sa: "wall_symmetric ?a" by (rule initializeMaze_arrays_symmetric)
  from floodFillToGoal_correct [OF sa, of 0 0] obtain m0 where
    m0: "initializeMaze 0 0 blank_maze = Inr m0" and w0: "walls m0 = walls ?a"
    and v0: "visited m0 = visited ?a"
    and sh0: "\<And>c. is_within_bounds c \<Longrightarrow> shortest_hops ?a {goal_target 0 0} c (distances m0 c)"
    unfolding initializeMaze_def by blast
  let ?g = "blank_globals\<lparr>maze := m0\<rparr>"
  have inb: "is_within_bounds (0, 1)" "is_within_bounds (8, 8)" by (simp_all add: is_within_bounds_def)
  have pg: "posX ?g = 0" "posY ?g = 0" "currentMode ?g = SEARCH_MODE"
    by (simp_all add: blank_globals_def)
  have d01: "distances m0 (0, 1) \<le> 256" using sh0 [OF inb(1)] by (rule shortest_hops_le)
  have bn: "bonus ?g NORTH = 1"
    by (simp add: bonus_def pg w0 v0 walls_initializeMaze_arrays initializeMaze_arrays_others
        is_boundary_edge_iff is_within_bounds_def)
  have "\<exists>minDist md. fold (select_step ?g) all_dirs (MAZE_WIDTH * MAZE_HEIGHT, None) = (minDist, Some md)"
  proof (rule select_fold_ex [of ?g NORTH])
    show "\<not> walls (maze ?g) (posX ?g, posY ?g) NORTH"
      by (simp add: pg w0 walls_initializeMaze_arrays is_boundary_edge_iff is_within_bounds_def)
    show "is_within_bounds (neighbor (posX ?g, posY ?g) NORTH)"
      by (simp add: pg neighbor_def is_within_bounds_def)
    show "distances (maze ?g) (neighbor (posX ?g, posY ?g) NORTH) - bonus ?g NORTH < 256"
      using d01 by (simp add: bn pg neighbor_def)
  qed
  then obtain minDist md where
    sel: "fold (select_step ?g) all_dirs (MAZE_WIDTH * MAZE_HEIGHT, None) = (minDist, Some md)"
    by blast
  have nsp: "currentMode ?g \<noteq> SPEED_MODE" by (simp add: pg)
  let ?m1 = "m0\<lparr>walls := write_edge (walls m0) (0, 0) md True\<rparr>"
  from moveToNextCell_blocked [OF sel nsp] obtain m' where
    b: "moveToNextCell False ?g =
          Inr (?g\<lparr>direction := md, maze := ?m1\<rparr>\<lparr>maze := m'\<rparr>,
               snd (turn_loop (direction ?g) md) @ [API_moveForward])"
    and fl: "floodFillToGoal 0 0 ?m1 = Inr m'" and w': "walls m' = walls ?m1"
    by (auto simp: pg)
  have "wall_symmetric m0" using sa w0 wall_symmetric_walls [of m0 ?a] by simp
  then have sym1: "wall_symmetric ?m1" by (rule write_edge_symmetric)
  from floodFillToGoal_correct [OF sym1, of 0 0] fl inb(2)
  have "shortest_hops ?m1 {goal_target 0 0} (8, 8) (distances m' (8, 8))"
    by (auto simp del: split_paired_All)
  then have "distances m' (8, 8) \<noteq> 0"
    by (intro shortest_hops_not_source [of _ "(7, 7)" "(8, 8)"]) (simp_all add: goal_target_start)
  moreover have "walls m' (0, 0) md" using w' by (simp add: write_edge_apply)
  ultimately show ?thesis
    unfolding m0 sum.case b prod.case
    by (simp add: is_at_goal_def blank_globals_def)
qed

section \<open>Greedy path planning\<close>

lemma path_step_v3_fold:
  "fold (path_step_v3 m c) all_dirs (distances m c, NORTH, False) =
     (case greedy_dir m c of
        None \<Rightarrow> (distances m c, NORTH, False)
      | Some d \<Rightarrow> (distances m (neighbor c d), d, True))"
proof -
  let ?P = "\<lambda>d. \<not> has_wall m c d \<and> is_within_bounds (neighbor c d)"
  let ?f = "\<lambda>d. distances m (neighbor c d)"
  have step: "path_step_v3 m c =
      (\<lambda>d (mn, r). if ?P d \<and> ?f d < mn then (?f d, (d, True)) else (mn, r))"
    by (intro ext) (auto simp: path_step_v3_def neighbor_def Let_def split: prod.splits)
  have fnd: "find (\<lambda>d. ?P d \<and> ?f d < distances m c \<and>
                 (\<forall>d' \<in> set all_dirs. ?P d' \<and> ?f d' < distances m c \<longrightarrow> ?f d \<le> ?f d')) all_dirs
             = greedy_dir m c"
    unfolding greedy_dir_def by (intro find_cong refl) (auto simp: improving_def)
  show ?thesis unfolding step fold_first_min fnd ..
qed

lemma greedy_walk_hd: "\<exists>p. fst (greedy_walk n m c) = c # p"
  by (cases n) (auto simp: greedy_walk.simps [of _ m c] split: option.splits prod.splits)

lemma greedy_dir_improving: "greedy_dir m c = Some d \<Longrightarrow> improving m c d"
  unfolding greedy_dir_def find_Some_iff by blast

abbreviation no_next_v3 :: api_call where
  "no_next_v3 \<equiv> Log ''ERROR: Could not find next step while computing shortest path! Path broken?''"

abbreviation too_long_v3 :: api_call where
  "too_long_v3 \<equiv> Log ''ERROR: Shortest path exceeds maximum length!''"

lemma trace_path_unfold:
  "trace_path m c sp len =
     (if is_at_goal c then (sp, len, [])
      else case greedy_dir m c of
             None \<Rightarrow> (sp, 0, [no_next_v3])
           | Some d \<Rightarrow>
               if len < 256 then trace_path m (neighbor c d) (sp(len := neighbor c d)) (Suc len)
               else (sp, 0, [too_long_v3]))"
  unfolding trace_path.simps [of m c sp len] path_step_v3_fold
  by (simp add: neighbor_def Let_def split: option.splits)

lemma trace_path_greedy:
  "n = 256 - len \<Longrightarrow>
   trace_path m c sp len =
     (case greedy_walk n m c of
        (p, e) \<Rightarrow> (store sp len (tl p),
                   (if e = AtGoal then len + length p - 1 else 0),
                   (case e of AtGoal \<Rightarrow> [] | NoImprovement \<Rightarrow> [no_next_v3]
                    | OutOfRoom \<Rightarrow> [too_long_v3])))"
proof (induction n arbitrary: c sp len)
  case 0
  then have len: "\<not> len < 256" by simp
  show ?case
    by (cases "greedy_dir m c")
       (simp_all add: trace_path_unfold [of m c sp len] greedy_walk.simps [of 0 m c] len)
next
  case (Suc n)
  then have len: "len < 256" and n: "n = 256 - Suc len" by simp_all
  show ?case
  proof (cases "greedy_dir m c")
    case None
    then show ?thesis
      by (simp add: trace_path_unfold [of m c sp len] greedy_walk.simps [of "Suc n" m c])
  next
    case (Some d)
    obtain p e where w: "greedy_walk n m (neighbor c d) = (p, e)"
      by (cases "greedy_walk n m (neighbor c d)")
    from greedy_walk_hd [of n m "neighbor c d"] w obtain p' where p: "p = neighbor c d # p'"
      by auto
    have ih: "trace_path m (neighbor c d) (sp(len := neighbor c d)) (Suc len) =
        (store (sp(len := neighbor c d)) (Suc len) p',
         (if e = AtGoal then Suc len + length p' else 0),
         (case e of AtGoal \<Rightarrow> [] | NoImprovement \<Rightarrow> [no_next_v3]
          | OutOfRoom \<Rightarrow> [too_long_v3]))"
      unfolding Suc.IH [OF n] w p by simp
    show ?thesis
      by (simp add: trace_path_unfold [of m c sp len] greedy_walk.simps [of "Suc n" m c]
          Some w p ih len)
  qed
qed


lemma greedy_dir_ex:
  assumes "improving m c dir"
  shows "\<exists>d. greedy_dir m c = Some d"
proof -
  have "dir \<in> set all_dirs" unfolding set_all_dirs by simp
  with assms have "\<exists>d \<in> set all_dirs. improving m c d" by blast
  from ex_least_in_list [OF this, of "\<lambda>d. distances m (neighbor c d)"]
  have "greedy_dir m c \<noteq> None" unfolding greedy_dir_def find_None_iff by blast
  then show ?thesis by blast
qed

lemma greedy_walk_goal: "is_at_goal c \<Longrightarrow> greedy_walk n m c = ([c], AtGoal)"
  by (simp add: greedy_walk.simps [of n m c])

lemma greedy_walk_stuck:
  "\<not> is_at_goal c \<Longrightarrow> greedy_dir m c = None \<Longrightarrow> greedy_walk n m c = ([c], NoImprovement)"
  by (simp add: greedy_walk.simps [of n m c])

lemma greedy_walk_step:
  "\<not> is_at_goal c \<Longrightarrow> greedy_dir m c = Some d \<Longrightarrow> 0 < n \<Longrightarrow>
   greedy_walk n m c = (case greedy_walk (n - 1) m (neighbor c d) of (p, e) \<Rightarrow> (c # p, e))"
  by (cases n) (simp_all add: greedy_walk.simps [of _ m c])

text \<open>On a field without negative entries the walk from a cell of distance at most \<open>n\<close>
  needs no more than \<open>n\<close> steps.\<close>

lemma greedy_walk_room:
  assumes nn: "\<And>c. is_within_bounds c \<Longrightarrow> 0 \<le> distances m c"
    and "is_within_bounds c" and "distances m c \<le> int n"
  shows "snd (greedy_walk n m c) \<noteq> OutOfRoom"
  using assms(2,3)
proof (induction n arbitrary: c)
  case 0
  show ?case
  proof (cases "greedy_dir m c")
    case None
    then show ?thesis by (simp add: greedy_walk.simps [of 0 m c])
  next
    case (Some d)
    from greedy_dir_improving [OF Some] have "is_within_bounds (neighbor c d)"
      "distances m (neighbor c d) < distances m c" by (simp_all add: improving_def)
    with nn [of "neighbor c d"] 0 show ?thesis by simp
  qed
next
  case (Suc n)
  show ?case
  proof (cases "greedy_dir m c")
    case None
    then show ?thesis by (simp add: greedy_walk.simps [of "Suc n" m c])
  next
    case (Some d)
    from greedy_dir_improving [OF Some] have i: "is_within_bounds (neighbor c d)"
      "distances m (neighbor c d) < distances m c" by (simp_all add: improving_def)
    with Suc.prems have "distances m (neighbor c d) \<le> int n" by simp
    from Suc.IH [OF i(1) this] show ?thesis
      by (cases "greedy_walk n m (neighbor c d)")
         (simp add: greedy_walk.simps [of "Suc n" m c] Some)
  qed
qed

lemma store_below: "j < i \<Longrightarrow> store a i cs j = a j"
  by (induction cs arbitrary: a i) simp_all

lemma store_nth: "k < length cs \<Longrightarrow> store a i cs (i + k) = cs ! k"
proof (induction cs arbitrary: a i k)
  case Nil
  then show ?case by simp
next
  case (Cons c cs)
  show ?case
  proof (cases k)
    case 0
    then show ?thesis by (simp add: store_below)
  next
    case (Suc k')
    with Cons.prems have "k' < length cs" by simp
    then have "store (a(i := c)) (Suc i) cs (Suc i + k') = cs ! k'" by (rule Cons.IH)
    then show ?thesis by (simp add: Suc)
  qed
qed

lemma store_map: "map (store (a(0 := c)) (Suc 0) cs) [0..<Suc (length cs)] = c # cs"
proof (rule nth_equalityI)
  show "length (map (store (a(0 := c)) (Suc 0) cs) [0..<Suc (length cs)]) = length (c # cs)"
    by simp
next
  fix i assume "i < length (map (store (a(0 := c)) (Suc 0) cs) [0..<Suc (length cs)])"
  then have i: "i < Suc (length cs)" by simp
  show "map (store (a(0 := c)) (Suc 0) cs) [0..<Suc (length cs)] ! i = (c # cs) ! i"
  proof (cases i)
    case 0
    then show ?thesis by (simp add: store_below upt_rec)
  next
    case (Suc k)
    with i have k: "k < length cs" by simp
    have "map (store (a(0 := c)) (Suc 0) cs) [0..<Suc (length cs)] ! i
            = store (a(0 := c)) (Suc 0) cs i"
      using i by (simp only: nth_map_upt) simp
    also have "\<dots> = cs ! k" using store_nth [OF k, of "a(0 := c)" "Suc 0"] Suc by simp
    finally show ?thesis using Suc by simp
  qed
qed

subsection \<open>Fields of least hop counts\<close>

lemma hops_first:
  assumes "hops w n a b" and "n = Suc k"
  shows "\<exists>dir. \<not> w a dir \<and> is_within_bounds (neighbor a dir) \<and> hops w k (neighbor a dir) b"
  using assms
proof (induction arbitrary: k rule: hops.induct)
  case (hops_0 a)
  then show ?case by simp
next
  case (hops_Suc j a b dir)
  show ?case
  proof (cases j)
    case 0
    with hops_Suc.hyps(1) have ab: "a = b" by (simp add: hops_0_iff)
    have "hops w 0 (neighbor b dir) (neighbor b dir)" using hops_Suc.hyps(3) by (rule hops_0)
    with hops_Suc.hyps(2,3) hops_Suc.prems 0 ab show ?thesis by auto
  next
    case (Suc j')
    from hops_Suc.IH [OF Suc] obtain d where
      d: "\<not> w a d" "is_within_bounds (neighbor a d)" "hops w j' (neighbor a d) b" by blast
    from d(3) hops_Suc.hyps(2,3) have "hops w (Suc j') (neighbor a d) (neighbor b dir)"
      by (rule hops.hops_Suc)
    with d(1,2) hops_Suc.prems Suc show ?thesis by auto
  qed
qed

lemma field_nonneg: "shortest_hops m S c d \<Longrightarrow> 0 \<le> d"
  unfolding shortest_hops_def by (simp split: if_splits)

text \<open>An open edge to a cell that reaches a source makes the cell reach a source, over at
  most one more edge.\<close>

lemma field_step:
  assumes c: "shortest_hops m S c dc" and n: "shortest_hops m S (neighbor c dir) dn"
    and inb: "is_within_bounds c" and opn: "\<not> walls m c dir" and dn: "dn < 256"
  shows "dc \<le> dn + 1 \<and> dc < 256"
proof -
  from n dn have "\<exists>g \<in> S. hops (walls m) (nat dn) (neighbor c dir) g" and dn0: "0 \<le> dn"
    unfolding shortest_hops_def by (auto split: if_splits)
  then obtain g where g: "g \<in> S" "hops (walls m) (nat dn) (neighbor c dir) g" by blast
  from hops_front [OF g(2) refl opn inb] have h: "hops (walls m) (Suc (nat dn)) c g" .
  with g(1) have ex: "\<exists>k g. g \<in> S \<and> hops (walls m) k c g" by blast
  with c have "dc < 256" and "\<forall>k g. g \<in> S \<and> hops (walls m) k c g \<longrightarrow> dc \<le> int k"
    unfolding shortest_hops_def by (simp_all del: split_paired_All split_paired_Ex)
  with h g(1) have "dc \<le> int (Suc (nat dn))" by blast
  with dn0 \<open>dc < 256\<close> show ?thesis by simp
qed

text \<open>A cell that reaches a source and is none has an open edge to a cell that is nearer.\<close>

lemma field_descent:
  assumes fld: "\<And>c. is_within_bounds c \<Longrightarrow> shortest_hops m S c (distances m c)"
    and inb: "is_within_bounds c" and ns: "c \<notin> S" and dc: "distances m c < 256"
  shows "\<exists>dir. \<not> walls m c dir \<and> is_within_bounds (neighbor c dir) \<and>
               distances m (neighbor c dir) < distances m c"
proof -
  from fld [OF inb] dc obtain g where g: "g \<in> S" "hops (walls m) (nat (distances m c)) c g"
    and d0: "0 \<le> distances m c"
    unfolding shortest_hops_def by (auto split: if_splits)
  from g ns have "nat (distances m c) \<noteq> 0" by (auto simp: hops_0_iff)
  then obtain k where k: "nat (distances m c) = Suc k" by (cases "nat (distances m c)") simp_all
  from hops_first [OF g(2) k] obtain dir where
    dir: "\<not> walls m c dir" "is_within_bounds (neighbor c dir)" "hops (walls m) k (neighbor c dir) g"
    by blast
  from dir(3) g(1) have ex: "\<exists>k g. g \<in> S \<and> hops (walls m) k (neighbor c dir) g" by blast
  with fld [OF dir(2)] have "\<forall>k g. g \<in> S \<and> hops (walls m) k (neighbor c dir) g \<longrightarrow>
      distances m (neighbor c dir) \<le> int k"
    unfolding shortest_hops_def by (simp del: split_paired_All split_paired_Ex)
  with dir(3) g(1) have "distances m (neighbor c dir) \<le> int k" by blast
  with k have "distances m (neighbor c dir) < distances m c" by linarith
  with dir(1,2) show ?thesis by blast
qed


lemma field_improving:
  assumes fld: "\<And>c. is_within_bounds c \<Longrightarrow> shortest_hops m S c (distances m c)"
    and goals: "\<And>s. s \<in> S \<Longrightarrow> is_at_goal s"
    and inb: "is_within_bounds c" and ng: "\<not> is_at_goal c" and dc: "distances m c < 256"
  shows "\<exists>d. greedy_dir m c = Some d"
proof -
  from goals ng have "c \<notin> S" by blast
  from field_descent [OF fld inb this dc] obtain dir where
    "\<not> walls m c dir" "is_within_bounds (neighbor c dir)"
    "distances m (neighbor c dir) < distances m c" by blast
  with inb have "improving m c dir" by (simp add: improving_def has_wall_def)
  then show ?thesis by (rule greedy_dir_ex)
qed

lemma field_stuck:
  assumes fld: "\<And>c. is_within_bounds c \<Longrightarrow> shortest_hops m S c (distances m c)"
    and inb: "is_within_bounds c" and dc: "distances m c = 256"
  shows "greedy_dir m c = None"
proof (cases "greedy_dir m c")
  case None
  then show ?thesis .
next
  case (Some d)
  from greedy_dir_improving [OF Some] inb have
    i: "\<not> walls m c d" "is_within_bounds (neighbor c d)" "distances m (neighbor c d) < 256"
    using dc by (simp_all add: improving_def has_wall_def)
  from field_step [OF fld [OF inb] fld [OF i(2)] inb i(1) i(3)] dc show ?thesis by simp
qed

text \<open>On a field of least hop counts to goal cells the walk from a cell that reaches a
  source ends at a goal cell.\<close>

lemma greedy_walk_reaches:
  assumes fld: "\<And>c. is_within_bounds c \<Longrightarrow> shortest_hops m S c (distances m c)"
    and goals: "\<And>s. s \<in> S \<Longrightarrow> is_at_goal s"
    and "is_within_bounds c" and "distances m c < 256" and "distances m c \<le> int n"
  shows "snd (greedy_walk n m c) = AtGoal"
  using assms(3-5)
proof (induction n arbitrary: c)
  case 0
  show ?case
  proof (cases "is_at_goal c")
    case True
    then show ?thesis by (simp add: greedy_walk_goal)
  next
    case False
    from field_improving [OF fld goals 0(1) False 0(2)] obtain d where
      d: "greedy_dir m c = Some d" by blast
    from greedy_dir_improving [OF d] have "is_within_bounds (neighbor c d)"
      "distances m (neighbor c d) < distances m c" by (simp_all add: improving_def)
    with field_nonneg [OF fld, of "neighbor c d"] 0(3) show ?thesis by simp
  qed
next
  case (Suc n)
  show ?case
  proof (cases "is_at_goal c")
    case True
    then show ?thesis by (simp add: greedy_walk_goal)
  next
    case False
    from field_improving [OF fld goals Suc.prems(1) False Suc.prems(2)] obtain d where
      d: "greedy_dir m c = Some d" by blast
    from greedy_dir_improving [OF d] have i: "is_within_bounds (neighbor c d)"
      "distances m (neighbor c d) < distances m c" by (simp_all add: improving_def)
    with Suc.prems have "distances m (neighbor c d) < 256" "distances m (neighbor c d) \<le> int n"
      by simp_all
    from Suc.IH [OF i(1) this] show ?thesis
      by (cases "greedy_walk n m (neighbor c d)")
         (simp add: greedy_walk.simps [of "Suc n" m c] d False)
  qed
qed

abbreviation failed_ff :: api_call where
  "failed_ff \<equiv> Log ''ERROR: Failed to compute shortest path!''"

text \<open>On such a field the neighbour that ff.c takes, the first of least distance below
  256, is the first of least distance among the strictly nearer ones.\<close>

lemma path_step_fold:
  assumes fld: "\<And>c. is_within_bounds c \<Longrightarrow> shortest_hops m S c (distances m c)"
    and goals: "\<And>s. s \<in> S \<Longrightarrow> is_at_goal s"
    and inb: "is_within_bounds c" and ng: "\<not> is_at_goal c"
  shows "fold (path_step m c) all_dirs (MAZE_WIDTH * MAZE_HEIGHT, None) =
     (case greedy_dir m c of
        None \<Rightarrow> (256, None)
      | Some d \<Rightarrow> (distances m (neighbor c d), Some (neighbor c d)))"
proof -
  let ?P = "\<lambda>d. \<not> walls m c d \<and> is_within_bounds (neighbor c d)"
  let ?f = "\<lambda>d. distances m (neighbor c d)"
  have step: "path_step m c =
      (\<lambda>d (mn, r). if ?P d \<and> ?f d < mn then (?f d, Some (neighbor c d)) else (mn, r))"
    by (intro ext) (auto simp: path_step_def neighbor_def is_within_bounds_def Let_def)
  have imp: "improving m c d \<longleftrightarrow> ?P d \<and> ?f d < distances m c" for d
    using inb by (auto simp: improving_def has_wall_def)
  have le: "distances m c \<le> 256" using fld [OF inb] by (rule shortest_hops_le)
  have st: "distances m c \<le> ?f d + 1 \<and> distances m c < 256" if "?P d" "?f d < 256" for d
    using field_step [OF fld [OF inb] fld inb] that by blast
  from goals ng have ns: "c \<notin> S" by blast
  have fnd: "find (\<lambda>d. ?P d \<and> ?f d < 256 \<and>
                 (\<forall>d' \<in> set all_dirs. ?P d' \<and> ?f d' < 256 \<longrightarrow> ?f d \<le> ?f d')) all_dirs
             = greedy_dir m c"
    unfolding greedy_dir_def
  proof (intro find_cong refl)
    fix d
    show "(?P d \<and> ?f d < 256 \<and> (\<forall>d' \<in> set all_dirs. ?P d' \<and> ?f d' < 256 \<longrightarrow> ?f d \<le> ?f d')) =
          (improving m c d \<and> (\<forall>d' \<in> set all_dirs. improving m c d' \<longrightarrow> ?f d \<le> ?f d'))"
      unfolding ball_all_dirs
    proof
      assume l: "?P d \<and> ?f d < 256 \<and> (\<forall>d'. ?P d' \<and> ?f d' < 256 \<longrightarrow> ?f d \<le> ?f d')"
      with st [of d] have dc: "distances m c < 256" by blast
      from field_descent [OF fld inb ns dc] obtain d1 where
        d1: "?P d1" "?f d1 < distances m c" by blast
      with dc l have "?f d \<le> ?f d1" by force
      with d1(2) l have "improving m c d" unfolding imp by simp
      moreover have "?f d \<le> ?f d'" if "improving m c d'" for d'
        using that l dc unfolding imp by force
      ultimately show "improving m c d \<and> (\<forall>d'. improving m c d' \<longrightarrow> ?f d \<le> ?f d')" by blast
    next
      assume r: "improving m c d \<and> (\<forall>d'. improving m c d' \<longrightarrow> ?f d \<le> ?f d')"
      then have d: "?P d" "?f d < distances m c" unfolding imp by simp_all
      have "?f d \<le> ?f d'" if "?P d'" "?f d' < 256" for d'
        using st [OF that] d(2) by simp
      with d le show "?P d \<and> ?f d < 256 \<and> (\<forall>d'. ?P d' \<and> ?f d' < 256 \<longrightarrow> ?f d \<le> ?f d')"
        by auto
    qed
  qed
  have b: "MAZE_WIDTH * MAZE_HEIGHT = 256" by simp
  show ?thesis unfolding step b fold_first_min fnd ..
qed

lemma walk_unfold:
  assumes fld: "\<And>c. is_within_bounds c \<Longrightarrow> shortest_hops m S c (distances m c)"
    and goals: "\<And>s. s \<in> S \<Longrightarrow> is_at_goal s"
    and inb: "is_within_bounds c"
  shows "walk m c fp len =
     (if is_at_goal c then Inr (fp, len, [])
      else case greedy_dir m c of
             None \<Rightarrow> Inr (fp, len, [failed_ff])
           | Some d \<Rightarrow>
               if len < 256 then walk m (neighbor c d) (fp(len := neighbor c d)) (Suc len)
               else Inl PathOverflow)"
proof (cases "is_at_goal c")
  case True
  then show ?thesis
    unfolding walk.simps [of m c fp len] by (simp add: is_at_goal_def del: fold_simps)
next
  case False
  then have ng: "\<not> ((fst c = GOAL_X1 \<or> fst c = GOAL_X2) \<and> (snd c = GOAL_Y1 \<or> snd c = GOAL_Y2))"
    by (simp add: is_at_goal_def)
  have fd: "fold (path_step m c) all_dirs (MAZE_WIDTH * MAZE_HEIGHT, None) =
     (case greedy_dir m c of
        None \<Rightarrow> (256, None)
      | Some d \<Rightarrow> (distances m (neighbor c d), Some (neighbor c d)))"
    by (rule path_step_fold [OF fld goals inb False])
  show ?thesis
    apply (subst walk.simps)
    apply (subst fd)
    using False ng apply (simp split: option.splits)
    done
qed

lemma walk_greedy:
  assumes fld: "\<And>c. is_within_bounds c \<Longrightarrow> shortest_hops m S c (distances m c)"
    and goals: "\<And>s. s \<in> S \<Longrightarrow> is_at_goal s"
  shows "n = 256 - len \<Longrightarrow> is_within_bounds c \<Longrightarrow>
   walk m c fp len =
     (case greedy_walk n m c of
        (p, e) \<Rightarrow>
          (case e of
             AtGoal \<Rightarrow> Inr (store fp len (tl p), len + length p - 1, [])
           | NoImprovement \<Rightarrow> Inr (store fp len (tl p), len + length p - 1, [failed_ff])
           | OutOfRoom \<Rightarrow> Inl PathOverflow))"
proof (induction n arbitrary: c fp len)
  case 0
  then have len: "\<not> len < 256" by simp
  show ?case
    by (cases "greedy_dir m c")
       (simp_all add: walk_unfold [OF fld goals 0(2), of fp len] greedy_walk.simps [of 0 m c] len)
next
  case (Suc n)
  then have len: "len < 256" and n: "n = 256 - Suc len" by simp_all
  show ?case
  proof (cases "greedy_dir m c")
    case None
    then show ?thesis
      by (simp add: walk_unfold [OF fld goals Suc.prems(2), of fp len]
          greedy_walk.simps [of "Suc n" m c])
  next
    case (Some d)
    from greedy_dir_improving [OF Some] have inb: "is_within_bounds (neighbor c d)"
      by (simp add: improving_def)
    obtain p e where w: "greedy_walk n m (neighbor c d) = (p, e)"
      by (cases "greedy_walk n m (neighbor c d)")
    from greedy_walk_hd [of n m "neighbor c d"] w obtain p' where p: "p = neighbor c d # p'"
      by auto
    have ih: "walk m (neighbor c d) (fp(len := neighbor c d)) (Suc len) =
        (case e of
           AtGoal \<Rightarrow> Inr (store (fp(len := neighbor c d)) (Suc len) p', Suc len + length p', [])
         | NoImprovement \<Rightarrow>
             Inr (store (fp(len := neighbor c d)) (Suc len) p', Suc len + length p', [failed_ff])
         | OutOfRoom \<Rightarrow> Inl PathOverflow)"
      unfolding Suc.IH [OF n inb] w p by (simp split: walk_end.splits)
    show ?thesis
      by (simp add: walk_unfold [OF fld goals Suc.prems(2), of fp len]
          greedy_walk.simps [of "Suc n" m c] Some w p ih len split: walk_end.splits)
  qed
qed


lemma start_not_goal: "\<not> is_at_goal (0, 0)"
  by (simp add: is_at_goal_def)

lemma start_in_bounds: "is_within_bounds (0, 0)"
  by (simp add: is_within_bounds_def)

text \<open>The walk from the start over a field of least hop counts to goal cells: it ends at
  a goal cell when the start reaches a source, and stays at the start otherwise.\<close>

lemma greedy_walk_start:
  assumes fld: "\<And>c. is_within_bounds c \<Longrightarrow> shortest_hops m S c (distances m c)"
    and goals: "\<And>s. s \<in> S \<Longrightarrow> is_at_goal s"
  shows "if distances m (0, 0) = 256
         then greedy_walk 255 m (0, 0) = ([(0, 0)], NoImprovement)
         else snd (greedy_walk 255 m (0, 0)) = AtGoal"
proof (cases "distances m (0, 0) = 256")
  case True
  from field_stuck [OF fld start_in_bounds True] have "greedy_dir m (0, 0) = None" .
  with True show ?thesis by (simp add: greedy_walk_stuck start_not_goal)
next
  case False
  from shortest_hops_le [OF fld [OF start_in_bounds]] False
  have "distances m (0, 0) < 256" "distances m (0, 0) \<le> int 255" by simp_all
  from greedy_walk_reaches [OF fld goals start_in_bounds this] False show ?thesis by simp
qed

lemma compute_shortest_path_greedy:
  assumes sym: "wall_symmetric m"
  shows "\<exists>m' p e. flood_fill_goal m = Inr m' \<and> greedy_walk 255 m' (0, 0) = (p, e) \<and>
     (e = AtGoal \<or> e = NoImprovement) \<and>
     compute_shortest_path ms m =
       Inr (if e = AtGoal
            then ms\<lparr>shortest_path := store ((shortest_path ms)(0 := (0, 0))) (Suc 0) (tl p),
                    path_length := length p\<rparr>
            else ms\<lparr>path_length := 0\<rparr>,
            m',
            Log ''Computing shortest path from start to goal...'' #
            (if e = AtGoal then [] else [Log ''ERROR: Start cell is unreachable from goal!'']))"
proof -
  from flood_fill_goal_correct [OF sym] obtain m' where
    m': "flood_fill_goal m = Inr m'" and w: "walls m' = walls m"
    and sh: "\<And>c. is_within_bounds c \<Longrightarrow> shortest_hops m {g. is_at_goal g} c (distances m' c)"
    by blast
  have fld: "shortest_hops m' {g. is_at_goal g} c (distances m' c)" if "is_within_bounds c" for c
    using sh [OF that] by (simp add: shortest_hops_walls [OF w])
  have goals: "is_at_goal s" if "s \<in> {g. is_at_goal g}" for s using that by simp
  obtain p e where pe: "greedy_walk 255 m' (0, 0) = (p, e)" by (cases "greedy_walk 255 m' (0, 0)")
  note st = greedy_walk_start [OF fld goals, unfolded pe]
  show ?thesis
  proof (cases "distances m' (0, 0) = 256")
    case True
    with st have "e = NoImprovement" by simp
    with m' pe True show ?thesis by (simp add: compute_shortest_path_def)
  next
    case False
    with st have e: "e = AtGoal" by simp
    from greedy_walk_hd [of 255 m' "(0, 0)"] pe obtain p' where p: "p = (0, 0) # p'" by auto
    have "trace_path m' (0, 0) ((shortest_path ms)(0 := (0, 0))) 1 =
            (store ((shortest_path ms)(0 := (0, 0))) (Suc 0) (tl p), length p, [])"
      using trace_path_greedy [of 255 1 m' "(0, 0)" "(shortest_path ms)(0 := (0, 0))"]
      by (simp add: pe e p)
    with m' pe e False show ?thesis by (simp add: compute_shortest_path_def)
  qed
qed

lemma computeShortestPath_greedy:
  assumes sym: "wall_symmetric (maze g)"
  shows "\<exists>m' p e. floodFillToGoal (posX g) (posY g) (maze g) = Inr m' \<and>
     walls m' = walls (maze g) \<and>
     (\<forall>c. is_within_bounds c \<longrightarrow>
        shortest_hops (maze g) {goal_target (posX g) (posY g)} c (distances m' c)) \<and>
     greedy_walk 255 m' (0, 0) = (p, e) \<and>
     (e = AtGoal \<or> e = NoImprovement \<and> p = [(0, 0)]) \<and>
     computeShortestPath g =
       Inr (g\<lparr>maze := m',
              fastestPath := store ((fastestPath g)(0 := (0, 0))) (Suc 0) (tl p),
              pathLength := length p\<rparr>,
            Log ''Computing shortest path from start to goal'' #
            (if e = AtGoal then [] else [Log ''ERROR: Failed to compute shortest path!'']))"
proof -
  let ?t = "goal_target (posX g) (posY g)"
  from floodFillToGoal_correct [OF sym, of "posX g" "posY g"] obtain m' where
    m': "floodFillToGoal (posX g) (posY g) (maze g) = Inr m'" and w: "walls m' = walls (maze g)"
    and sh: "\<And>c. is_within_bounds c \<Longrightarrow> shortest_hops (maze g) {?t} c (distances m' c)"
    by blast
  have fld: "shortest_hops m' {?t} c (distances m' c)" if "is_within_bounds c" for c
    using sh [OF that] by (simp add: shortest_hops_walls [OF w])
  have goals: "is_at_goal s" if "s \<in> {?t}" for s using that goal_target_goal by simp
  obtain p e where pe: "greedy_walk 255 m' (0, 0) = (p, e)" by (cases "greedy_walk 255 m' (0, 0)")
  note st = greedy_walk_start [OF fld goals, unfolded pe]
  from st have e: "e = AtGoal \<or> e = NoImprovement \<and> p = [(0, 0)]"
    by (cases "distances m' (0, 0) = 256") simp_all
  from greedy_walk_hd [of 255 m' "(0, 0)"] pe obtain p' where p: "p = (0, 0) # p'" by auto
  have "walk m' (0, 0) ((fastestPath g)(0 := (0, 0))) 1 =
          Inr (store ((fastestPath g)(0 := (0, 0))) (Suc 0) (tl p), length p,
               if e = AtGoal then [] else [Log ''ERROR: Failed to compute shortest path!''])"
    using walk_greedy [OF fld goals, of 255 1 "(0, 0)" "(fastestPath g)(0 := (0, 0))"] e
    by (auto simp: pe p start_in_bounds)
  with m' w sh pe e show ?thesis
    apply (intro exI [of _ m'] exI [of _ p] exI [of _ e])
    apply (simp add: computeShortestPath_def del: split_paired_All)
    done
qed

text \<open>
  C3. With symmetric walls, both programs flood-fill toward the goal and then walk greedily
  from the start cell \<open>(0, 0)\<close>: at each step the next cell is the open neighbour in the
  grid with a distance strictly smaller than that of the current cell, the least such
  distance, and the first in the order North, East, South, West among equals; the walk
  ends at the first goal cell (\<open>greedy_walk\<close>, whose result here is never \<open>OutOfRoom\<close>). When
  the walk reaches a goal cell the stored path is the list of its cells and only the
  opening message is logged. When a cell has no open neighbour of strictly smaller
  distance, an error is logged; compute_shortest_path of ffv3.c then returns the empty
  path (\<open>path_length = 0\<close>), while computeShortestPath of ff.c keeps the cells stored so
  far, here the start cell alone (\<open>pathLength = 1\<close>). On these fields ff.c's choice, the
  neighbour of least distance below 256, is the same neighbour; its field is rooted at the
  goal cell nearest to the mouse.
\<close>

theorem greedy_shortest_path:
  "(wall_symmetric m \<longrightarrow>
      (\<exists>ms' m' lg p e.
         compute_shortest_path ms m = Inr (ms', m', lg) \<and> flood_fill_goal m = Inr m' \<and>
         greedy_walk 255 m' (0, 0) = (p, e) \<and> e \<noteq> OutOfRoom \<and>
         (e = AtGoal \<longrightarrow>
            path_cells ms' = p \<and> lg = [Log ''Computing shortest path from start to goal...'']) \<and>
         (e = NoImprovement \<longrightarrow>
            path_length ms' = 0 \<and>
            lg = [Log ''Computing shortest path from start to goal...'',
                  Log ''ERROR: Start cell is unreachable from goal!''])))
   \<and>
   (wall_symmetric (maze g) \<longrightarrow>
      (\<exists>g' lg p e.
         computeShortestPath g = Inr (g', lg) \<and>
         floodFillToGoal (posX g) (posY g) (maze g) = Inr (maze g') \<and>
         greedy_walk 255 (maze g') (0, 0) = (p, e) \<and> e \<noteq> OutOfRoom \<and>
         map (fastestPath g') [0..<pathLength g'] = p \<and>
         (e = AtGoal \<longrightarrow> lg = [Log ''Computing shortest path from start to goal'']) \<and>
         (e = NoImprovement \<longrightarrow>
            pathLength g' = 1 \<and>
            lg = [Log ''Computing shortest path from start to goal'',
                  Log ''ERROR: Failed to compute shortest path!''])))"
proof (intro conjI impI)
  assume sym: "wall_symmetric m"
  from compute_shortest_path_greedy [OF sym, of ms] obtain m' p e where
    r: "flood_fill_goal m = Inr m'" "greedy_walk 255 m' (0, 0) = (p, e)"
       "e = AtGoal \<or> e = NoImprovement"
       "compute_shortest_path ms m =
         Inr (if e = AtGoal
              then ms\<lparr>shortest_path := store ((shortest_path ms)(0 := (0, 0))) (Suc 0) (tl p),
                      path_length := length p\<rparr>
              else ms\<lparr>path_length := 0\<rparr>,
              m',
              Log ''Computing shortest path from start to goal...'' #
              (if e = AtGoal then [] else [Log ''ERROR: Start cell is unreachable from goal!'']))"
    by blast
  from greedy_walk_hd [of 255 m' "(0, 0)"] r(2) obtain p' where p: "p = (0, 0) # p'" by auto
  let ?ms' = "if e = AtGoal
              then ms\<lparr>shortest_path := store ((shortest_path ms)(0 := (0, 0))) (Suc 0) (tl p),
                      path_length := length p\<rparr>
              else ms\<lparr>path_length := 0\<rparr>"
  have pc: "path_cells ?ms' = p" if "e = AtGoal"
    using that store_map [of "shortest_path ms" "(0, 0)" p'] by (simp add: path_cells_def p)
  show "\<exists>ms' m' lg p e.
         compute_shortest_path ms m = Inr (ms', m', lg) \<and> flood_fill_goal m = Inr m' \<and>
         greedy_walk 255 m' (0, 0) = (p, e) \<and> e \<noteq> OutOfRoom \<and>
         (e = AtGoal \<longrightarrow>
            path_cells ms' = p \<and> lg = [Log ''Computing shortest path from start to goal...'']) \<and>
         (e = NoImprovement \<longrightarrow>
            path_length ms' = 0 \<and>
            lg = [Log ''Computing shortest path from start to goal...'',
                  Log ''ERROR: Start cell is unreachable from goal!''])"
    apply (rule exI [of _ ?ms'], rule exI [of _ m'])
    apply (rule exI [of _ "Log ''Computing shortest path from start to goal...'' #
              (if e = AtGoal then [] else [Log ''ERROR: Start cell is unreachable from goal!''])"])
    apply (rule exI [of _ p], rule exI [of _ e])
    using r pc by auto
next
  assume sym: "wall_symmetric (maze g)"
  from computeShortestPath_greedy [OF sym] obtain m' p e where
    r: "floodFillToGoal (posX g) (posY g) (maze g) = Inr m'"
       "greedy_walk 255 m' (0, 0) = (p, e)"
       "e = AtGoal \<or> e = NoImprovement \<and> p = [(0, 0)]"
       "computeShortestPath g =
         Inr (g\<lparr>maze := m',
                fastestPath := store ((fastestPath g)(0 := (0, 0))) (Suc 0) (tl p),
                pathLength := length p\<rparr>,
              Log ''Computing shortest path from start to goal'' #
              (if e = AtGoal then [] else [Log ''ERROR: Failed to compute shortest path!'']))"
    by blast
  from greedy_walk_hd [of 255 m' "(0, 0)"] r(2) obtain p' where p: "p = (0, 0) # p'" by auto
  let ?g' = "g\<lparr>maze := m',
                fastestPath := store ((fastestPath g)(0 := (0, 0))) (Suc 0) (tl p),
                pathLength := length p\<rparr>"
  have pc: "map (fastestPath ?g') [0..<pathLength ?g'] = p"
    using store_map [of "fastestPath g" "(0, 0)" p'] by (simp add: p)
  show "\<exists>g' lg p e.
         computeShortestPath g = Inr (g', lg) \<and>
         floodFillToGoal (posX g) (posY g) (maze g) = Inr (maze g') \<and>
         greedy_walk 255 (maze g') (0, 0) = (p, e) \<and> e \<noteq> OutOfRoom \<and>
         map (fastestPath g') [0..<pathLength g'] = p \<and>
         (e = AtGoal \<longrightarrow> lg = [Log ''Computing shortest path from start to goal'']) \<and>
         (e = NoImprovement \<longrightarrow>
            pathLength g' = 1 \<and>
            lg = [Log ''Computing shortest path from start to goal'',
                  Log ''ERROR: Failed to compute shortest path!''])"
    apply (rule exI [of _ ?g'])
    apply (rule exI [of _ "Log ''Computing shortest path from start to goal'' #
              (if e = AtGoal then [] else [Log ''ERROR: Failed to compute shortest path!''])"])
    apply (rule exI [of _ p], rule exI [of _ e])
    using r pc by auto
qed


text \<open>
  ff.c with the start cell closed on all four sides: no neighbour can be taken at the start,
  the error is logged, and the path is left with one cell, the start, not empty.
\<close>

theorem failed_path_keeps_start_cell:
  "(case computeShortestPath (blank_globals\<lparr>maze := enclosed_maze\<rparr>) of
      Inl e \<Rightarrow> False
    | Inr (g', lg) \<Rightarrow>
        lg = [Log ''Computing shortest path from start to goal'',
              Log ''ERROR: Failed to compute shortest path!''] \<and>
        pathLength g' = 1 \<and> fastestPath g' 0 = (0, 0))"
proof -
  let ?g = "blank_globals\<lparr>maze := enclosed_maze\<rparr>"
  from floodFillToGoal_returns [of "posX ?g" "posY ?g" "maze ?g"] obtain m' where
    m': "floodFillToGoal (posX ?g) (posY ?g) (maze ?g) = Inr m'"
    and w: "walls m' = walls enclosed_maze" by auto
  have st: "path_step m' (0, 0) dir acc = acc" for dir acc
    by (cases acc) (simp add: path_step_def w enclosed_walls)
  have "walk m' (0, 0) ((fastestPath ?g)(0 := (0, 0))) 1 =
          Inr ((fastestPath ?g)(0 := (0, 0)), 1, [Log ''ERROR: Failed to compute shortest path!''])"
    by (subst walk.simps) (simp add: st)
  with m' show ?thesis by (simp add: computeShortestPath_def)
qed

section \<open>The grid without inner walls\<close>

lemma open_grid_iff:
  "open_grid m \<longleftrightarrow> (\<forall>c dir. is_within_bounds c \<longrightarrow> walls m c dir = is_boundary_edge c dir)"
  unfolding open_grid_def ball_all_dirs set_all_cells by auto

lemma open_grid_walls: "open_grid m \<Longrightarrow> is_within_bounds c \<Longrightarrow> walls m c dir = is_boundary_edge c dir"
  unfolding open_grid_iff by blast

lemma open_grid_symmetric: "open_grid m \<Longrightarrow> wall_symmetric m"
  by (rule boundary_edges_symmetric) (rule open_grid_walls)

lemma open_grid_cong: "walls m' = walls m \<Longrightarrow> open_grid m' = open_grid m"
  by (simp add: open_grid_iff)

lemma hops_manhattan: "hops w k a b \<Longrightarrow> manhattan a b \<le> int k"
proof (induction rule: hops.induct)
  case (hops_0 a)
  show ?case by (simp add: manhattan_def)
next
  case (hops_Suc k a b dir)
  have "manhattan a (neighbor b dir) \<le> manhattan a b + 1"
    by (cases dir) (simp_all add: manhattan_def neighbor_def)
  with hops_Suc.IH show ?case by simp
qed

lemma closer_cell:
  assumes "is_within_bounds a" and "is_within_bounds b" and "a \<noteq> b"
  shows "\<exists>b' dir. is_within_bounds b' \<and> neighbor b' dir = b \<and> manhattan a b' = manhattan a b - 1"
proof -
  obtain ax ay bx "by" where ab: "a = (ax, ay)" "b = (bx, by)" by (cases a; cases b)
  consider "bx > ax" | "bx < ax" | "bx = ax" "by > ay" | "bx = ax" "by < ay"
    using assms(3) ab by fastforce
  then show ?thesis
  proof cases
    case 1
    then have "is_within_bounds (bx - 1, by) \<and> neighbor (bx - 1, by) EAST = b \<and>
               manhattan a (bx - 1, by) = manhattan a b - 1"
      using assms(1,2) ab by (auto simp: is_within_bounds_def neighbor_def manhattan_def)
    then show ?thesis by blast
  next
    case 2
    then have "is_within_bounds (bx + 1, by) \<and> neighbor (bx + 1, by) WEST = b \<and>
               manhattan a (bx + 1, by) = manhattan a b - 1"
      using assms(1,2) ab by (auto simp: is_within_bounds_def neighbor_def manhattan_def)
    then show ?thesis by blast
  next
    case 3
    then have "is_within_bounds (bx, by - 1) \<and> neighbor (bx, by - 1) NORTH = b \<and>
               manhattan a (bx, by - 1) = manhattan a b - 1"
      using assms(1,2) ab by (auto simp: is_within_bounds_def neighbor_def manhattan_def)
    then show ?thesis by blast
  next
    case 4
    then have "is_within_bounds (bx, by + 1) \<and> neighbor (bx, by + 1) SOUTH = b \<and>
               manhattan a (bx, by + 1) = manhattan a b - 1"
      using assms(1,2) ab by (auto simp: is_within_bounds_def neighbor_def manhattan_def)
    then show ?thesis by blast
  qed
qed

lemma open_grid_hops:
  assumes og: "open_grid m" and a: "is_within_bounds a"
  shows "n = nat (manhattan a b) \<Longrightarrow> is_within_bounds b \<Longrightarrow> hops (walls m) n a b"
proof (induction n arbitrary: b)
  case 0
  then have "manhattan a b \<le> 0" by simp
  then have "a = b" unfolding manhattan_def prod_eq_iff by arith
  with a show ?case by (simp add: hops_0)
next
  case (Suc n)
  then have ne: "a \<noteq> b" by (auto simp: manhattan_def)
  from closer_cell [OF a Suc.prems(2) ne] obtain b' dir where
    b': "is_within_bounds b'" "neighbor b' dir = b" "manhattan a b' = manhattan a b - 1" by blast
  from b'(3) Suc.prems(1) have "n = nat (manhattan a b')" by simp
  from Suc.IH [OF this b'(1)] have h: "hops (walls m) n a b'" .
  have "\<not> is_boundary_edge b' dir" using b'(1,2) Suc.prems(2) by (simp add: is_boundary_edge_def)
  then have "\<not> walls m b' dir" using og b'(1) by (simp add: open_grid_walls)
  from hops_Suc [OF h this] b'(2) Suc.prems(2) show ?case by simp
qed

text \<open>In the grid without inner walls the least hop count to a cell is the Manhattan
  distance.\<close>

lemma open_grid_field:
  assumes og: "open_grid m" and t: "is_within_bounds t" and c: "is_within_bounds c"
    and sh: "shortest_hops m {t} c d"
  shows "d = manhattan c t"
proof -
  have m0: "0 \<le> manhattan c t" by (simp add: manhattan_def)
  from open_grid_hops [OF og c refl t] have h: "hops (walls m) (nat (manhattan c t)) c t" .
  then have ex: "\<exists>k g. g \<in> {t} \<and> hops (walls m) k c g" by blast
  with sh have d: "0 \<le> d" "\<exists>g \<in> {t}. hops (walls m) (nat d) c g"
    "\<forall>k g. g \<in> {t} \<and> hops (walls m) k c g \<longrightarrow> d \<le> int k"
    unfolding shortest_hops_def by (simp_all del: split_paired_All split_paired_Ex)
  from d(3) h have "d \<le> int (nat (manhattan c t))" by blast
  moreover from d(2) have "hops (walls m) (nat d) c t" by simp
  from hops_manhattan [OF this] d(1) have "manhattan c t \<le> d" by simp
  ultimately show ?thesis using m0 by simp
qed

lemma open_grid_reach:
  assumes og: "open_grid m" and g: "g \<in> S" "is_within_bounds g" and c: "is_within_bounds c"
    and sh: "shortest_hops m S c d"
  shows "d < 256"
proof -
  from open_grid_hops [OF og c refl g(2)] g(1) have "\<exists>k g. g \<in> S \<and> hops (walls m) k c g" by blast
  with sh show ?thesis unfolding shortest_hops_def by (simp del: split_paired_All split_paired_Ex)
qed


text \<open>The greedy choice on the Manhattan field of the goal cell \<open>(7, 7)\<close>: north along the
  west border, then east along the row of the goal.\<close>

lemma manhattan_north:
  assumes w: "\<And>c dir. is_within_bounds c \<Longrightarrow> walls m c dir = is_boundary_edge c dir"
    and d: "\<And>c. is_within_bounds c \<Longrightarrow> distances m c = manhattan c (7, 7)"
    and y: "0 \<le> y" "y < 7"
  shows "greedy_dir m (0, y) = Some NORTH"
proof -
  have inb: "is_within_bounds (0, y)" "is_within_bounds (0, y + 1)" "is_within_bounds (1, y)"
    using y by (simp_all add: is_within_bounds_def)
  have dn: "distances m (neighbor (0, y) NORTH) = 13 - y" "distances m (0, y) = 14 - y"
    using y d [OF inb(1)] d [OF inb(2)] by (simp_all add: neighbor_def manhattan_def)
  have de: "distances m (neighbor (0, y) EAST) = 13 - y"
    using y d [OF inb(3)] by (simp add: neighbor_def manhattan_def)
  have n: "improving m (0, y) NORTH"
    using inb dn y by (simp add: improving_def w is_boundary_edge_iff neighbor_def)
  have ns: "\<not> improving m (0, y) SOUTH"
  proof (cases "y = 0")
    case True
    then show ?thesis using inb by (simp add: improving_def w is_boundary_edge_iff)
  next
    case False
    with y have i: "is_within_bounds (0, y - 1)" by (simp add: is_within_bounds_def)
    from d [OF i] y dn(2) show ?thesis by (simp add: improving_def neighbor_def manhattan_def)
  qed
  have nw: "\<not> improving m (0, y) WEST"
    using inb by (simp add: improving_def w is_boundary_edge_iff)
  have "distances m (neighbor (0, y) NORTH) \<le> distances m (neighbor (0, y) d')"
    if "improving m (0, y) d'" for d'
    using that ns nw dn de by (cases d') simp_all
  with n show ?thesis unfolding greedy_dir_def ball_all_dirs by simp
qed

lemma manhattan_east:
  assumes w: "\<And>c dir. is_within_bounds c \<Longrightarrow> walls m c dir = is_boundary_edge c dir"
    and d: "\<And>c. is_within_bounds c \<Longrightarrow> distances m c = manhattan c (7, 7)"
    and x: "0 \<le> x" "x < 7"
  shows "greedy_dir m (x, 7) = Some EAST"
proof -
  have inb: "is_within_bounds (x, 7)" "is_within_bounds (x + 1, 7)" "is_within_bounds (x, 8)"
    "is_within_bounds (x, 6)"
    using x by (simp_all add: is_within_bounds_def)
  have dc: "distances m (x, 7) = 7 - x" "distances m (neighbor (x, 7) EAST) = 6 - x"
    "distances m (neighbor (x, 7) NORTH) = 8 - x" "distances m (neighbor (x, 7) SOUTH) = 8 - x"
    using x d [OF inb(1)] d [OF inb(2)] d [OF inb(3)] d [OF inb(4)]
    by (simp_all add: neighbor_def manhattan_def)
  have e: "improving m (x, 7) EAST"
    using inb dc x by (simp add: improving_def w is_boundary_edge_iff neighbor_def)
  have nn: "\<not> improving m (x, 7) NORTH" "\<not> improving m (x, 7) SOUTH"
    using dc by (simp_all add: improving_def)
  have nw: "\<not> improving m (x, 7) WEST"
  proof (cases "x = 0")
    case True
    then show ?thesis using inb by (simp add: improving_def w is_boundary_edge_iff)
  next
    case False
    with x have i: "is_within_bounds (x - 1, 7)" by (simp add: is_within_bounds_def)
    from d [OF i] x dc(1) show ?thesis by (simp add: improving_def neighbor_def manhattan_def)
  qed
  have "distances m (neighbor (x, 7) EAST) \<le> distances m (neighbor (x, 7) d')"
    if "improving m (x, 7) d'" for d'
    using that nn nw by (cases d') simp_all
  with e nn show ?thesis unfolding greedy_dir_def ball_all_dirs by simp
qed

lemma manhattan_walk:
  assumes w: "\<And>c dir. is_within_bounds c \<Longrightarrow> walls m c dir = is_boundary_edge c dir"
    and d: "\<And>c. is_within_bounds c \<Longrightarrow> distances m c = manhattan c (7, 7)"
  shows "greedy_walk 255 m (0, 0) =
           ([(0, 0), (0, 1), (0, 2), (0, 3), (0, 4), (0, 5), (0, 6), (0, 7),
             (1, 7), (2, 7), (3, 7), (4, 7), (5, 7), (6, 7), (7, 7)], AtGoal)"
proof -
  have north: "greedy_walk n m (0, y) =
      (case greedy_walk (n - 1) m (0, y + 1) of (p, e) \<Rightarrow> ((0, y) # p, e))"
    if "0 \<le> y" "y < 7" "0 < n" for n y
    using greedy_walk_step [OF _ manhattan_north [OF w d that(1,2)] that(3)] that(1,2)
    by (simp add: is_at_goal_def neighbor_def)
  have east: "greedy_walk n m (x, 7) =
      (case greedy_walk (n - 1) m (x + 1, 7) of (p, e) \<Rightarrow> ((x, 7) # p, e))"
    if "0 \<le> x" "x < 7" "0 < n" for n x
    using greedy_walk_step [OF _ manhattan_east [OF w d that(1,2)] that(3)] that(1,2)
    by (simp add: is_at_goal_def neighbor_def)
  have goal: "greedy_walk n m (7, 7) = ([(7, 7)], AtGoal)" for n
    by (simp add: greedy_walk_goal is_at_goal_def)
  have e7: "greedy_walk 248 m (0, 7) =
      ([(0, 7), (1, 7), (2, 7), (3, 7), (4, 7), (5, 7), (6, 7), (7, 7)], AtGoal)"
    by (simp add: east goal)
  show ?thesis by (simp add: north e7)
qed

text \<open>The least Manhattan distance from a cell to a goal cell.\<close>

lemma nearest_goal_start: "Min (manhattan (0, 0) ` set goal_cells) = 14"
  by (simp add: goal_cells_eq manhattan_def)

text \<open>
  C9. In a 16 x 16 grid whose only walls are the boundary walls, with the mouse at the
  start \<open>(0, 0)\<close> (where \<open>main\<close> and prepareForSpeedRun call it), computeShortestPath of
  ff.c returns without an error message a path of 15 cells, 14 moves: north along the west
  border to \<open>(0, 7)\<close>, then east to the goal cell \<open>(7, 7)\<close>. 14 is the Manhattan distance
  from the start to the nearest goal cell.
\<close>

theorem open_grid_shortest_path:
  "open_grid (maze g) \<and> posX g = 0 \<and> posY g = 0 \<longrightarrow>
     (\<exists>g'. computeShortestPath g = Inr (g', [Log ''Computing shortest path from start to goal'']) \<and>
           pathLength g' = 15 \<and>
           map (fastestPath g') [0..<pathLength g'] =
             [(0, 0), (0, 1), (0, 2), (0, 3), (0, 4), (0, 5), (0, 6), (0, 7),
              (1, 7), (2, 7), (3, 7), (4, 7), (5, 7), (6, 7), (7, 7)] \<and>
           is_at_goal (fastestPath g' (pathLength g' - 1)) \<and>
           int (pathLength g') - 1 = Min (manhattan (0, 0) ` set goal_cells))"
proof
  assume h: "open_grid (maze g) \<and> posX g = 0 \<and> posY g = 0"
  then have og: "open_grid (maze g)" and ps: "posX g = 0" "posY g = 0" by simp_all
  let ?path = "[(0, 0), (0, 1), (0, 2), (0, 3), (0, 4), (0, 5), (0, 6), (0, 7),
              (1, 7), (2, 7), (3, 7), (4, 7), (5, 7), (6, 7), (7, 7)] :: cell list"
  from computeShortestPath_greedy [OF open_grid_symmetric [OF og]] obtain m' p e where
    r: "walls m' = walls (maze g)"
       "\<And>c. is_within_bounds c \<Longrightarrow>
          shortest_hops (maze g) {goal_target (posX g) (posY g)} c (distances m' c)"
       "greedy_walk 255 m' (0, 0) = (p, e)"
       "computeShortestPath g =
         Inr (g\<lparr>maze := m',
                fastestPath := store ((fastestPath g)(0 := (0, 0))) (Suc 0) (tl p),
                pathLength := length p\<rparr>,
              Log ''Computing shortest path from start to goal'' #
              (if e = AtGoal then [] else [Log ''ERROR: Failed to compute shortest path!'']))"
    by blast
  have t: "is_within_bounds (7, 7)" by (simp add: is_within_bounds_def)
  have w: "walls m' c dir = is_boundary_edge c dir" if "is_within_bounds c" for c dir
    using open_grid_walls [OF og that] r(1) by simp
  have d: "distances m' c = manhattan c (7, 7)" if "is_within_bounds c" for c
    using open_grid_field [OF og t that] r(2) [OF that] by (simp add: ps goal_target_start)
  from manhattan_walk [OF w d] r(3) have pe: "p = ?path" "e = AtGoal" by simp_all
  let ?g' = "g\<lparr>maze := m',
                fastestPath := store ((fastestPath g)(0 := (0, 0))) (Suc 0) (tl ?path),
                pathLength := length ?path\<rparr>"
  have res: "computeShortestPath g = Inr (?g', [Log ''Computing shortest path from start to goal''])"
    using r(4) unfolding pe by simp
  have pc: "map (fastestPath ?g') [0..<pathLength ?g'] = ?path"
    using store_map [of "fastestPath g" "(0, 0)" "tl ?path"] by simp
  have lst: "fastestPath ?g' (pathLength ?g' - 1) = (7, 7)"
    using store_nth [of 13 "tl ?path" "(fastestPath g)(0 := (0, 0))" "Suc 0"] by simp
  show "\<exists>g'. computeShortestPath g = Inr (g', [Log ''Computing shortest path from start to goal'']) \<and>
           pathLength g' = 15 \<and>
           map (fastestPath g') [0..<pathLength g'] = ?path \<and>
           is_at_goal (fastestPath g' (pathLength g' - 1)) \<and>
           int (pathLength g') - 1 = Min (manhattan (0, 0) ` set goal_cells)"
    apply (rule exI [of _ ?g'])
    apply (intro conjI)
        apply (rule res)
       apply simp
      apply (rule pc)
     apply (simp only: lst)
     apply (simp add: is_at_goal_def)
    apply (simp add: nearest_goal_start)
    done
qed

lemma initializeMaze_arrays_open: "open_grid (initializeMaze_arrays m)"
  by (simp add: open_grid_iff walls_initializeMaze_arrays)

lemma init_maze_open: "open_grid (init_maze m)"
  by (simp add: open_grid_iff walls_init_maze)

theorem open_grid_shortest_path_witness:
  "open_grid (maze (blank_globals\<lparr>maze := initializeMaze_arrays blank_maze\<rparr>)) \<and>
   posX (blank_globals\<lparr>maze := initializeMaze_arrays blank_maze\<rparr>) = 0 \<and>
   posY (blank_globals\<lparr>maze := initializeMaze_arrays blank_maze\<rparr>) = 0 \<and>
   (\<exists>g'. computeShortestPath (blank_globals\<lparr>maze := initializeMaze_arrays blank_maze\<rparr>)
            = Inr (g', [Log ''Computing shortest path from start to goal'']) \<and>
         pathLength g' = 15 \<and>
         map (fastestPath g') [0..<pathLength g'] =
           [(0, 0), (0, 1), (0, 2), (0, 3), (0, 4), (0, 5), (0, 6), (0, 7),
            (1, 7), (2, 7), (3, 7), (4, 7), (5, 7), (6, 7), (7, 7)] \<and>
         is_at_goal (fastestPath g' (pathLength g' - 1)) \<and>
         int (pathLength g') - 1 = Min (manhattan (0, 0) ` set goal_cells))"
  using open_grid_shortest_path [of "blank_globals\<lparr>maze := initializeMaze_arrays blank_maze\<rparr>"]
    initializeMaze_arrays_open [of blank_maze]
  by (simp add: blank_globals_def)


theorem greedy_shortest_path_witness:
  "wall_symmetric (init_maze blank_maze) \<and>
   (\<exists>ms' m' p.
      compute_shortest_path blank_mouse (init_maze blank_maze) =
        Inr (ms', m', [Log ''Computing shortest path from start to goal...'']) \<and>
      flood_fill_goal (init_maze blank_maze) = Inr m' \<and>
      greedy_walk 255 m' (0, 0) = (p, AtGoal) \<and> path_cells ms' = p) \<and>
   wall_symmetric (initializeMaze_arrays blank_maze) \<and>
   (\<exists>g' p.
      computeShortestPath (blank_globals\<lparr>maze := initializeMaze_arrays blank_maze\<rparr>) =
        Inr (g', [Log ''Computing shortest path from start to goal'']) \<and>
      floodFillToGoal 0 0 (initializeMaze_arrays blank_maze) = Inr (maze g') \<and>
      greedy_walk 255 (maze g') (0, 0) = (p, AtGoal) \<and>
      map (fastestPath g') [0..<pathLength g'] = p)"
proof -
  let ?m = "init_maze blank_maze"
  let ?a = "initializeMaze_arrays blank_maze"
  let ?g = "blank_globals\<lparr>maze := ?a\<rparr>"
  have s1: "wall_symmetric ?m" by (rule init_maze_symmetric)
  have s2: "wall_symmetric ?a" by (rule initializeMaze_arrays_symmetric)
  have s2': "wall_symmetric (maze ?g)" using s2 by simp
  have pg: "posX ?g = 0" "posY ?g = 0" "maze ?g = ?a" by (simp_all add: blank_globals_def)
  have t: "is_within_bounds (7, 7)" "is_at_goal (7, 7)"
    by (simp_all add: is_within_bounds_def is_at_goal_def)
  note inst = greedy_shortest_path [of ?m blank_mouse ?g]
  from inst s1 obtain ms' m' lg p e where
    a: "compute_shortest_path blank_mouse ?m = Inr (ms', m', lg)" "flood_fill_goal ?m = Inr m'"
       "greedy_walk 255 m' (0, 0) = (p, e)"
       "e = AtGoal \<longrightarrow>
          path_cells ms' = p \<and> lg = [Log ''Computing shortest path from start to goal...'']"
    by blast
  from flood_fill_goal_correct [OF s1] a(2) have w1: "walls m' = walls ?m"
    and sh1: "\<And>c. is_within_bounds c \<Longrightarrow> shortest_hops ?m {g. is_at_goal g} c (distances m' c)"
    by auto
  have fld1: "shortest_hops m' {g. is_at_goal g} c (distances m' c)" if "is_within_bounds c" for c
    using sh1 [OF that] by (simp add: shortest_hops_walls [OF w1])
  have "distances m' (0, 0) < 256"
    by (rule open_grid_reach [OF init_maze_open _ t(1) start_in_bounds sh1 [OF start_in_bounds]])
       (simp add: t(2))
  with greedy_walk_start [OF fld1, unfolded a(3)] have e1: "e = AtGoal" by simp
  with a have part1: "\<exists>ms' m' p.
      compute_shortest_path blank_mouse ?m =
        Inr (ms', m', [Log ''Computing shortest path from start to goal...'']) \<and>
      flood_fill_goal ?m = Inr m' \<and>
      greedy_walk 255 m' (0, 0) = (p, AtGoal) \<and> path_cells ms' = p"
    by auto
  from inst s2' obtain g' lg2 p2 e2 where
    b: "computeShortestPath ?g = Inr (g', lg2)"
       "floodFillToGoal (posX ?g) (posY ?g) (maze ?g) = Inr (maze g')"
       "greedy_walk 255 (maze g') (0, 0) = (p2, e2)"
       "map (fastestPath g') [0..<pathLength g'] = p2"
       "e2 = AtGoal \<longrightarrow> lg2 = [Log ''Computing shortest path from start to goal'']"
    by blast
  from b(2) have fl: "floodFillToGoal 0 0 ?a = Inr (maze g')" by (simp only: pg)
  from floodFillToGoal_correct [OF s2, of 0 0] fl have w2: "walls (maze g') = walls ?a"
    and sh2: "\<And>c. is_within_bounds c \<Longrightarrow> shortest_hops ?a {goal_target 0 0} c (distances (maze g') c)"
    by auto
  have fld2: "shortest_hops (maze g') {goal_target 0 0} c (distances (maze g') c)"
    if "is_within_bounds c" for c
    using sh2 [OF that] by (simp add: shortest_hops_walls [OF w2])
  have goals2: "is_at_goal s" if "s \<in> {goal_target 0 0}" for s using that goal_target_goal by simp
  have "distances (maze g') (0, 0) < 256"
    by (rule open_grid_reach [OF initializeMaze_arrays_open _ t(1) start_in_bounds
          sh2 [OF start_in_bounds]])
       (simp add: goal_target_start)
  with greedy_walk_start [OF fld2 goals2, unfolded b(3)] have e2: "e2 = AtGoal" by simp
  with b fl have part2: "\<exists>g' p.
      computeShortestPath ?g = Inr (g', [Log ''Computing shortest path from start to goal'']) \<and>
      floodFillToGoal 0 0 ?a = Inr (maze g') \<and>
      greedy_walk 255 (maze g') (0, 0) = (p, AtGoal) \<and>
      map (fastestPath g') [0..<pathLength g'] = p"
    by auto
  from s1 part1 s2 part2 show ?thesis by blast
qed

end
